(* ===== verification/Prelude.thy ===== *)
theory Prelude
  imports Main "HOL-Library.Word"
begin

text \<open>
  The types, the outcome of a call and the generic lemmas that the component theories
  share.  A C++ call that may spin, throw or have undefined behaviour is a function from
  the state to an outcome:
  \<^item> Returned: the call returned a value and left a state;
  \<^item> Spin: one pass through the body of a retry loop (a for without end in the source)
    ended with a yield, and the loop goes round again from the given state;
  \<^item> Raised: an exception left the call, with the state it left behind;
  \<^item> Fault: undefined behaviour or a failed assertion.
\<close>

named_theorems ring_simps \<open>unfolding rules of the ring buffer's operations\<close>
named_theorems inv_intros \<open>preservation lemmas of component invariants\<close>

type_synonym u8 = "8 word"
type_synonym u32 = "32 word"
type_synonym u64 = "64 word"

datatype fault =
    DivisionByZero
  | UseAfterFree
  | NullDereference
  | OutOfRange
  | DeadObject
  | AssertionFailed
  | ProcessExit

datatype exn =
    ClosedPortAccess
  | NoMoreData
  | PortNotFound
  | PortAlreadyExists
  | PortTypeMismatch
  | PortDoubleInitialize
  | PortUnconnected
  | AmbiguousPortAssignment
  | InvalidTopologyOperation
  | CloneNotImplemented
  | NoSignalHandlerFound
  | LengthError
  | InvalidArgument
  | IntegerOutOfRange

datatype ('r, 's) outcome =
    Returned 'r 's
  | Spin 's
  | Raised exn 's
  | Fault fault

text \<open>The states an outcome can leave behind.\<close>

fun outcome_states :: "('r, 's) outcome \<Rightarrow> 's set" where
  "outcome_states (Returned r s) = {s}"
| "outcome_states (Spin s) = {s}"
| "outcome_states (Raised e s) = {s}"
| "outcome_states (Fault f) = {}"

fun is_fault :: "('r, 's) outcome \<Rightarrow> bool" where
  "is_fault (Fault f) = True"
| "is_fault _ = False"

text \<open>Sequencing: the second call runs only when the first one returned.\<close>

fun bind_outcome :: "('r, 's) outcome \<Rightarrow> ('r \<Rightarrow> 's \<Rightarrow> ('q, 's) outcome) \<Rightarrow> ('q, 's) outcome" where
  "bind_outcome (Returned r s) k = k r s"
| "bind_outcome (Spin s) k = Spin s"
| "bind_outcome (Raised e s) k = Raised e s"
| "bind_outcome (Fault f) k = Fault f"

lemma bind_outcome_assoc:
  "bind_outcome (bind_outcome m f) g = bind_outcome m (\<lambda>r s. bind_outcome (f r s) g)"
  by (cases m) auto

lemma outcome_states_bind:
  assumes "\<And>r s. m = Returned r s \<Longrightarrow> outcome_states (k r s) \<subseteq> A"
    and "outcome_states m \<subseteq> A"
  shows "outcome_states (bind_outcome m k) \<subseteq> A"
  using assms by (cases m) auto

section \<open>Words read as natural numbers\<close>

lemma unat_inc:
  fixes a :: "'a :: len word"
  assumes "unat a + 1 < 2 ^ LENGTH('a)"
  shows "unat (a + 1) = unat a + 1"
proof -
  have "unat (1 :: 'a word) = 1" by simp
  with assms show ?thesis by (simp add: unat_word_ariths)
qed

lemma unat_Suc_mod:
  fixes a c :: "'a :: len word"
  assumes "unat a < unat c"
  shows "unat ((a + 1) mod c) = (unat a + 1) mod unat c"
proof -
  have "unat c < 2 ^ LENGTH('a)" by (rule unsigned_less)
  with assms have "unat a + 1 < 2 ^ LENGTH('a)" by linarith
  then have "unat (a + 1) = unat a + 1" by (rule unat_inc)
  then show ?thesis by (simp add: unat_mod_distrib)
qed

lemma unat_plus_mod:
  fixes a n c :: "'a :: len word"
  assumes "unat a + unat n < 2 ^ LENGTH('a)"
  shows "unat ((a + n) mod c) = (unat a + unat n) mod unat c"
  using assms by (simp add: unat_mod_distrib unat_word_ariths)

section \<open>Positions on a ring\<close>

text \<open>
  A ring position counts all the elements that ever passed: its quotient by the capacity
  is the number of wraps, its remainder the index.
\<close>

lemma Suc_pos_wrap:
  fixes a w c :: nat
  assumes "a < c"
  shows "(if (a + 1) mod c = 0 then w + 1 else w) * c + (a + 1) mod c = w * c + a + 1"
proof (cases "a + 1 = c")
  case True
  then show ?thesis by (auto simp: algebra_simps)
next
  case False
  with assms show ?thesis by simp
qed

lemma plus_pos_wrap:
  fixes a w c n :: nat
  assumes "a < c" and "n \<le> c"
  shows "(if (a + n) mod c < n then w + 1 else w) * c + (a + n) mod c = w * c + a + n"
proof (cases "a + n < c")
  case True
  then show ?thesis by simp
next
  case False
  then have "(a + n) mod c = a + n - c"
    using assms by (simp add: le_mod_geq)
  with False assms show ?thesis by (auto simp: algebra_simps)
qed

lemma ring_pos_mod: "(a::nat) < c \<Longrightarrow> (w * c + a) mod c = a"
  by simp

lemma ring_pos_div: "(a::nat) < c \<Longrightarrow> (w * c + a) div c = w"
  by simp

text \<open>Two positions less than one turn apart have different indices.\<close>

lemma mod_inj_window:
  fixes i j c :: nat
  assumes "i mod c = j mod c" and "i \<le> j" and "j < i + c"
  shows "i = j"
proof -
  have "c dvd j - i"
    using assms(1,2) by (metis mod_eq_dvd_iff_nat)
  moreover have "j - i < c" using assms by linarith
  ultimately have "j - i = 0" by (metis nat_dvd_not_less neq0_conv)
  with assms(2) show ?thesis by simp
qed

section \<open>Ordered maps\<close>

text \<open>
  A std::map iterates in key order: an association list sorted by its keys.  insert keeps
  an entry that is already there, as std::map::insert does.
\<close>

fun smap_find :: "('k \<times> 'v) list \<Rightarrow> 'k \<Rightarrow> 'v option" where
  "smap_find [] k = None"
| "smap_find ((k', v) # m) k = (if k = k' then Some v else smap_find m k)"

fun smap_insert :: "'k :: linorder \<Rightarrow> 'v \<Rightarrow> ('k \<times> 'v) list \<Rightarrow> ('k \<times> 'v) list" where
  "smap_insert k v [] = [(k, v)]"
| "smap_insert k v ((k', v') # m) =
     (if k < k' then (k, v) # (k', v') # m
      else if k = k' then (k', v') # m
      else (k', v') # smap_insert k v m)"

fun smap_update :: "('k \<times> 'v) list \<Rightarrow> 'k \<Rightarrow> ('v \<Rightarrow> 'v) \<Rightarrow> ('k \<times> 'v) list" where
  "smap_update [] k f = []"
| "smap_update ((k', v) # m) k f = (if k = k' then (k', f v) # m else (k', v) # smap_update m k f)"

definition smap_ok :: "('k :: linorder \<times> 'v) list \<Rightarrow> bool" where
  "smap_ok m \<longleftrightarrow> sorted (map fst m) \<and> distinct (map fst m)"

lemma smap_find_None: "smap_find m k = None \<longleftrightarrow> k \<notin> fst ` set m"
  by (induction m) (auto split: if_splits)

lemma smap_find_Some_in: "smap_find m k = Some v \<Longrightarrow> (k, v) \<in> set m"
  by (induction m) (auto split: if_splits)

lemma smap_find_in: "distinct (map fst m) \<Longrightarrow> (k, v) \<in> set m \<Longrightarrow> smap_find m k = Some v"
  by (induction m) force+

lemma smap_insert_keys: "fst ` set (smap_insert k v m) = insert k (fst ` set m)"
proof (induction m)
  case (Cons e m)
  then show ?case by (cases e) (simp add: insert_commute)
qed simp

lemma smap_find_insert:
  assumes "sorted (map fst m)"
  shows "smap_find (smap_insert k v m) k' =
     (if k' = k then (case smap_find m k of None \<Rightarrow> Some v | Some w \<Rightarrow> Some w)
      else smap_find m k')"
  using assms
proof (induction m)
  case (Cons e m)
  obtain a b where e: "e = (a, b)" by (cases e)
  have "smap_find m k = None" if "k < a"
    using Cons.prems e that by (auto simp: smap_find_None)
  then show ?case
    using Cons.prems Cons.IH e by (auto split: option.splits)
qed simp

lemma smap_insert_ok: "smap_ok m \<Longrightarrow> smap_ok (smap_insert k v m)"
proof (induction m)
  case (Cons e m)
  obtain a b where e: "e = (a, b)" by (cases e)
  have m: "smap_ok m" "\<forall>y \<in> fst ` set m. a \<le> y" "a \<notin> fst ` set m"
    using Cons.prems e by (auto simp: smap_ok_def)
  consider "k < a" | "k = a" | "a < k" by fastforce
  then show ?case
  proof cases
    case 1
    then show ?thesis using Cons.prems e m(2) by (auto simp: smap_ok_def)
  next
    case 2
    then show ?thesis using Cons.prems e by simp
  next
    case 3
    have "\<forall>y \<in> fst ` set (smap_insert k v m). a \<le> y" "a \<notin> fst ` set (smap_insert k v m)"
      unfolding smap_insert_keys using m(2,3) 3 by auto
    then show ?thesis using e Cons.IH [OF m(1)] 3 by (auto simp: smap_ok_def)
  qed
qed (simp add: smap_ok_def)

lemma smap_update_keys [simp]: "map fst (smap_update m k f) = map fst m"
  by (induction m k f rule: smap_update.induct) auto

lemma smap_find_update:
  "smap_find (smap_update m k f) k' = (if k' = k then map_option f (smap_find m k) else smap_find m k')"
  by (induction m k f rule: smap_update.induct) auto

lemma smap_update_ok [simp]: "smap_ok (smap_update m k f) = smap_ok m"
  by (simp add: smap_ok_def)

section \<open>Kernel keepers\<close>

text \<open>
  keeper (raftinc/kernelkeeper.tcc) guards a std::set of kernel pointers; acquire and
  release only serialise its users.  A loop over it goes in the order of the addresses.
\<close>

definition keeper_add :: "nat \<Rightarrow> nat set \<Rightarrow> nat set" where
  "keeper_add k s = insert k s"

definition keeper_list :: "nat set \<Rightarrow> nat list" where
  "keeper_list s = sorted_list_of_set s"

end
