(* ===== verification/Signals.thy ===== *)
theory Signals
  imports Prelude
begin

text \<open>
  The small value types of the ring buffer: the signals carried beside each element
  (raftinc/signalvars.hpp, raftinc/signal.hpp, src/signal.cpp), the blocked and count
  statistics (raftinc/blocked.hpp, src/blocked.cpp) and the access flags of the two ends
  of a queue (raftinc/threadaccess.hpp).
\<close>

unbundle bit_operations_syntax

section \<open>Signals\<close>

text \<open>raft::signal is an enum over a 32 bit unsigned integer.\<close>

type_synonym signal = u32

definition MAX_SYSTEM_SIGNAL :: u32 where
  "MAX_SYSTEM_SIGNAL = 0xfff"

definition sig_none :: signal where "sig_none = 0"
definition sig_quit :: signal where "sig_quit = 1"
definition sig_term :: signal where "sig_term = 2"
definition sig_eof :: signal where "sig_eof = MAX_SYSTEM_SIGNAL"

lemmas signal_defs = MAX_SYSTEM_SIGNAL_def sig_none_def sig_quit_def sig_term_def sig_eof_def

text \<open>Buffer::Signal: the signal of one slot and the index used by external buffers.\<close>

record Signal =
  sig :: signal
  index :: u64

definition Signal_new :: Signal where
  "Signal_new = \<lparr>sig = sig_none, index = 0\<rparr>"

text \<open>The copy constructor copies the signal only; the index keeps its default.\<close>

definition Signal_copy :: "Signal \<Rightarrow> Signal" where
  "Signal_copy other = Signal_new\<lparr>sig := sig other\<rparr>"

definition Signal_assign :: "Signal \<Rightarrow> signal \<Rightarrow> Signal" where
  "Signal_assign s x = s\<lparr>sig := x\<rparr>"

definition Signal_conv :: "Signal \<Rightarrow> signal" where
  "Signal_conv s = sig s"

definition getindex :: "Signal \<Rightarrow> u64" where
  "getindex s = index s"

lemma Signal_conv_assign [simp]: "Signal_conv (Signal_assign s x) = x"
  by (simp add: Signal_conv_def Signal_assign_def)

lemma getindex_assign [simp]: "getindex (Signal_assign s x) = getindex s"
  by (simp add: getindex_def Signal_assign_def)

section \<open>Blocked statistics\<close>

text \<open>
  A union of two 32 bit halves (blocked, count) and one 64 bit word over both.  The model
  keeps the halves; reading the whole word puts the first member in the low half, as a
  little endian machine does.
\<close>

record Blocked =
  blocked :: u32
  count :: u32

definition Blocked_new :: Blocked where
  "Blocked_new = \<lparr>blocked = 0, count = 0\<rparr>"

definition Blocked_all :: "Blocked \<Rightarrow> u64" where
  "Blocked_all b = ucast (blocked b) OR push_bit 32 (ucast (count b))"

definition Blocked_of_all :: "u64 \<Rightarrow> Blocked" where
  "Blocked_of_all w = \<lparr>blocked = ucast w, count = ucast (drop_bit 32 w)\<rparr>"

text \<open>Blocked::operator += adds the count only when the right side was not blocked.\<close>

definition Blocked_add :: "Blocked \<Rightarrow> Blocked \<Rightarrow> Blocked" where
  "Blocked_add b rhs =
     (if blocked rhs = 0 then b\<lparr>count := count b + count rhs\<rparr> else b)"

definition Blocked_assign :: "Blocked \<Rightarrow> Blocked \<Rightarrow> Blocked" where
  "Blocked_assign b other = Blocked_of_all (Blocked_all other)"

lemma Blocked_of_all_all [simp]: "Blocked_of_all (Blocked_all b) = b"
proof -
  have "ucast (Blocked_all b) = blocked b"
    by (rule bit_word_eqI) (simp add: Blocked_all_def bit_simps)
  moreover have "ucast (drop_bit 32 (Blocked_all b)) = count b"
    by (rule bit_word_eqI) (auto simp add: Blocked_all_def bit_simps dest: bit_imp_le_length)
  ultimately show ?thesis by (simp add: Blocked_of_all_def)
qed

lemma Blocked_assign_eq [simp]: "Blocked_assign b other = other"
  by (simp add: Blocked_assign_def)

section \<open>Access flags\<close>

text \<open>dm::access_key with the numbers the source gives its members (2 is not used).\<close>

datatype access_key =
  dm_allocate | dm_allocate_range | dm_push | dm_recycle | dm_pop | dm_peek | dm_size

fun access_key_val :: "access_key \<Rightarrow> nat" where
  "access_key_val dm_allocate = 0"
| "access_key_val dm_allocate_range = 1"
| "access_key_val dm_push = 3"
| "access_key_val dm_recycle = 4"
| "access_key_val dm_pop = 5"
| "access_key_val dm_peek = 6"
| "access_key_val dm_size = 7"

lemma access_key_val_inject [simp]: "access_key_val k = access_key_val l \<longleftrightarrow> k = l"
  by (cases k; cases l) simp_all

lemma access_key_val_less [simp]: "access_key_val k < 8"
  by (cases k) simp_all

text \<open>ThreadAccess: eight flag bytes, also read as one 64 bit word.\<close>

record ThreadAccess =
  flag :: "u8 list"

definition ThreadAccess_new :: ThreadAccess where
  "ThreadAccess_new = \<lparr>flag = replicate 8 0\<rparr>"

definition ThreadAccess_set :: "ThreadAccess \<Rightarrow> access_key \<Rightarrow> u8 \<Rightarrow> ThreadAccess" where
  "ThreadAccess_set ta k v = ta\<lparr>flag := (flag ta)[access_key_val k := v]\<rparr>"

definition ThreadAccess_get :: "ThreadAccess \<Rightarrow> access_key \<Rightarrow> u8" where
  "ThreadAccess_get ta k = flag ta ! access_key_val k"

text \<open>The whole word is zero exactly when every flag byte is zero.\<close>

definition ThreadAccess_idle :: "ThreadAccess \<Rightarrow> bool" where
  "ThreadAccess_idle ta \<longleftrightarrow> list_all (\<lambda>b. b = 0) (flag ta)"

lemma ThreadAccess_idle_new [simp]: "ThreadAccess_idle ThreadAccess_new"
  by (simp add: ThreadAccess_idle_def ThreadAccess_new_def list_all_iff)

lemma ThreadAccess_length_new [simp]: "length (flag ThreadAccess_new) = 8"
  by (simp add: ThreadAccess_new_def)

lemma ThreadAccess_length_set [simp]: "length (flag (ThreadAccess_set ta k v)) = length (flag ta)"
  by (simp add: ThreadAccess_set_def)

lemma ThreadAccess_get_set:
  "length (flag ta) = 8 \<Longrightarrow>
   ThreadAccess_get (ThreadAccess_set ta k v) l = (if l = k then v else ThreadAccess_get ta l)"
  by (auto simp: ThreadAccess_get_def ThreadAccess_set_def nth_list_update)

lemma ThreadAccess_set_set [simp]:
  "ThreadAccess_set (ThreadAccess_set ta k v) k w = ThreadAccess_set ta k w"
  by (simp add: ThreadAccess_set_def)

lemma ThreadAccess_idle_get:
  assumes "length (flag ta) = 8" and "ThreadAccess_idle ta"
  shows "ThreadAccess_get ta k = 0"
  using assms by (auto simp: ThreadAccess_idle_def ThreadAccess_get_def list_all_length)

lemma ThreadAccess_not_idle:
  assumes "length (flag ta) = 8" and "v \<noteq> 0"
  shows "\<not> ThreadAccess_idle (ThreadAccess_set ta k v)"
  using assms
  by (auto simp: ThreadAccess_idle_def ThreadAccess_set_def list_all_length
      intro!: exI [of _ "access_key_val k"])

text \<open>Setting a flag and clearing it again gives an idle set of flags back.\<close>

lemma ThreadAccess_set_clear:
  assumes "ThreadAccess_idle ta" and "length (flag ta) = 8"
  shows "ThreadAccess_set (ThreadAccess_set ta k v) k 0 = ta"
proof -
  have "(flag ta)[access_key_val k := 0] = flag ta"
    using assms by (auto simp: ThreadAccess_idle_def list_all_length intro!: nth_equalityI
        simp: nth_list_update)
  then show ?thesis by (simp add: ThreadAccess_set_def)
qed

end
