(* ===== verification/Ring_Pointer.thy ===== *)
theory Ring_Pointer
  imports Signals
begin

text \<open>
  The read and write pointers of a ring buffer (raftinc/pointer.hpp, src/pointer.cpp): an
  index below the capacity and a counter of how often it wrapped.  The library has two
  builds: the plain one, and one (JVEC_MACHINE) that keeps every word twice so that a
  reader can tell a torn update.  Both are modelled; the second is shown to follow the
  first whenever both copies agree, which every operation keeps.

  The ghost position of a pointer, wraps times capacity plus index, counts the elements
  that ever passed it.  The lemmas show that inc and incBy move it by one and by n.
\<close>

section \<open>The plain build\<close>

record Pointer =
  pt_a :: u64
  pt_wrap_a :: u64
  pt_max_cap :: u64

definition Pointer_new :: "u64 \<Rightarrow> Pointer" where
  "Pointer_new cap = \<lparr>pt_a = 0, pt_wrap_a = 0, pt_max_cap = cap\<rparr>"

definition Pointer_new_wrap :: "u64 \<Rightarrow> u64 \<Rightarrow> Pointer" where
  "Pointer_new_wrap cap wrap_set = (Pointer_new cap)\<lparr>pt_wrap_a := wrap_set\<rparr>"

definition Pointer_val :: "Pointer \<Rightarrow> u64" where
  "Pointer_val p = pt_a p"

definition Pointer_wrapIndicator :: "Pointer \<Rightarrow> u64" where
  "Pointer_wrapIndicator p = pt_wrap_a p"

text \<open>The resizing copy takes the index over and starts the wrap counter at zero.\<close>

definition Pointer_copy :: "Pointer \<Rightarrow> u64 \<Rightarrow> Pointer" where
  "Pointer_copy other new_cap = (Pointer_new new_cap)\<lparr>pt_a := Pointer_val other\<rparr>"

text \<open>None is the division by zero of a pointer without capacity.\<close>

definition Pointer_inc :: "Pointer \<Rightarrow> Pointer option" where
  "Pointer_inc p =
     (if pt_max_cap p = 0 then None
      else let p' = p\<lparr>pt_a := (pt_a p + 1) mod pt_max_cap p\<rparr>
           in Some (if pt_a p' = 0 then p'\<lparr>pt_wrap_a := pt_wrap_a p' + 1\<rparr> else p'))"

definition Pointer_incBy :: "Pointer \<Rightarrow> u64 \<Rightarrow> Pointer option" where
  "Pointer_incBy p n =
     (if pt_max_cap p = 0 then None
      else let p' = p\<lparr>pt_a := (pt_a p + n) mod pt_max_cap p\<rparr>
           in Some (if pt_a p' < n then p'\<lparr>pt_wrap_a := pt_wrap_a p' + 1\<rparr> else p'))"

section \<open>Well-formed pointers and their position\<close>

definition pointer_ok :: "Pointer \<Rightarrow> bool" where
  "pointer_ok p \<longleftrightarrow> pt_a p < pt_max_cap p"

definition pointer_pos :: "Pointer \<Rightarrow> nat" where
  "pointer_pos p = unat (pt_wrap_a p) * unat (pt_max_cap p) + unat (pt_a p)"

text \<open>The wrap counter of the pointer has room for one more turn.\<close>

definition wrap_room :: "Pointer \<Rightarrow> bool" where
  "wrap_room p \<longleftrightarrow> unat (pt_wrap_a p) + 1 < 2 ^ 64"

lemma pointer_okD: "pointer_ok p \<Longrightarrow> unat (pt_a p) < unat (pt_max_cap p)"
  by (simp add: pointer_ok_def word_less_nat_alt)

lemma pointer_ok_cap: "pointer_ok p \<Longrightarrow> pt_max_cap p \<noteq> 0"
  by (auto simp: pointer_ok_def)

lemma pointer_pos_index: "pointer_ok p \<Longrightarrow> pointer_pos p mod unat (pt_max_cap p) = unat (pt_a p)"
  by (simp add: pointer_pos_def pointer_okD)

lemma pointer_pos_wraps: "pointer_ok p \<Longrightarrow> pointer_pos p div unat (pt_max_cap p) = unat (pt_wrap_a p)"
  unfolding pointer_pos_def by (rule ring_pos_div [OF pointer_okD])

lemma pointer_pos_inject:
  assumes "pointer_ok p" "pointer_ok q" "pt_max_cap p = pt_max_cap q"
  shows "pointer_pos p = pointer_pos q \<longleftrightarrow> p = q"
proof
  assume "pointer_pos p = pointer_pos q"
  then have "pt_a p = pt_a q" "pt_wrap_a p = pt_wrap_a q"
    using assms pointer_pos_index pointer_pos_wraps by (metis word_unat_eq_iff)+
  with assms(3) show "p = q" by simp
qed simp

lemma Pointer_new_ok [simp]: "pointer_ok (Pointer_new cap) \<longleftrightarrow> cap \<noteq> 0"
  by (simp add: pointer_ok_def Pointer_new_def word_neq_0_conv)

lemma Pointer_new_pos [simp]: "pointer_pos (Pointer_new cap) = 0"
  by (simp add: pointer_pos_def Pointer_new_def)

lemma Pointer_new_wrap_pos [simp]: "pointer_pos (Pointer_new_wrap cap 1) = unat cap"
  by (simp add: pointer_pos_def Pointer_new_wrap_def Pointer_new_def)

lemma Pointer_copy_pos:
  "pointer_ok p \<Longrightarrow> pointer_pos (Pointer_copy p cap) = unat (pt_a p)"
  by (simp add: pointer_pos_def Pointer_copy_def Pointer_new_def Pointer_val_def)

lemma Pointer_copy_ok:
  "pointer_ok p \<Longrightarrow> pt_max_cap p \<le> cap \<Longrightarrow> pointer_ok (Pointer_copy p cap)"
  by (simp add: pointer_ok_def Pointer_copy_def Pointer_new_def Pointer_val_def)

lemma Pointer_fields [simp]:
  "pt_max_cap (Pointer_new cap) = cap"
  "pt_max_cap (Pointer_new_wrap cap w) = cap"
  "pt_max_cap (Pointer_copy p cap) = cap"
  "pt_a (Pointer_new cap) = 0"
  "pt_a (Pointer_new_wrap cap w) = 0"
  "pt_a (Pointer_copy p cap) = pt_a p"
  "pt_wrap_a (Pointer_new cap) = 0"
  "pt_wrap_a (Pointer_copy p cap) = 0"
  by (simp_all add: Pointer_new_def Pointer_new_wrap_def Pointer_copy_def Pointer_val_def)

lemma Pointer_inc_Some:
  assumes "pointer_ok p"
  obtains q where "Pointer_inc p = Some q" "pointer_ok q" "pt_max_cap q = pt_max_cap p"
    "unat (pt_a q) = (unat (pt_a p) + 1) mod unat (pt_max_cap p)"
    "pt_wrap_a q = (if pt_a q = 0 then pt_wrap_a p + 1 else pt_wrap_a p)"
proof -
  let ?a = "(pt_a p + 1) mod pt_max_cap p"
  let ?q = "if ?a = 0 then p\<lparr>pt_a := ?a, pt_wrap_a := pt_wrap_a p + 1\<rparr> else p\<lparr>pt_a := ?a\<rparr>"
  have cap: "pt_max_cap p \<noteq> 0" using assms by (rule pointer_ok_cap)
  have a: "unat ?a = (unat (pt_a p) + 1) mod unat (pt_max_cap p)"
    by (rule unat_Suc_mod [OF pointer_okD [OF assms]])
  have fields: "pt_a ?q = ?a" "pt_max_cap ?q = pt_max_cap p"
    "pt_wrap_a ?q = (if ?a = 0 then pt_wrap_a p + 1 else pt_wrap_a p)"
    by simp_all
  have "?a < pt_max_cap p"
    using cap by (simp only: word_less_nat_alt a) (simp add: unat_gt_0)
  then have "pointer_ok ?q" by (simp only: pointer_ok_def fields)
  moreover have "Pointer_inc p = Some ?q"
    using cap by (simp add: Pointer_inc_def Let_def)
  ultimately show thesis
    using that [of ?q] a by (simp only: fields)
qed

text \<open>
  One increment moves the position by one, unless the wrap counter itself overflows (the
  case the comment in pointer.hpp sets aside).
\<close>

lemma Pointer_inc_pos:
  assumes "pointer_ok p" and "wrap_room p" and "Pointer_inc p = Some q"
  shows "pointer_pos q = pointer_pos p + 1" "pointer_ok q" "pt_max_cap q = pt_max_cap p"
proof -
  obtain q' where q': "Pointer_inc p = Some q'" "pointer_ok q'" "pt_max_cap q' = pt_max_cap p"
    "unat (pt_a q') = (unat (pt_a p) + 1) mod unat (pt_max_cap p)"
    "pt_wrap_a q' = (if pt_a q' = 0 then pt_wrap_a p + 1 else pt_wrap_a p)"
    using Pointer_inc_Some [OF assms(1)] .
  have w: "unat (pt_wrap_a p + 1) = unat (pt_wrap_a p) + 1"
    by (rule unat_inc) (use assms(2) in \<open>simp add: wrap_room_def\<close>)
  have z: "pt_a q' = 0 \<longleftrightarrow> (unat (pt_a p) + 1) mod unat (pt_max_cap p) = 0"
    using q'(4) by (metis unat_eq_zero)
  have "pointer_pos q' = pointer_pos p + 1"
    using Suc_pos_wrap [OF pointer_okD [OF assms(1)], of "unat (pt_wrap_a p)"]
    by (simp add: pointer_pos_def q'(3,4,5) z w split: if_splits)
  with q' assms(3) show "pointer_pos q = pointer_pos p + 1" "pointer_ok q"
    "pt_max_cap q = pt_max_cap p" by simp_all
qed

lemma Pointer_incBy_pos:
  assumes "pointer_ok p" and "wrap_room p"
    and "n \<le> pt_max_cap p" and "unat (pt_a p) + unat n < 2 ^ 64"
  obtains q where "Pointer_incBy p n = Some q" "pointer_pos q = pointer_pos p + unat n"
    "pointer_ok q" "pt_max_cap q = pt_max_cap p"
proof -
  let ?a = "(pt_a p + n) mod pt_max_cap p"
  let ?q = "if ?a < n then p\<lparr>pt_a := ?a, pt_wrap_a := pt_wrap_a p + 1\<rparr> else p\<lparr>pt_a := ?a\<rparr>"
  have cap: "pt_max_cap p \<noteq> 0" using assms(1) by (rule pointer_ok_cap)
  have a: "unat ?a = (unat (pt_a p) + unat n) mod unat (pt_max_cap p)"
    using assms(4) by (intro unat_plus_mod) simp
  have w: "unat (pt_wrap_a p + 1) = unat (pt_wrap_a p) + 1"
    by (rule unat_inc) (use assms(2) in \<open>simp add: wrap_room_def\<close>)
  have lt: "?a < n \<longleftrightarrow> (unat (pt_a p) + unat n) mod unat (pt_max_cap p) < unat n"
    by (simp add: word_less_nat_alt a)
  have "pointer_pos ?q = pointer_pos p + unat n"
    using plus_pos_wrap [OF pointer_okD [OF assms(1)], of "unat n" "unat (pt_wrap_a p)"] assms(3)
    by (simp add: pointer_pos_def a lt w word_le_nat_alt split: if_splits)
  moreover have "Pointer_incBy p n = Some ?q"
    using cap by (simp add: Pointer_incBy_def Let_def)
  moreover have "pointer_ok ?q" "pt_max_cap ?q = pt_max_cap p"
    using cap by (simp_all add: pointer_ok_def word_less_nat_alt a unat_gt_0)
  ultimately show thesis using that by blast
qed

fun Pointer_inc_times :: "nat \<Rightarrow> Pointer \<Rightarrow> Pointer option" where
  "Pointer_inc_times 0 p = Some p"
| "Pointer_inc_times (Suc n) p =
     (case Pointer_inc p of None \<Rightarrow> None | Some q \<Rightarrow> Pointer_inc_times n q)"

lemma wrap_room_pos:
  assumes "pointer_ok p" and "pointer_pos p + unat (pt_max_cap p) < 2 ^ 64 * unat (pt_max_cap p)"
  shows "wrap_room p"
proof -
  have "(unat (pt_wrap_a p) + 1) * unat (pt_max_cap p) < 2 ^ 64 * unat (pt_max_cap p)"
    using assms(2) unfolding pointer_pos_def distrib_right by linarith
  then show ?thesis unfolding wrap_room_def by (metis mult_less_cancel2)
qed

lemma Pointer_inc_times_pos:
  assumes "pointer_ok p"
    and "pointer_pos p + n + unat (pt_max_cap p) \<le> 2 ^ 64 * unat (pt_max_cap p)"
  shows "\<exists>q. Pointer_inc_times n p = Some q \<and> pointer_pos q = pointer_pos p + n \<and>
             pointer_ok q \<and> pt_max_cap q = pt_max_cap p"
  using assms
proof (induction n arbitrary: p)
  case 0
  then show ?case by simp
next
  case (Suc n)
  have room: "wrap_room p"
    by (rule wrap_room_pos) (use Suc.prems in simp_all)
  obtain r where r: "Pointer_inc p = Some r"
    using Pointer_inc_Some [OF Suc.prems(1)] by metis
  note step = Pointer_inc_pos [OF Suc.prems(1) room r]
  show ?case
    using Suc.IH [OF step(2)] Suc.prems(2) step r by simp
qed

section \<open>The build with doubled words\<close>

record JPointer =
  jp_a :: u64
  jp_b :: u64
  jp_wrap_a :: u64
  jp_wrap_b :: u64
  jp_max_cap :: u64

definition JPointer_new :: "u64 \<Rightarrow> JPointer" where
  "JPointer_new cap = \<lparr>jp_a = 0, jp_b = 0, jp_wrap_a = 0, jp_wrap_b = 0, jp_max_cap = cap\<rparr>"

text \<open>
  val and wrapIndicator read both copies until they agree: None is a read that goes round
  again.
\<close>

definition JPointer_val :: "JPointer \<Rightarrow> u64 option" where
  "JPointer_val p = (if jp_a p = jp_b p then Some (jp_b p) else None)"

definition JPointer_wrapIndicator :: "JPointer \<Rightarrow> u64 option" where
  "JPointer_wrapIndicator p = (if jp_wrap_a p = jp_wrap_b p then Some (jp_wrap_b p) else None)"

definition JPointer_inc :: "JPointer \<Rightarrow> JPointer option" where
  "JPointer_inc p =
     (if jp_max_cap p = 0 then None
      else let p1 = p\<lparr>jp_a := (jp_a p + 1) mod jp_max_cap p\<rparr>;
               p2 = p1\<lparr>jp_b := (jp_b p1 + 1) mod jp_max_cap p1\<rparr>
           in Some (if jp_b p2 = 0
                    then p2\<lparr>jp_wrap_a := jp_wrap_a p2 + 1, jp_wrap_b := jp_wrap_b p2 + 1\<rparr>
                    else p2))"

definition JPointer_incBy :: "JPointer \<Rightarrow> u64 \<Rightarrow> JPointer option" where
  "JPointer_incBy p n =
     (if jp_max_cap p = 0 then None
      else let p1 = p\<lparr>jp_a := (jp_a p + n) mod jp_max_cap p\<rparr>;
               p2 = p1\<lparr>jp_b := (jp_b p1 + n) mod jp_max_cap p1\<rparr>
           in Some (if jp_b p2 < n
                    then p2\<lparr>jp_wrap_a := jp_wrap_a p2 + 1, jp_wrap_b := jp_wrap_b p2 + 1\<rparr>
                    else p2))"

text \<open>The doubled pointer of a plain one.\<close>

definition double_pointer :: "Pointer \<Rightarrow> JPointer" where
  "double_pointer p =
     \<lparr>jp_a = pt_a p, jp_b = pt_a p, jp_wrap_a = pt_wrap_a p, jp_wrap_b = pt_wrap_a p,
      jp_max_cap = pt_max_cap p\<rparr>"

lemma double_pointer_new: "JPointer_new cap = double_pointer (Pointer_new cap)"
  by (simp add: JPointer_new_def double_pointer_def)

lemma double_pointer_inc:
  "JPointer_inc (double_pointer p) = map_option double_pointer (Pointer_inc p)"
  by (auto simp: JPointer_inc_def Pointer_inc_def double_pointer_def Let_def)

lemma double_pointer_incBy:
  "JPointer_incBy (double_pointer p) n = map_option double_pointer (Pointer_incBy p n)"
  by (auto simp: JPointer_incBy_def Pointer_incBy_def double_pointer_def Let_def)

section \<open>Properties\<close>

text \<open>
  Fact: incBy is inc repeated.  A single call of incBy by n, n at most the capacity, leaves
  the pointer (index and wrap counter) that n calls of inc leave, while neither the sum of
  index and n nor the wrap counter overflows its 64 bits.
\<close>

theorem incBy_is_repeated_inc:
  assumes "pointer_ok p"
    and "n \<le> pt_max_cap p" and "unat (pt_a p) + unat n < 2 ^ 64"
    and "pointer_pos p + unat n + unat (pt_max_cap p) \<le> 2 ^ 64 * unat (pt_max_cap p)"
  shows "Pointer_incBy p n = Pointer_inc_times (unat n) p"
proof (cases "n = 0")
  case True
  then show ?thesis
    using assms(1) by (simp add: Pointer_incBy_def Let_def pointer_ok_def pointer_ok_cap mod_word_less)
next
  case False
  then have "0 < unat n" by (simp add: unat_gt_0)
  then have "wrap_room p"
    using assms(4) by (intro wrap_room_pos [OF assms(1)]) linarith
  with assms obtain q where q: "Pointer_incBy p n = Some q" "pointer_pos q = pointer_pos p + unat n"
    "pointer_ok q" "pt_max_cap q = pt_max_cap p"
    using Pointer_incBy_pos by metis
  obtain r where r: "Pointer_inc_times (unat n) p = Some r" "pointer_pos r = pointer_pos p + unat n"
    "pointer_ok r" "pt_max_cap r = pt_max_cap p"
    using Pointer_inc_times_pos assms(1,4) by blast
  from q r have "q = r" using pointer_pos_inject [of q r] by simp
  with q r show ?thesis by simp
qed

theorem incBy_is_repeated_inc_witness:
  "Pointer_incBy \<lparr>pt_a = 2, pt_wrap_a = 0, pt_max_cap = 4\<rparr> 3
     = Pointer_inc_times 3 \<lparr>pt_a = 2, pt_wrap_a = 0, pt_max_cap = 4\<rparr>"
  using incBy_is_repeated_inc [of "\<lparr>pt_a = 2, pt_wrap_a = 0, pt_max_cap = 4\<rparr>" 3]
  by (simp add: pointer_ok_def pointer_pos_def)

datatype pointer_op = Inc | IncBy u64

fun run_pointer :: "Pointer \<Rightarrow> pointer_op list \<Rightarrow> Pointer option" where
  "run_pointer p [] = Some p"
| "run_pointer p (Inc # ops) = (case Pointer_inc p of None \<Rightarrow> None | Some q \<Rightarrow> run_pointer q ops)"
| "run_pointer p (IncBy n # ops) =
     (case Pointer_incBy p n of None \<Rightarrow> None | Some q \<Rightarrow> run_pointer q ops)"

fun run_jpointer :: "JPointer \<Rightarrow> pointer_op list \<Rightarrow> JPointer option" where
  "run_jpointer p [] = Some p"
| "run_jpointer p (Inc # ops) = (case JPointer_inc p of None \<Rightarrow> None | Some q \<Rightarrow> run_jpointer q ops)"
| "run_jpointer p (IncBy n # ops) =
     (case JPointer_incBy p n of None \<Rightarrow> None | Some q \<Rightarrow> run_jpointer q ops)"

lemma run_jpointer_double:
  "run_jpointer (double_pointer p) ops = map_option double_pointer (run_pointer p ops)"
  by (induction p ops rule: run_pointer.induct)
    (auto simp: double_pointer_inc double_pointer_incBy split: option.splits)

text \<open>
  C23: the doubled build simulates the plain one.  Starting from a freshly constructed
  pointer, any sequence of inc and incBy leaves both copies of the index and of the wrap
  counter equal, so that val and wrapIndicator return at once, with the plain build's
  values.
\<close>

theorem jvec_pointer_refines:
  "(case run_jpointer (JPointer_new cap) ops of
      None \<Rightarrow> run_pointer (Pointer_new cap) ops = None
    | Some j \<Rightarrow> (\<exists>p. run_pointer (Pointer_new cap) ops = Some p \<and>
                      JPointer_val j = Some (Pointer_val p) \<and>
                      JPointer_wrapIndicator j = Some (Pointer_wrapIndicator p)))"
  unfolding double_pointer_new run_jpointer_double
  by (cases "run_pointer (Pointer_new cap) ops")
    (simp_all add: JPointer_val_def JPointer_wrapIndicator_def double_pointer_def
      Pointer_val_def Pointer_wrapIndicator_def)

end
