(* ===== verification/Ring_Data.thy ===== *)
theory Ring_Data
  imports Ring_Pointer
begin

text \<open>
  The storage of a ring buffer (raftinc/database.tcc, raftinc/bufferdata.tcc, the inline
  heap variant) and its manager (raftinc/datamanager.tcc): the constructors, the copy made
  when a queue is resized, the access flags, and one pass of the resizing loop.

  A slot of the store is None while it holds raw memory (never written, or the object in
  it was destroyed) and Some v while it holds the value v.  Memory is never reused in the
  model: a buffer has a number, and a pointer into a buffer is valid only while that
  number is the number of the current buffer, because resize deletes the old one.
\<close>

section \<open>The buffer\<close>

record 'a data =
  max_cap :: u64
  length_store :: u64
  length_signal :: u64
  dynamic_alloc_size :: u64
  read_pt :: Pointer
  thread_access_0 :: ThreadAccess
  thread_access_1 :: ThreadAccess
  write_pt :: Pointer
  store :: "'a option list"
  signal :: "Signal list"
  external_alloc :: bool
  is_valid :: bool
  read_stats :: Blocked
  write_stats :: Blocked
  force_resize :: u64

text \<open>
  DataBase's constructor: both lengths are computed from the size of an element, the one
  of the signal array too.  The pointers are default constructed, without a capacity.
\<close>

definition DataBase_new :: "u64 \<Rightarrow> u64 \<Rightarrow> 'a data" where
  "DataBase_new sizeof_T cap =
     \<lparr>max_cap = cap,
      length_store = sizeof_T * cap,
      length_signal = sizeof_T * cap,
      dynamic_alloc_size = sizeof_T * cap + sizeof_T * cap,
      read_pt = Pointer_new 0,
      thread_access_0 = ThreadAccess_new,
      thread_access_1 = ThreadAccess_new,
      write_pt = Pointer_new 0,
      store = [],
      signal = [],
      external_alloc = False,
      is_valid = True,
      read_stats = Blocked_new,
      write_stats = Blocked_new,
      force_resize = 0\<rparr>"

text \<open>
  The allocating constructor.  The two flags say whether posix_memalign and calloc found
  the memory; without it the process exits.  The store is raw memory of length_store
  bytes, the signals are zeroed.
\<close>

definition Data_new :: "bool \<Rightarrow> bool \<Rightarrow> u64 \<Rightarrow> u64 \<Rightarrow> fault + 'a data" where
  "Data_new store_mem signal_mem sizeof_T cap =
     (let d = DataBase_new sizeof_T cap
      in if \<not> store_mem then Inl ProcessExit
         else if \<not> signal_mem then Inl ProcessExit
         else Inr (d\<lparr>store := replicate (unat (length_store d) div unat sizeof_T) None,
                     signal := replicate (unat cap) Signal_new,
                     read_pt := Pointer_new cap,
                     write_pt := Pointer_new cap,
                     read_stats := Blocked_new,
                     write_stats := Blocked_new\<rparr>))"

text \<open>
  The constructor over memory the user already owns: the queue starts full (the write
  pointer has wrapped once), and exactly one signal is allocated, to carry the start
  position.
\<close>

definition Data_external :: "bool \<Rightarrow> u64 \<Rightarrow> 'a option list \<Rightarrow> u64 \<Rightarrow> u64 \<Rightarrow> fault + 'a data" where
  "Data_external signal_mem sizeof_T mem cap start_position =
     (if \<not> signal_mem then Inl ProcessExit
      else Inr ((DataBase_new sizeof_T cap)
                  \<lparr>store := mem,
                   signal := [Signal_new\<lparr>index := start_position\<rparr>],
                   read_pt := Pointer_new cap,
                   write_pt := Pointer_new_wrap cap 1,
                   read_stats := Blocked_new,
                   write_stats := Blocked_new,
                   external_alloc := True\<rparr>))"

section \<open>Copying a buffer\<close>

text \<open>
  memcpy on the signal array.  A Signal takes 16 bytes: the 32 bit signal at offset 0 and
  the 64 bit index at offset 8.  Copying n bytes copies n div 16 signals whole and the
  first n mod 16 bytes of one more (bytes in little endian order).  None: the copy reads
  or writes past the end of an array.
\<close>

definition sizeof_Signal :: nat where
  "sizeof_Signal = 16"

definition merge_signal :: "nat \<Rightarrow> Signal \<Rightarrow> Signal \<Rightarrow> Signal" where
  "merge_signal r src dst =
     \<lparr>sig = take_bit (8 * r) (sig src) OR push_bit (8 * r) (drop_bit (8 * r) (sig dst)),
      index = take_bit (8 * (r - 8)) (index src)
                OR push_bit (8 * (r - 8)) (drop_bit (8 * (r - 8)) (index dst))\<rparr>"

definition copy_signals :: "nat \<Rightarrow> Signal list \<Rightarrow> Signal list \<Rightarrow> Signal list option" where
  "copy_signals n src dst =
     (let k = n div sizeof_Signal; r = n mod sizeof_Signal
      in if n > sizeof_Signal * length src \<or> n > sizeof_Signal * length dst then None
         else if r = 0 then Some (take k src @ drop k dst)
         else Some (take k src @ [merge_signal r (src ! k) (dst ! k)] @ drop (k + 1) dst))"

text \<open>memcpy on the store: all the bytes of the other buffer's store.\<close>

definition copy_store :: "'a data \<Rightarrow> 'a data \<Rightarrow> 'a option list option" where
  "copy_store d other =
     (if length_store other \<le> length_store d
      then Some (store other @ drop (length (store other)) (store d))
      else None)"

definition copyFrom :: "'a data \<Rightarrow> 'a data \<Rightarrow> fault + 'a data" where
  "copyFrom d other =
     (if external_alloc other then Inl ProcessExit
      else case copy_store d other of
             None \<Rightarrow> Inl OutOfRange
           | Some st \<Rightarrow>
               (case copy_signals (unat (length_signal other)) (signal other) (signal d) of
                  None \<Rightarrow> Inl OutOfRange
                | Some sg \<Rightarrow>
                    Inr (d\<lparr>read_pt := Pointer_copy (read_pt other) (max_cap d),
                           write_pt := Pointer_copy (write_pt other) (max_cap d),
                           is_valid := is_valid other,
                           store := st,
                           signal := sg,
                           read_stats := read_stats other,
                           write_stats := write_stats other,
                           force_resize := force_resize other,
                           thread_access_0 := thread_access_0 other,
                           thread_access_1 := thread_access_1 other\<rparr>)))"

section \<open>The manager and the state of a FIFO\<close>

text \<open>
  FIFOAbstract and the DataManager in it.  thread_access always points into the current
  buffer (set assigns both), so the flags are read there; the two statistics pointers are
  assigned by init alone, and carry the number of the buffer they point into.
\<close>

record 'a fifo =
  buffer :: "'a data"
  buffer_id :: nat
  resizing :: bool
  resizeable :: bool
  checking_size :: u64
  allocate_called :: bool
  n_allocated :: u32
  write_stats_ptr :: nat
  read_stats_ptr :: nat

definition upd_buffer :: "('a data \<Rightarrow> 'a data) \<Rightarrow> 'a fifo \<Rightarrow> 'a fifo" where
  "upd_buffer f s = s\<lparr>buffer := f (buffer s)\<rparr>"

definition dm_set :: "'a data \<Rightarrow> nat \<Rightarrow> 'a fifo \<Rightarrow> 'a fifo" where
  "dm_set d i s = s\<lparr>buffer := d, buffer_id := i, resizeable := (if external_alloc d then False else True)\<rparr>"

definition fifo_init :: "'a fifo \<Rightarrow> 'a fifo" where
  "fifo_init s = s\<lparr>write_stats_ptr := buffer_id s, read_stats_ptr := buffer_id s\<rparr>"

definition is_resizeable :: "'a fifo \<Rightarrow> bool" where
  "is_resizeable s = resizeable s"

definition notResizing :: "'a fifo \<Rightarrow> bool" where
  "notResizing s = (\<not> resizing s)"

text \<open>set_helper: which flag or counter a key stands for.\<close>

definition set_helper :: "access_key \<Rightarrow> u8 \<Rightarrow> 'a fifo \<Rightarrow> 'a fifo" where
  "set_helper key v s =
     (case key of
        dm_allocate \<Rightarrow> upd_buffer (\<lambda>d. d\<lparr>thread_access_0 := ThreadAccess_set (thread_access_0 d) dm_allocate v\<rparr>) s
      | dm_allocate_range \<Rightarrow> upd_buffer (\<lambda>d. d\<lparr>thread_access_0 := ThreadAccess_set (thread_access_0 d) dm_allocate_range v\<rparr>) s
      | dm_push \<Rightarrow> upd_buffer (\<lambda>d. d\<lparr>thread_access_0 := ThreadAccess_set (thread_access_0 d) dm_push v\<rparr>) s
      | dm_recycle \<Rightarrow> upd_buffer (\<lambda>d. d\<lparr>thread_access_1 := ThreadAccess_set (thread_access_1 d) dm_recycle v\<rparr>) s
      | dm_pop \<Rightarrow> upd_buffer (\<lambda>d. d\<lparr>thread_access_1 := ThreadAccess_set (thread_access_1 d) dm_pop v\<rparr>) s
      | dm_peek \<Rightarrow> upd_buffer (\<lambda>d. d\<lparr>thread_access_1 := ThreadAccess_set (thread_access_1 d) dm_peek v\<rparr>) s
      | dm_size \<Rightarrow> (if v = 0 then s\<lparr>checking_size := checking_size s - 1\<rparr>
                    else s\<lparr>checking_size := checking_size s + 1\<rparr>))"

definition enterBuffer :: "access_key \<Rightarrow> 'a fifo \<Rightarrow> 'a fifo" where
  "enterBuffer key = set_helper key 1"

definition exitBuffer :: "access_key \<Rightarrow> 'a fifo \<Rightarrow> 'a fifo" where
  "exitBuffer key = set_helper key 0"

text \<open>The two tests of the resizing loop.\<close>

definition allclear :: "'a fifo \<Rightarrow> bool" where
  "allclear s \<longleftrightarrow>
     ThreadAccess_idle (thread_access_0 (buffer s)) \<and>
     ThreadAccess_idle (thread_access_1 (buffer s)) \<and> checking_size s = 0"

definition buffercondition :: "'a data \<Rightarrow> bool" where
  "buffercondition d = (Pointer_val (read_pt d) < Pointer_val (write_pt d))"

text \<open>
  One pass of DataManager::resize.  Spin: the flags or the shape of the buffer do not
  allow the copy yet.  After the copy the old buffer is deleted.
\<close>

definition resize_pass :: "'a data \<Rightarrow> nat \<Rightarrow> bool \<Rightarrow> 'a fifo \<Rightarrow> (unit, 'a fifo) outcome" where
  "resize_pass new_buffer new_id exit_buffer s =
     (if exit_buffer \<or> \<not> is_valid (buffer s) then Returned () (s\<lparr>resizing := False\<rparr>)
      else let s1 = s\<lparr>resizing := True\<rparr>
           in if allclear s1 \<and> buffercondition (buffer s1)
              then (case copyFrom new_buffer (buffer s1) of
                      Inl f \<Rightarrow> Fault f
                    | Inr d \<Rightarrow> Returned () ((dm_set d new_id s1)\<lparr>resizing := False\<rparr>))
              else Spin (s1\<lparr>resizing := False\<rparr>))"

section \<open>Construction and resizing of a RingBuffer\<close>

definition fifo_blank :: "'a data \<Rightarrow> nat \<Rightarrow> 'a fifo" where
  "fifo_blank d i =
     \<lparr>buffer = d, buffer_id = i, resizing = False, resizeable = True, checking_size = 0,
      allocate_called = False, n_allocated = 1, write_stats_ptr = i, read_stats_ptr = i\<rparr>"

definition RingBuffer_new :: "bool \<Rightarrow> bool \<Rightarrow> u64 \<Rightarrow> u64 \<Rightarrow> nat \<Rightarrow> fault + 'a fifo" where
  "RingBuffer_new store_mem signal_mem sizeof_T n i =
     (if n = 0 then Inl AssertionFailed
      else case Data_new store_mem signal_mem sizeof_T n of
             Inl f \<Rightarrow> Inl f
           | Inr d \<Rightarrow> Inr (fifo_init (dm_set d i (fifo_blank d i))))"

definition RingBuffer_external ::
  "bool \<Rightarrow> u64 \<Rightarrow> 'a option list \<Rightarrow> u64 \<Rightarrow> u64 \<Rightarrow> nat \<Rightarrow> fault + 'a fifo" where
  "RingBuffer_external signal_mem sizeof_T mem n start_position i =
     (if n = 0 then Inl AssertionFailed
      else case Data_external signal_mem sizeof_T mem n start_position of
             Inl f \<Rightarrow> Inl f
           | Inr d \<Rightarrow> Inr (fifo_init (dm_set d i (fifo_blank d i))))"

text \<open>make_new_fifo: an existing buffer (its align argument is the start position) or a new one.\<close>

definition make_new_fifo ::
  "bool \<Rightarrow> bool \<Rightarrow> u64 \<Rightarrow> u64 \<Rightarrow> u64 \<Rightarrow> 'a option list option \<Rightarrow> nat \<Rightarrow> fault + 'a fifo" where
  "make_new_fifo store_mem signal_mem sizeof_T n_items align data i =
     (case data of
        Some mem \<Rightarrow> RingBuffer_external signal_mem sizeof_T mem n_items align i
      | None \<Rightarrow> RingBuffer_new store_mem signal_mem sizeof_T n_items i)"

text \<open>
  RingBuffer::resize: the new buffer is allocated first, then the manager's loop runs; a
  later pass of the loop is resize_pass with the same new buffer.
\<close>

definition RingBuffer_resize ::
  "bool \<Rightarrow> bool \<Rightarrow> u64 \<Rightarrow> u64 \<Rightarrow> nat \<Rightarrow> bool \<Rightarrow> 'a fifo \<Rightarrow> (unit, 'a fifo) outcome" where
  "RingBuffer_resize store_mem signal_mem sizeof_T n new_id exit_alloc s =
     (if is_resizeable s
      then (case Data_new store_mem signal_mem sizeof_T n of
              Inl f \<Rightarrow> Fault f
            | Inr d \<Rightarrow> resize_pass d new_id exit_alloc s)
      else Returned () s)"

section \<open>Well-formed buffers and their contents\<close>

definition buf_ok :: "'a data \<Rightarrow> bool" where
  "buf_ok d \<longleftrightarrow>
     max_cap d \<noteq> 0 \<and>
     pt_max_cap (read_pt d) = max_cap d \<and> pt_max_cap (write_pt d) = max_cap d \<and>
     pointer_ok (read_pt d) \<and> pointer_ok (write_pt d) \<and>
     pointer_pos (read_pt d) \<le> pointer_pos (write_pt d) \<and>
     pointer_pos (write_pt d) \<le> pointer_pos (read_pt d) + unat (max_cap d) \<and>
     length (store d) = unat (max_cap d) \<and>
     length (flag (thread_access_0 d)) = 8 \<and> length (flag (thread_access_1 d)) = 8"

text \<open>Buffers allocated by the library have a signal for every slot.\<close>

definition signals_ok :: "'a data \<Rightarrow> bool" where
  "signals_ok d \<longleftrightarrow> length (signal d) = unat (max_cap d)"

definition data_slot :: "'a data \<Rightarrow> nat \<Rightarrow> 'a option \<times> signal" where
  "data_slot d i = (store d ! (i mod unat (max_cap d)), sig (signal d ! (i mod unat (max_cap d))))"

text \<open>The abstraction: the elements between the two positions, oldest first.\<close>

definition contents :: "'a data \<Rightarrow> ('a option \<times> signal) list" where
  "contents d = map (data_slot d) [pointer_pos (read_pt d)..<pointer_pos (write_pt d)]"

lemma contents_length [simp]:
  "length (contents d) = pointer_pos (write_pt d) - pointer_pos (read_pt d)"
  by (simp add: contents_def)

lemma buf_ok_cap_pos: "buf_ok d \<Longrightarrow> 0 < unat (max_cap d)"
  by (simp add: buf_ok_def unat_gt_0)

lemma buf_ok_contents_le: "buf_ok d \<Longrightarrow> length (contents d) \<le> unat (max_cap d)"
  unfolding buf_ok_def contents_length by linarith

lemma buf_ok_index:
  assumes "buf_ok d"
  shows "unat (pt_a (read_pt d)) < unat (max_cap d)" "unat (pt_a (write_pt d)) < unat (max_cap d)"
    "unat (pt_a (read_pt d)) = pointer_pos (read_pt d) mod unat (max_cap d)"
    "unat (pt_a (write_pt d)) = pointer_pos (write_pt d) mod unat (max_cap d)"
  using assms pointer_okD [of "read_pt d"] pointer_okD [of "write_pt d"]
    pointer_pos_index [of "read_pt d"] pointer_pos_index [of "write_pt d"]
  by (simp_all add: buf_ok_def)

lemma Data_new_ok:
  assumes "Data_new sm gm sz cap = Inr d" and "cap \<noteq> 0" and "sz \<noteq> 0"
    and "unat sz * unat cap < 2 ^ 64"
  shows "buf_ok d" "signals_ok d" "contents d = []" "max_cap d = cap" "is_valid d"
    "\<not> external_alloc d" "unat (length_store d) = unat sz * unat cap"
proof -
  have len: "unat (sz * cap) = unat sz * unat cap"
    using assms(4) by (simp add: unat_word_ariths)
  have sz: "0 < unat sz" using assms(3) by (simp add: unat_gt_0)
  have d: "d = (DataBase_new sz cap)\<lparr>store := replicate (unat cap) None,
       signal := replicate (unat cap) Signal_new, read_pt := Pointer_new cap,
       write_pt := Pointer_new cap, read_stats := Blocked_new, write_stats := Blocked_new\<rparr>"
    using assms(1) len sz by (auto simp: Data_new_def Let_def DataBase_new_def split: if_splits)
  show "buf_ok d" "signals_ok d" "contents d = []" "max_cap d = cap" "is_valid d"
    "\<not> external_alloc d" "unat (length_store d) = unat sz * unat cap"
    using assms(2) len
    by (simp_all add: d buf_ok_def signals_ok_def contents_def DataBase_new_def)
qed

lemma Data_external_ok:
  assumes "Data_external gm sz mem cap start = Inr d" and "cap \<noteq> 0" and "length mem = unat cap"
  shows "buf_ok d" "length (contents d) = unat cap" "map fst (contents d) = mem"
    "external_alloc d" "length (signal d) = 1" "getindex (signal d ! 0) = start"
proof -
  have d: "d = (DataBase_new sz cap)\<lparr>store := mem, signal := [Signal_new\<lparr>index := start\<rparr>],
      read_pt := Pointer_new cap, write_pt := Pointer_new_wrap cap 1,
      read_stats := Blocked_new, write_stats := Blocked_new, external_alloc := True\<rparr>"
    using assms(1) by (auto simp: Data_external_def split: if_splits)
  have "pointer_ok (Pointer_new_wrap cap 1)"
    using assms(2) by (simp add: pointer_ok_def word_neq_0_conv)
  then show "buf_ok d" "length (contents d) = unat cap" "map fst (contents d) = mem"
    "external_alloc d" "length (signal d) = 1" "getindex (signal d ! 0) = start"
    using assms(2,3)
    by (simp_all add: d buf_ok_def DataBase_new_def getindex_def contents_def data_slot_def
        list_eq_iff_nth_eq)
qed

end
