(* ===== verification/Ring_Fifo.thy ===== *)
theory Ring_Fifo
  imports Ring_Data
begin

text \<open>
  The operations of a heap ring buffer on elements stored inline
  (raftinc/ringbufferheap_abstract.tcc, raftinc/ringbufferheap_lessabstract.tcc and the
  first two specialisations in raftinc/ringbufferheap.tcc; the callers in raftinc/fifo.hpp
  pass their arguments through).  Each definition is one pass through the operation's
  retry loop followed, when the loop is left, by the rest of the operation; Spin is a pass
  that yields and goes round again.
\<close>

text \<open>The two inline specialisations: plain memory, and objects with a constructor.\<close>

datatype alloc_kind = Inline_nonclass | Inline_class

section \<open>Size and space\<close>

text \<open>
  The body of size() below the label TOP.  None is the jump back to TOP: the indices agree
  and the reader seems to have wrapped more often than the writer.
\<close>

definition size_top :: "'a data \<Rightarrow> u64 option" where
  "size_top d =
     (let wrap_write = Pointer_wrapIndicator (write_pt d);
          wrap_read = Pointer_wrapIndicator (read_pt d);
          wpt = Pointer_val (write_pt d);
          rpt = Pointer_val (read_pt d)
      in if wpt = rpt then
           (if wrap_read < wrap_write then Some (max_cap d)
            else if wrap_read > wrap_write then None
            else Some 0)
         else if rpt < wpt then Some (wpt - rpt)
         else if rpt > wpt then Some (max_cap d - rpt + wpt)
         else Some 0)"

definition fifo_size :: "'a fifo \<Rightarrow> (u64, 'a fifo) outcome" where
  "fifo_size s =
     (let s1 = enterBuffer dm_size s
      in if notResizing s1
         then (case size_top (buffer s1) of
                 None \<Rightarrow> Spin s1
               | Some n \<Rightarrow> Returned n (exitBuffer dm_size s1))
         else Spin (exitBuffer dm_size s1))"

definition capacity :: "'a fifo \<Rightarrow> u64" where
  "capacity s = max_cap (buffer s)"

definition space_avail :: "'a fifo \<Rightarrow> (u64, 'a fifo) outcome" where
  "space_avail s = bind_outcome (fifo_size s) (\<lambda>n s'. Returned (max_cap (buffer s) - n) s')"

definition invalidate :: "'a fifo \<Rightarrow> 'a fifo" where
  "invalidate s = upd_buffer (\<lambda>d. d\<lparr>is_valid := False\<rparr>) s"

definition is_invalid :: "'a fifo \<Rightarrow> bool" where
  "is_invalid s = (\<not> is_valid (buffer s))"

section \<open>Statistics\<close>

text \<open>
  producer_data.write_stats and consumer_data.read_stats are pointers into the buffer that
  was current when init ran: following one after that buffer was deleted is a use after
  free.
\<close>

definition wr_stats :: "(Blocked \<Rightarrow> Blocked) \<Rightarrow> 'a fifo \<Rightarrow> 'a fifo option" where
  "wr_stats f s =
     (if write_stats_ptr s = buffer_id s
      then Some (upd_buffer (\<lambda>d. d\<lparr>write_stats := f (write_stats d)\<rparr>) s)
      else None)"

definition rd_stats :: "(Blocked \<Rightarrow> Blocked) \<Rightarrow> 'a fifo \<Rightarrow> 'a fifo option" where
  "rd_stats f s =
     (if read_stats_ptr s = buffer_id s
      then Some (upd_buffer (\<lambda>d. d\<lparr>read_stats := f (read_stats d)\<rparr>) s)
      else None)"

definition set_blocked :: "Blocked \<Rightarrow> Blocked" where
  "set_blocked b = (if blocked b = 0 then b\<lparr>blocked := 1\<rparr> else b)"

definition add_count :: "u32 \<Rightarrow> Blocked \<Rightarrow> Blocked" where
  "add_count n b = b\<lparr>count := count b + n\<rparr>"

definition deref :: "('r \<Rightarrow> ('q, 's) outcome) \<Rightarrow> 'r option \<Rightarrow> ('q, 's) outcome" where
  "deref k x = (case x of None \<Rightarrow> Fault UseAfterFree | Some y \<Rightarrow> k y)"

text \<open>get_zero_read_stats, get_zero_write_stats: the value read and the state left.\<close>

definition get_zero_read_stats :: "'a fifo \<Rightarrow> Blocked \<times> 'a fifo" where
  "get_zero_read_stats s =
     (read_stats (buffer s), upd_buffer (\<lambda>d. d\<lparr>read_stats := Blocked_of_all 0\<rparr>) s)"

definition get_zero_write_stats :: "'a fifo \<Rightarrow> Blocked \<times> 'a fifo" where
  "get_zero_write_stats s =
     (write_stats (buffer s), upd_buffer (\<lambda>d. d\<lparr>write_stats := Blocked_of_all 0\<rparr>) s)"

definition get_suggested_count :: "'a fifo \<Rightarrow> u64" where
  "get_suggested_count s = force_resize (buffer s)"

section \<open>Writing\<close>

text \<open>The tail of every writer's loop: leave the buffer, note that the writer was blocked.\<close>

definition writer_wait :: "access_key \<Rightarrow> 'a fifo \<Rightarrow> ('r, 'a fifo) outcome" where
  "writer_wait key s = deref Spin (wr_stats set_blocked (exitBuffer key s))"

definition write_slot :: "nat \<Rightarrow> 'a option \<Rightarrow> 'a fifo \<Rightarrow> 'a fifo option" where
  "write_slot i v s =
     (if i < length (store (buffer s))
      then Some (upd_buffer (\<lambda>d. d\<lparr>store := (store d)[i := v]\<rparr>) s) else None)"

definition write_signal :: "nat \<Rightarrow> signal \<Rightarrow> 'a fifo \<Rightarrow> 'a fifo option" where
  "write_signal i sg s =
     (if i < length (signal (buffer s))
      then Some (upd_buffer (\<lambda>d. d\<lparr>signal := (signal d)[i := Signal_assign (signal d ! i) sg]\<rparr>) s)
      else None)"

definition inc_write :: "'a fifo \<Rightarrow> 'a fifo option" where
  "inc_write s =
     map_option (\<lambda>p. upd_buffer (\<lambda>d. d\<lparr>write_pt := p\<rparr>) s) (Pointer_inc (write_pt (buffer s)))"

definition incBy_write :: "u64 \<Rightarrow> 'a fifo \<Rightarrow> 'a fifo option" where
  "incBy_write n s =
     map_option (\<lambda>p. upd_buffer (\<lambda>d. d\<lparr>write_pt := p\<rparr>) s) (Pointer_incBy (write_pt (buffer s)) n)"

definition inc_read :: "'a fifo \<Rightarrow> 'a fifo option" where
  "inc_read s =
     map_option (\<lambda>p. upd_buffer (\<lambda>d. d\<lparr>read_pt := p\<rparr>) s) (Pointer_inc (read_pt (buffer s)))"

definition write_index :: "'a fifo \<Rightarrow> nat" where
  "write_index s = unat (Pointer_val (write_pt (buffer s)))"

definition read_index :: "'a fifo \<Rightarrow> nat" where
  "read_index s = unat (Pointer_val (read_pt (buffer s)))"

text \<open>
  local_push behind the loop.  The item pointer is None for a null pointer: then the slot
  keeps what it held and only the signal is written.  A class object is copied into the
  slot in place, a plain one assigned: the slot holds its value either way.
\<close>

definition push_commit :: "'a option \<Rightarrow> signal \<Rightarrow> 'a fifo \<Rightarrow> (unit, 'a fifo) outcome" where
  "push_commit ptr sg s =
     (let i = write_index s;
          item = (case ptr of
                    None \<Rightarrow> Returned () s
                  | Some v \<Rightarrow>
                      (case write_slot i (Some v) s of
                         None \<Rightarrow> Fault OutOfRange
                       | Some s1 \<Rightarrow> deref (Returned ()) (wr_stats (add_count 1) s1)))
      in bind_outcome item (\<lambda>_ s2.
           case write_signal i sg s2 of
             None \<Rightarrow> Fault OutOfRange
           | Some s3 \<Rightarrow>
               (case inc_write s3 of
                  None \<Rightarrow> Fault DivisionByZero
                | Some s4 \<Rightarrow> Returned () (exitBuffer dm_push s4))))"

definition local_push :: "'a option \<Rightarrow> signal \<Rightarrow> 'a fifo \<Rightarrow> (unit, 'a fifo) outcome" where
  "local_push ptr sg s =
     (let s1 = enterBuffer dm_push s
      in if notResizing s1
         then bind_outcome (space_avail s1) (\<lambda>n s2.
                if n > 0 then push_commit ptr sg s2 else writer_wait dm_push s2)
         else writer_wait dm_push s1)"

text \<open>inline_signal_send: a push of a signal without an item.\<close>

definition inline_signal_send :: "signal \<Rightarrow> 'a fifo \<Rightarrow> (unit, 'a fifo) outcome" where
  "inline_signal_send sg s = local_push None sg s"

text \<open>
  local_allocate returns a reference to the slot at the write pointer; the buffer stays
  entered until send or deallocate.
\<close>

definition local_allocate :: "'a fifo \<Rightarrow> (nat, 'a fifo) outcome" where
  "local_allocate s =
     (let s1 = enterBuffer dm_allocate s
      in if notResizing s1
         then bind_outcome (space_avail s1) (\<lambda>n s2.
                if n > 0 then
                  (if write_index s2 < length (store (buffer s2))
                   then Returned (write_index s2) (s2\<lparr>allocate_called := True\<rparr>)
                   else Fault OutOfRange)
                else writer_wait dm_allocate s2)
         else writer_wait dm_allocate s1)"

text \<open>
  FIFO::allocate for a class constructs the object in the slot before it returns the
  reference; for plain memory the caller writes through the reference.  Both are a write
  of the slot.
\<close>

definition fifo_allocate :: "'a \<Rightarrow> 'a fifo \<Rightarrow> (nat, 'a fifo) outcome" where
  "fifo_allocate v s =
     bind_outcome (local_allocate s) (\<lambda>i s1.
       case write_slot i (Some v) s1 of None \<Rightarrow> Fault OutOfRange | Some s2 \<Rightarrow> Returned i s2)"

text \<open>
  local_allocate_n: the references to n consecutive slots, whose signals are cleared.
  Only the plain specialisation asks for a larger buffer when n exceeds the capacity.
\<close>

fun allocate_slots :: "nat \<Rightarrow> u64 \<Rightarrow> 'a fifo \<Rightarrow> (nat list \<times> 'a fifo) option" where
  "allocate_slots 0 wi s = Some ([], s)"
| "allocate_slots (Suc n) wi s =
     (if unat wi < length (store (buffer s)) then
        (case write_signal (unat wi) sig_none s of
           None \<Rightarrow> None
         | Some s1 \<Rightarrow>
             (case allocate_slots n ((wi + 1) mod max_cap (buffer s1)) s1 of
                None \<Rightarrow> None
              | Some (is, s2) \<Rightarrow> Some (unat wi # is, s2)))
      else None)"

definition allocate_n_wait :: "alloc_kind \<Rightarrow> u64 \<Rightarrow> 'a fifo \<Rightarrow> ('r, 'a fifo) outcome" where
  "allocate_n_wait kind n s =
     (let s1 = (if kind = Inline_nonclass \<and> capacity s < n
                then upd_buffer (\<lambda>d. d\<lparr>force_resize := n\<rparr>) s else s)
      in writer_wait dm_allocate_range s1)"

definition local_allocate_n :: "alloc_kind \<Rightarrow> u64 \<Rightarrow> 'a fifo \<Rightarrow> (nat list, 'a fifo) outcome" where
  "local_allocate_n kind n s =
     (let s1 = enterBuffer dm_allocate_range s
      in if notResizing s1
         then bind_outcome (space_avail s1) (\<lambda>k s2.
                if k \<ge> n then
                  (case allocate_slots (unat n) (Pointer_val (write_pt (buffer s2))) s2 of
                     None \<Rightarrow> Fault OutOfRange
                   | Some (is, s3) \<Rightarrow>
                       Returned is (s3\<lparr>n_allocated := ucast n, allocate_called := True\<rparr>))
                else allocate_n_wait kind n s2)
         else allocate_n_wait kind n s1)"

definition send :: "signal \<Rightarrow> 'a fifo \<Rightarrow> (unit, 'a fifo) outcome" where
  "send sg s =
     (if \<not> allocate_called s then Returned () s
      else case write_signal (write_index s) sg s of
             None \<Rightarrow> Fault OutOfRange
           | Some s1 \<Rightarrow>
               deref (\<lambda>s2.
                 let s3 = s2\<lparr>allocate_called := False\<rparr>
                 in case inc_write s3 of
                      None \<Rightarrow> Fault DivisionByZero
                    | Some s4 \<Rightarrow> Returned () (exitBuffer dm_allocate s4))
               (wr_stats (add_count 1) s1))"

definition send_range :: "signal \<Rightarrow> 'a fifo \<Rightarrow> (unit, 'a fifo) outcome" where
  "send_range sg s =
     (if \<not> allocate_called s then Returned () s
      else case write_signal (write_index s) sg s of
             None \<Rightarrow> Fault OutOfRange
           | Some s1 \<Rightarrow>
               (case incBy_write (ucast (n_allocated s1)) s1 of
                  None \<Rightarrow> Fault DivisionByZero
                | Some s2 \<Rightarrow>
                    deref (\<lambda>s3. Returned ()
                             (exitBuffer dm_allocate_range
                                (s3\<lparr>allocate_called := False, n_allocated := 0\<rparr>)))
                    (wr_stats (add_count (n_allocated s2)) s2)))"

text \<open>
  deallocate gives an allocated slot back unused.  The class specialisation runs the
  destructor on the slot at the read pointer.
\<close>

definition deallocate :: "alloc_kind \<Rightarrow> 'a fifo \<Rightarrow> (unit, 'a fifo) outcome" where
  "deallocate kind s =
     (case kind of
        Inline_nonclass \<Rightarrow>
          Returned () (exitBuffer dm_allocate (s\<lparr>allocate_called := False\<rparr>))
      | Inline_class \<Rightarrow>
          (let i = read_index s
           in if i < length (store (buffer s)) then
                (case store (buffer s) ! i of
                   None \<Rightarrow> Fault DeadObject
                 | Some v \<Rightarrow>
                     Returned () (exitBuffer dm_allocate
                       ((upd_buffer (\<lambda>d. d\<lparr>store := (store d)[i := None]\<rparr>) s)
                          \<lparr>allocate_called := False\<rparr>)))
              else Fault OutOfRange))"

section \<open>Reading\<close>

text \<open>
  The read of a slot for an element of the given kind.  Plain memory may be read before it
  was written (the value is then indeterminate, None); an object must be alive.
\<close>

definition read_slot :: "alloc_kind \<Rightarrow> nat \<Rightarrow> 'a fifo \<Rightarrow> fault + 'a option" where
  "read_slot kind i s =
     (if i < length (store (buffer s)) then
        (case store (buffer s) ! i of
           None \<Rightarrow> (if kind = Inline_class then Inl DeadObject else Inr None)
         | Some v \<Rightarrow> Inr (Some v))
      else Inl OutOfRange)"

definition read_signal :: "nat \<Rightarrow> 'a fifo \<Rightarrow> signal option" where
  "read_signal i s = (if i < length (signal (buffer s)) then Some (Signal_conv (signal (buffer s) ! i)) else None)"

text \<open>~T() on a slot: nothing happens to plain memory.\<close>

definition destroy_slot :: "alloc_kind \<Rightarrow> nat \<Rightarrow> 'a fifo \<Rightarrow> 'a fifo" where
  "destroy_slot kind i s =
     (if kind = Inline_class then upd_buffer (\<lambda>d. d\<lparr>store := (store d)[i := None]\<rparr>) s else s)"

text \<open>
  local_pop behind the loop.  want_sig: the signal pointer is not null.  has_ptr: the item
  pointer is not null.
\<close>

definition pop_commit ::
  "alloc_kind \<Rightarrow> bool \<Rightarrow> bool \<Rightarrow> 'a fifo \<Rightarrow> ('a option \<times> signal option, 'a fifo) outcome" where
  "pop_commit kind has_ptr want_sig s =
     (let i = read_index s
      in if want_sig \<and> read_signal i s = None then Fault OutOfRange
         else let sg = (if want_sig then read_signal i s else None)
              in if \<not> has_ptr then Fault AssertionFailed
                 else case read_slot kind i s of
                        Inl f \<Rightarrow> Fault f
                      | Inr v \<Rightarrow>
                          deref (\<lambda>s2. case inc_read s2 of
                                        None \<Rightarrow> Fault DivisionByZero
                                      | Some s3 \<Rightarrow> Returned (v, sg) (exitBuffer dm_pop s3))
                          (rd_stats (add_count 1) (destroy_slot kind i s)))"

text \<open>
  The loop of local_pop.  The pass that finds the queue empty but still valid yields
  without leaving the buffer; so does the throw.
\<close>

definition local_pop ::
  "alloc_kind \<Rightarrow> bool \<Rightarrow> bool \<Rightarrow> 'a fifo \<Rightarrow> ('a option \<times> signal option, 'a fifo) outcome" where
  "local_pop kind has_ptr want_sig s =
     (let s1 = enterBuffer dm_pop s
      in if notResizing s1
         then bind_outcome (fifo_size s1) (\<lambda>n s2.
                if n > 0 then pop_commit kind has_ptr want_sig s2
                else if is_invalid s2
                then bind_outcome (fifo_size s2) (\<lambda>m s3.
                       if m = 0 then Raised ClosedPortAccess s3 else Spin s3)
                else Spin s2)
         else deref Spin (rd_stats set_blocked (exitBuffer dm_pop s1)))"

text \<open>
  local_peek: a reference to the slot at the read pointer, and its signal when asked for.
\<close>

definition local_peek ::
  "bool \<Rightarrow> 'a fifo \<Rightarrow> (nat \<times> signal option, 'a fifo) outcome" where
  "local_peek want_sig s =
     (let s1 = enterBuffer dm_peek s
      in if notResizing s1
         then bind_outcome (fifo_size s1) (\<lambda>n s2.
                if n > 0 then
                  (let i = read_index s2
                   in if want_sig \<and> read_signal i s2 = None then Fault OutOfRange
                      else if i < length (store (buffer s2))
                      then Returned (i, if want_sig then read_signal i s2 else None) s2
                      else Fault OutOfRange)
                else if is_invalid s2
                then bind_outcome (fifo_size s2) (\<lambda>m s3.
                       if m = 0 then Raised ClosedPortAccess s3 else Spin (exitBuffer dm_peek s3))
                else Spin (exitBuffer dm_peek s2))
         else Spin (exitBuffer dm_peek s1))"

text \<open>
  local_peek_range: the index the range starts at.  The store pointer it also hands out is the
  start of the store, the signal pointer the address of the signal at that index.
\<close>

definition local_peek_range :: "u64 \<Rightarrow> 'a fifo \<Rightarrow> (nat, 'a fifo) outcome" where
  "local_peek_range n s =
     (let s1 = enterBuffer dm_peek s
      in if notResizing s1
         then bind_outcome (fifo_size s1) (\<lambda>k s2.
                if k \<ge> n then Returned (read_index s2) s2
                else if is_invalid s2
                then bind_outcome (fifo_size s2) (\<lambda>m s3.
                       if m = 0 then Raised ClosedPortAccess s3
                       else bind_outcome (fifo_size s3) (\<lambda>j s4.
                         if j < n then Raised NoMoreData s4 else Spin (exitBuffer dm_peek s4)))
                else Spin (exitBuffer dm_peek s2))
         else Spin (exitBuffer dm_peek s1))"

definition unpeek :: "'a fifo \<Rightarrow> 'a fifo" where
  "unpeek s = exitBuffer dm_peek s"

text \<open>
  local_recycle, the pass for the next element: Returned True when an element was
  dropped, Returned False when the closed queue ran out.
\<close>

definition recycle_one :: "alloc_kind \<Rightarrow> 'a fifo \<Rightarrow> (bool, 'a fifo) outcome" where
  "recycle_one kind s =
     (let s1 = enterBuffer dm_recycle s
      in if notResizing s1
         then bind_outcome (fifo_size s1) (\<lambda>n s2.
                if n > 0 then
                  (let i = read_index s2
                   in if kind = Inline_class \<and> \<not> i < length (store (buffer s2)) then Fault OutOfRange
                      else if kind = Inline_class \<and> store (buffer s2) ! i = None then Fault DeadObject
                      else case inc_read (destroy_slot kind i s2) of
                             None \<Rightarrow> Fault DivisionByZero
                           | Some s3 \<Rightarrow> Returned True (exitBuffer dm_recycle s3))
                else if is_invalid s2
                then bind_outcome (fifo_size s2) (\<lambda>m s3.
                       if m = 0 then Returned False (exitBuffer dm_recycle s3)
                       else Spin (exitBuffer dm_recycle s3))
                else Spin (exitBuffer dm_recycle s2))
         else Spin (exitBuffer dm_recycle s1))"

text \<open>
  The outer loop, over the number of elements still to drop; the state of a Spin is that
  number with the queue's state.
\<close>

fun local_recycle :: "alloc_kind \<Rightarrow> nat \<Rightarrow> 'a fifo \<Rightarrow> (unit, nat \<times> 'a fifo) outcome" where
  "local_recycle kind 0 s = Returned () (0, s)"
| "local_recycle kind (Suc n) s =
     (case recycle_one kind s of
        Returned True s' \<Rightarrow> local_recycle kind n s'
      | Returned False s' \<Rightarrow> Returned () (Suc n, s')
      | Spin s' \<Rightarrow> Spin (Suc n, s')
      | Raised e s' \<Rightarrow> Raised e (Suc n, s')
      | Fault f \<Rightarrow> Fault f)"

section \<open>Ranges of elements\<close>

text \<open>
  local_insert_helper: every element is pushed, the last one with the signal.  A Spin
  carries the elements still to push.
\<close>

fun local_insert :: "'a list \<Rightarrow> signal \<Rightarrow> 'a fifo \<Rightarrow> (unit, 'a list \<times> 'a fifo) outcome" where
  "local_insert [] sg s = Returned () ([], s)"
| "local_insert (x # xs) sg s =
     (case local_push (Some x) (if xs = [] then sg else sig_none) s of
        Returned _ s' \<Rightarrow> local_insert xs sg s'
      | Spin s' \<Rightarrow> Spin (x # xs, s')
      | Raised e s' \<Rightarrow> Raised e (x # xs, s')
      | Fault f \<Rightarrow> Fault f)"

text \<open>
  local_pop_range: n pops into a vector of n pairs; an exception or a wait keeps the pairs
  read so far (the state of the outcome is that list with the queue's state).
\<close>

fun local_pop_range ::
  "alloc_kind \<Rightarrow> nat \<Rightarrow> ('a option \<times> signal) list \<Rightarrow> 'a fifo
     \<Rightarrow> (('a option \<times> signal) list, ('a option \<times> signal) list \<times> 'a fifo) outcome" where
  "local_pop_range kind 0 acc s = Returned (rev acc) (acc, s)"
| "local_pop_range kind (Suc n) acc s =
     (case local_pop kind True True s of
        Returned (v, Some sg) s' \<Rightarrow> local_pop_range kind n ((v, sg) # acc) s'
      | Returned (v, None) s' \<Rightarrow> Fault NullDereference
      | Spin s' \<Rightarrow> Spin (acc, s')
      | Raised e s' \<Rightarrow> Raised e (acc, s')
      | Fault f \<Rightarrow> Fault f)"

section \<open>The scheduler's view\<close>

definition signal_peek :: "'a fifo \<Rightarrow> (signal, 'a fifo) outcome" where
  "signal_peek s =
     (case read_signal (read_index s) s of
        None \<Rightarrow> Fault OutOfRange
      | Some sg \<Rightarrow> Returned sg s)"

text \<open>signal_pop calls local_pop with two null pointers.\<close>

definition signal_pop :: "alloc_kind \<Rightarrow> 'a fifo \<Rightarrow> ('a option \<times> signal option, 'a fifo) outcome" where
  "signal_pop kind s = local_pop kind False False s"

end
