(* ===== verification/Ring_Queue.thy ===== *)
theory Ring_Queue
  imports Ring_Fifo
begin

text \<open>
  The ring buffer is a bounded FIFO queue.  fifo_ok is the invariant of a queue whose
  statistics pointers are valid; queue is the list of the elements it holds, oldest first.
  The first part gives the result of every operation on every branch in terms of queue;
  the second states the contract of a bounded queue as a locale, proves in it that any
  sequence of operations keeps the order and loses nothing, and interprets it on the
  model's push and pop.
\<close>

section \<open>Size\<close>

lemma size_top_contents:
  assumes "buf_ok d"
  obtains n where "size_top d = Some n" "unat n = length (contents d)"
proof -
  define c where "c = unat (max_cap d)"
  define aw ar ww wr where "aw = unat (pt_a (write_pt d))" and "ar = unat (pt_a (read_pt d))"
    and "ww = unat (pt_wrap_a (write_pt d))" and "wr = unat (pt_wrap_a (read_pt d))"
  have caps: "pt_max_cap (read_pt d) = max_cap d" "pt_max_cap (write_pt d) = max_cap d"
    using assms by (simp_all add: buf_ok_def)
  have W: "pointer_pos (write_pt d) = ww * c + aw" and R: "pointer_pos (read_pt d) = wr * c + ar"
    by (simp_all add: pointer_pos_def caps c_def aw_def ar_def ww_def wr_def)
  have lt: "ar < c" "aw < c" using buf_ok_index [OF assms] by (simp_all add: c_def ar_def aw_def)
  have le: "wr * c + ar \<le> ww * c + aw" "ww * c + aw \<le> wr * c + ar + c"
    using assms by (simp_all add: buf_ok_def W R c_def)
  have wle: "wr \<le> ww"
  proof (rule ccontr)
    assume "\<not> wr \<le> ww"
    then have "Suc ww * c \<le> wr * c" by (intro mult_le_mono1) simp
    with le(1) lt show False by simp
  qed
  have wle1: "ww \<le> Suc wr"
  proof (rule ccontr)
    assume "\<not> ww \<le> Suc wr"
    then have "Suc (Suc wr) * c \<le> ww * c" by (intro mult_le_mono1) simp
    with le(2) lt show False by simp
  qed
  have cases: "ww = wr \<or> ww = Suc wr" using wle wle1 by linarith
  have len: "length (contents d) = ww * c + aw - (wr * c + ar)" by (simp add: W R)
  consider (eq) "aw = ar" | (less) "ar < aw" | (greater) "aw < ar" by linarith
  then show thesis
  proof cases
    case eq
    then have "pt_a (write_pt d) = pt_a (read_pt d)"
      by (simp add: aw_def ar_def word_unat_eq_iff)
    moreover have "pt_wrap_a (read_pt d) < pt_wrap_a (write_pt d) \<longleftrightarrow> wr < ww"
      "pt_wrap_a (write_pt d) < pt_wrap_a (read_pt d) \<longleftrightarrow> ww < wr"
      by (simp_all add: word_less_nat_alt ww_def wr_def)
    ultimately have "size_top d = Some (if ww = Suc wr then max_cap d else 0)"
      using cases wle by (auto simp: size_top_def Let_def Pointer_val_def Pointer_wrapIndicator_def)
    moreover have "unat (if ww = Suc wr then max_cap d else 0) = length (contents d)"
      using cases eq len by (auto simp: c_def)
    ultimately show thesis using that by blast
  next
    case less
    then have ww: "ww = wr" using cases le(2) by auto
    have "pt_a (read_pt d) < pt_a (write_pt d)"
      using less by (simp add: aw_def ar_def word_less_nat_alt)
    then have "size_top d = Some (pt_a (write_pt d) - pt_a (read_pt d))"
      by (auto simp: size_top_def Let_def Pointer_val_def)
    moreover have "unat (pt_a (write_pt d) - pt_a (read_pt d)) = length (contents d)"
      using less ww len by (simp add: unat_sub word_le_nat_alt aw_def ar_def)
    ultimately show thesis using that by blast
  next
    case greater
    then have ww: "ww = Suc wr" using cases le(1) by auto
    have "pt_a (write_pt d) < pt_a (read_pt d)"
      using greater by (simp add: aw_def ar_def word_less_nat_alt)
    then have top: "size_top d = Some (max_cap d - pt_a (read_pt d) + pt_a (write_pt d))"
      by (auto simp: size_top_def Let_def Pointer_val_def)
    have sub: "unat (max_cap d - pt_a (read_pt d)) = c - ar"
      using lt(1) by (simp add: unat_sub word_le_nat_alt c_def ar_def)
    have "c < 2 ^ 64" unfolding c_def using unsigned_less [of "max_cap d"] by simp
    then have "unat (max_cap d - pt_a (read_pt d) + pt_a (write_pt d)) = c - ar + aw"
      using sub greater lt(1) by (simp add: unat_word_ariths aw_def)
    also have "\<dots> = length (contents d)"
      using ww len greater lt(1) by simp
    finally show thesis using that top by blast
  qed
qed

section \<open>The invariant and the queue\<close>

definition fifo_ok :: "'a fifo \<Rightarrow> bool" where
  "fifo_ok s \<longleftrightarrow>
     buf_ok (buffer s) \<and> signals_ok (buffer s) \<and>
     write_stats_ptr s = buffer_id s \<and> read_stats_ptr s = buffer_id s"

definition queue :: "'a fifo \<Rightarrow> ('a option \<times> signal) list" where
  "queue s = contents (buffer s)"

definition cap :: "'a fifo \<Rightarrow> nat" where
  "cap s = unat (capacity s)"

text \<open>The number of elements that can still be written before a wrap counter overflows.\<close>

definition room :: "'a fifo \<Rightarrow> nat" where
  "room s = 2 ^ 64 * cap s - cap s - pointer_pos (write_pt (buffer s))"

lemma upd_buffer_sel [simp]:
  "buffer (upd_buffer f s) = f (buffer s)"
  "buffer_id (upd_buffer f s) = buffer_id s"
  "resizing (upd_buffer f s) = resizing s"
  "resizeable (upd_buffer f s) = resizeable s"
  "checking_size (upd_buffer f s) = checking_size s"
  "allocate_called (upd_buffer f s) = allocate_called s"
  "n_allocated (upd_buffer f s) = n_allocated s"
  "write_stats_ptr (upd_buffer f s) = write_stats_ptr s"
  "read_stats_ptr (upd_buffer f s) = read_stats_ptr s"
  by (simp_all add: upd_buffer_def)

text \<open>Entering and leaving the buffer changes only the access flags.\<close>

definition same_queue :: "'a fifo \<Rightarrow> 'a fifo \<Rightarrow> bool" where
  "same_queue s t \<longleftrightarrow>
     max_cap (buffer t) = max_cap (buffer s) \<and> read_pt (buffer t) = read_pt (buffer s) \<and>
     write_pt (buffer t) = write_pt (buffer s) \<and> store (buffer t) = store (buffer s) \<and>
     signal (buffer t) = signal (buffer s) \<and> is_valid (buffer t) = is_valid (buffer s) \<and>
     external_alloc (buffer t) = external_alloc (buffer s) \<and>
     length (flag (thread_access_0 (buffer t))) = length (flag (thread_access_0 (buffer s))) \<and>
     length (flag (thread_access_1 (buffer t))) = length (flag (thread_access_1 (buffer s))) \<and>
     buffer_id t = buffer_id s \<and> resizing t = resizing s \<and>
     write_stats_ptr t = write_stats_ptr s \<and> read_stats_ptr t = read_stats_ptr s"

lemma same_queue_refl [simp]: "same_queue s s"
  by (simp add: same_queue_def)

lemma same_queue_trans: "same_queue s t \<Longrightarrow> same_queue t u \<Longrightarrow> same_queue s u"
  by (simp add: same_queue_def)

lemma set_helper_same [simp]: "same_queue s (set_helper k v s)"
  by (cases k) (simp_all add: same_queue_def set_helper_def)

lemma enterBuffer_same [simp]: "same_queue s (enterBuffer k s)"
  by (simp add: enterBuffer_def)

lemma exitBuffer_same [simp]: "same_queue s (exitBuffer k s)"
  by (simp add: exitBuffer_def)

lemma same_queue_contents:
  "same_queue s t \<Longrightarrow> contents (buffer t) = contents (buffer s)"
  by (simp add: same_queue_def contents_def data_slot_def)

lemma same_queue_buf_ok: "same_queue s t \<Longrightarrow> buf_ok (buffer t) = buf_ok (buffer s)"
  by (simp add: same_queue_def buf_ok_def)

lemma same_queue_ok: "same_queue s t \<Longrightarrow> fifo_ok t = fifo_ok s"
  by (simp add: fifo_ok_def same_queue_buf_ok signals_ok_def) (simp add: same_queue_def)

lemma same_queue_queue: "same_queue s t \<Longrightarrow> queue t = queue s"
  by (simp add: queue_def same_queue_contents)

lemma same_queue_cap: "same_queue s t \<Longrightarrow> cap t = cap s"
  by (simp add: same_queue_def cap_def capacity_def)

lemma same_queue_room: "same_queue s t \<Longrightarrow> room t = room s"
  by (simp add: room_def same_queue_cap) (simp add: same_queue_def)

lemma same_queue_resizing: "same_queue s t \<Longrightarrow> resizing t = resizing s"
  by (simp add: same_queue_def)

lemma same_queue_invalid: "same_queue s t \<Longrightarrow> is_invalid t = is_invalid s"
  by (simp add: same_queue_def is_invalid_def)

lemmas same_queue_simps =
  same_queue_ok same_queue_queue same_queue_cap same_queue_room same_queue_resizing
  same_queue_invalid

lemma dm_size_exit_enter [simp]: "exitBuffer dm_size (enterBuffer dm_size s) = s"
  by (simp add: exitBuffer_def enterBuffer_def set_helper_def)

lemma fifo_ok_buf: "fifo_ok s \<Longrightarrow> buf_ok (buffer s)"
  by (simp add: fifo_ok_def)

lemma fifo_ok_queue_le: "fifo_ok s \<Longrightarrow> length (queue s) \<le> cap s"
  using buf_ok_contents_le [OF fifo_ok_buf] by (simp add: queue_def cap_def capacity_def)

lemma fifo_ok_cap_pos: "fifo_ok s \<Longrightarrow> 0 < cap s"
  using buf_ok_cap_pos [OF fifo_ok_buf] by (simp add: cap_def capacity_def)

text \<open>size() returns the number of elements and leaves the state alone.\<close>

lemma fifo_size_buf:
  assumes "buf_ok (buffer s)" and "\<not> resizing s"
  obtains n where "fifo_size s = Returned n s" "unat n = length (queue s)"
proof -
  obtain n where n: "size_top (buffer s) = Some n" "unat n = length (contents (buffer s))"
    using size_top_contents assms(1) by blast
  have "buffer (enterBuffer dm_size s) = buffer s"
    by (simp add: enterBuffer_def set_helper_def)
  with n assms(2) have "fifo_size s = Returned n s"
    by (simp add: fifo_size_def Let_def notResizing_def same_queue_resizing [OF enterBuffer_same])
  with n that show thesis by (simp add: queue_def)
qed

lemma space_avail_buf:
  assumes "buf_ok (buffer s)" and "\<not> resizing s"
  obtains n where "space_avail s = Returned n s" "unat n = cap s - length (queue s)"
proof -
  obtain k where k: "fifo_size s = Returned k s" "unat k = length (queue s)"
    using fifo_size_buf assms by blast
  have "length (queue s) \<le> unat (max_cap (buffer s))"
    using buf_ok_contents_le [OF assms(1)] by (simp add: queue_def)
  then have "unat (max_cap (buffer s) - k) = cap s - length (queue s)"
    using k(2) by (simp add: unat_sub word_le_nat_alt cap_def capacity_def)
  with k that show thesis by (simp add: space_avail_def)
qed

lemma word_pos_iff: "(0 :: u64) < n \<longleftrightarrow> 0 < unat n"
  by (simp add: word_less_nat_alt)

section \<open>How the contents change\<close>

lemma contents_snoc:
  assumes ok: "buf_ok d" and sgs: "signals_ok d"
    and free: "length (contents d) < unat (max_cap d)"
    and d': "max_cap d' = max_cap d" "read_pt d' = read_pt d"
      "pointer_pos (write_pt d') = pointer_pos (write_pt d) + 1"
      "store d' = (store d)[unat (pt_a (write_pt d)) := v]"
      "signal d' = (signal d)[unat (pt_a (write_pt d)) := x]"
  shows "contents d' = contents d @ [(v, sig x)]"
proof -
  let ?c = "unat (max_cap d)" and ?R = "pointer_pos (read_pt d)" and ?W = "pointer_pos (write_pt d)"
  have le: "?R \<le> ?W" "?W < ?R + ?c" using ok free by (auto simp: buf_ok_def)
  have ix: "unat (pt_a (write_pt d)) = ?W mod ?c" "?W mod ?c < ?c"
    using buf_ok_index [OF ok] by simp_all
  have len: "length (store d) = ?c" "length (signal d) = ?c"
    using ok sgs by (simp_all add: buf_ok_def signals_ok_def)
  have other: "data_slot d' i = data_slot d i" if "i \<in> {?R..<?W}" for i
  proof -
    have "i mod ?c \<noteq> ?W mod ?c" using mod_inj_window [of i ?c ?W] that le by auto
    then show ?thesis by (simp add: data_slot_def d' ix)
  qed
  have new: "data_slot d' ?W = (v, sig x)"
    using ix(2) len by (simp add: data_slot_def d' ix)
  have "[?R..<?W + 1] = [?R..<?W] @ [?W]" using le(1) by simp
  with other new show ?thesis by (simp add: contents_def d')
qed

lemma contents_tl:
  assumes ok: "buf_ok d" and ne: "contents d \<noteq> []"
    and d': "max_cap d' = max_cap d" "write_pt d' = write_pt d"
      "pointer_pos (read_pt d') = pointer_pos (read_pt d) + 1"
      "signal d' = signal d"
      "\<And>i. i \<noteq> unat (pt_a (read_pt d)) \<Longrightarrow> store d' ! i = store d ! i"
  shows "contents d = data_slot d (pointer_pos (read_pt d)) # contents d'"
proof -
  let ?c = "unat (max_cap d)" and ?R = "pointer_pos (read_pt d)" and ?W = "pointer_pos (write_pt d)"
  have le: "?R < ?W" "?W \<le> ?R + ?c" using ok ne by (auto simp: buf_ok_def contents_def)
  have ix: "unat (pt_a (read_pt d)) = ?R mod ?c" using buf_ok_index [OF ok] by simp
  have other: "data_slot d' i = data_slot d i" if "i \<in> {?R + 1..<?W}" for i
  proof -
    have "i mod ?c \<noteq> ?R mod ?c" using mod_inj_window [of ?R ?c i] that le by auto
    then show ?thesis by (simp add: data_slot_def d' ix)
  qed
  have "[?R..<?W] = ?R # [?R + 1..<?W]" using le(1) by (simp add: upt_conv_Cons)
  with other show ?thesis by (simp add: contents_def d')
qed

lemma write_room:
  assumes "fifo_ok s" and "0 < room s"
  shows "wrap_room (write_pt (buffer s))"
  using assms
  by (intro wrap_room_pos) (auto simp: fifo_ok_def buf_ok_def room_def cap_def capacity_def)

lemma read_room:
  assumes "fifo_ok s" and "queue s \<noteq> []" and "wrap_room (write_pt (buffer s))"
  shows "wrap_room (read_pt (buffer s))"
proof -
  let ?d = "buffer s"
  have ok: "buf_ok ?d" using assms(1) by (rule fifo_ok_buf)
  have "pointer_pos (read_pt ?d) < pointer_pos (write_pt ?d)"
    using assms(2) by (auto simp: queue_def contents_def)
  then have "pointer_pos (read_pt ?d) div unat (max_cap ?d) \<le> pointer_pos (write_pt ?d) div unat (max_cap ?d)"
    by (intro div_le_mono) simp
  then have "unat (pt_wrap_a (read_pt ?d)) \<le> unat (pt_wrap_a (write_pt ?d))"
    using ok pointer_pos_wraps [of "read_pt ?d"] pointer_pos_wraps [of "write_pt ?d"]
    by (simp add: buf_ok_def)
  with assms(3) show ?thesis by (simp add: wrap_room_def)
qed

section \<open>Steps that add or drop an element\<close>

text \<open>
  What one completed write and one completed read change; every operation that writes or
  reads an element is shown to do exactly this.
\<close>

definition same_frame :: "'a fifo \<Rightarrow> 'a fifo \<Rightarrow> bool" where
  "same_frame s t \<longleftrightarrow>
     max_cap (buffer t) = max_cap (buffer s) \<and> is_valid (buffer t) = is_valid (buffer s) \<and>
     external_alloc (buffer t) = external_alloc (buffer s) \<and>
     length (flag (thread_access_0 (buffer t))) = length (flag (thread_access_0 (buffer s))) \<and>
     length (flag (thread_access_1 (buffer t))) = length (flag (thread_access_1 (buffer s))) \<and>
     buffer_id t = buffer_id s \<and> resizing t = resizing s \<and>
     write_stats_ptr t = write_stats_ptr s \<and> read_stats_ptr t = read_stats_ptr s"

definition wrote :: "'a fifo \<Rightarrow> 'a option \<Rightarrow> signal \<Rightarrow> 'a fifo \<Rightarrow> bool" where
  "wrote s v sg t \<longleftrightarrow>
     same_frame s t \<and> read_pt (buffer t) = read_pt (buffer s) \<and>
     Pointer_inc (write_pt (buffer s)) = Some (write_pt (buffer t)) \<and>
     store (buffer t) = (store (buffer s))[write_index s := v] \<and>
     signal (buffer t) =
       (signal (buffer s))[write_index s := Signal_assign (signal (buffer s) ! write_index s) sg]"

definition dropped :: "'a fifo \<Rightarrow> 'a fifo \<Rightarrow> bool" where
  "dropped s t \<longleftrightarrow>
     same_frame s t \<and> write_pt (buffer t) = write_pt (buffer s) \<and>
     Pointer_inc (read_pt (buffer s)) = Some (read_pt (buffer t)) \<and>
     signal (buffer t) = signal (buffer s) \<and>
     length (store (buffer t)) = length (store (buffer s)) \<and>
     (\<forall>i. i \<noteq> read_index s \<longrightarrow> store (buffer t) ! i = store (buffer s) ! i)"

lemma same_queue_frame: "same_queue s t \<Longrightarrow> same_frame s t"
  by (simp add: same_queue_def same_frame_def)

lemma wrote_pre: "same_queue s s1 \<Longrightarrow> wrote s1 v sg t \<Longrightarrow> wrote s v sg t"
  by (simp add: wrote_def same_queue_def same_frame_def write_index_def)

lemma wrote_post: "wrote s v sg t \<Longrightarrow> same_queue t u \<Longrightarrow> wrote s v sg u"
  by (simp add: wrote_def same_queue_def same_frame_def)

lemma dropped_pre: "same_queue s s1 \<Longrightarrow> dropped s1 t \<Longrightarrow> dropped s t"
  by (simp add: dropped_def same_queue_def same_frame_def read_index_def)

lemma dropped_post: "dropped s t \<Longrightarrow> same_queue t u \<Longrightarrow> dropped s u"
  by (simp add: dropped_def same_queue_def same_frame_def)

lemma same_frame_simps:
  assumes "same_frame s t"
  shows "cap t = cap s" "is_invalid t = is_invalid s" "resizing t = resizing s"
  using assms by (simp_all add: same_frame_def cap_def capacity_def is_invalid_def)

lemma wrote_result:
  assumes ok: "fifo_ok s" and free: "length (queue s) < cap s" and room: "0 < room s"
    and w: "wrote s v sg t"
  shows "fifo_ok t" "queue t = queue s @ [(v, sg)]" "room t = room s - 1"
proof -
  note wd = w [unfolded wrote_def same_frame_def]
  have buf: "buf_ok (buffer s)" "signals_ok (buffer s)" using ok by (simp_all add: fifo_ok_def)
  have inc: "pointer_pos (write_pt (buffer t)) = pointer_pos (write_pt (buffer s)) + 1"
    "pointer_ok (write_pt (buffer t))" "pt_max_cap (write_pt (buffer t)) = pt_max_cap (write_pt (buffer s))"
    using Pointer_inc_pos [of "write_pt (buffer s)"] write_room [OF ok room] buf(1) wd
    by (simp_all add: buf_ok_def)
  have free': "pointer_pos (write_pt (buffer s)) < pointer_pos (read_pt (buffer s)) + unat (max_cap (buffer s))"
    using free buf(1) by (auto simp: queue_def cap_def capacity_def buf_ok_def)
  show "fifo_ok t"
    using ok wd inc free' unfolding fifo_ok_def buf_ok_def signals_ok_def by simp
  have "contents (buffer t) = contents (buffer s) @
      [(v, sig (Signal_assign (signal (buffer s) ! write_index s) sg))]"
    using free wd inc buf
    by (intro contents_snoc) (auto simp: queue_def cap_def capacity_def write_index_def Pointer_val_def)
  then show "queue t = queue s @ [(v, sg)]" by (simp add: queue_def Signal_assign_def)
  show "room t = room s - 1"
    using inc(1) wd by (simp add: room_def cap_def capacity_def)
qed

lemma dropped_result:
  assumes ok: "fifo_ok s" and ne: "queue s \<noteq> []" and wr: "wrap_room (write_pt (buffer s))"
    and d: "dropped s t"
  shows "fifo_ok t"
    "queue s = data_slot (buffer s) (pointer_pos (read_pt (buffer s))) # queue t" "room t = room s"
proof -
  note dd = d [unfolded dropped_def same_frame_def]
  have buf: "buf_ok (buffer s)" using ok by (rule fifo_ok_buf)
  have inc: "pointer_pos (read_pt (buffer t)) = pointer_pos (read_pt (buffer s)) + 1"
    "pointer_ok (read_pt (buffer t))" "pt_max_cap (read_pt (buffer t)) = pt_max_cap (read_pt (buffer s))"
    using Pointer_inc_pos [of "read_pt (buffer s)"] read_room [OF ok ne wr] buf dd
    by (simp_all add: buf_ok_def)
  have ne': "pointer_pos (read_pt (buffer s)) < pointer_pos (write_pt (buffer s))"
    using ne by (auto simp: queue_def contents_def)
  show "fifo_ok t"
    using ok dd inc ne' unfolding fifo_ok_def buf_ok_def signals_ok_def by simp
  show "queue s = data_slot (buffer s) (pointer_pos (read_pt (buffer s))) # queue t"
    unfolding queue_def using dd inc buf ne
    by (intro contents_tl) (auto simp: queue_def read_index_def Pointer_val_def)
  show "room t = room s"
    using dd by (simp add: room_def cap_def capacity_def)
qed

section \<open>Writing operations\<close>

lemma slot_bounds:
  assumes "buf_ok (buffer s)"
  shows "write_index s < length (store (buffer s))" "read_index s < length (store (buffer s))"
    "signals_ok (buffer s) \<Longrightarrow> write_index s < length (signal (buffer s))"
    "signals_ok (buffer s) \<Longrightarrow> read_index s < length (signal (buffer s))"
  using buf_ok_index [OF assms] assms
  by (simp_all add: write_index_def read_index_def Pointer_val_def buf_ok_def signals_ok_def)

lemma write_pt_inc:
  assumes "buf_ok d"
  obtains q where "Pointer_inc (write_pt d) = Some q"
  using Pointer_inc_Some [of "write_pt d"] assms by (auto simp: buf_ok_def)

lemma read_pt_inc:
  assumes "buf_ok d"
  obtains q where "Pointer_inc (read_pt d) = Some q"
  using Pointer_inc_Some [of "read_pt d"] assms by (auto simp: buf_ok_def)

text \<open>What a push puts in the slot: a null item pointer leaves what was there.\<close>

definition pushed :: "'a option \<Rightarrow> 'a fifo \<Rightarrow> 'a option" where
  "pushed ptr s = (case ptr of None \<Rightarrow> store (buffer s) ! write_index s | Some x \<Rightarrow> Some x)"

lemma pushed_Some [simp]: "pushed (Some x) s = Some x"
  by (simp add: pushed_def)

lemma same_queue_pushed: "same_queue s t \<Longrightarrow> pushed ptr t = pushed ptr s"
  by (cases ptr) (simp_all add: pushed_def same_queue_def write_index_def)

lemma push_commit_wrote:
  assumes ok: "fifo_ok s"
  obtains t where "push_commit ptr sg s = Returned () t" "wrote s (pushed ptr s) sg t"
proof -
  have buf: "buf_ok (buffer s)" "signals_ok (buffer s)" using ok by (simp_all add: fifo_ok_def)
  note bounds = slot_bounds [OF buf(1)] slot_bounds(3,4) [OF buf]
  obtain q where q: "Pointer_inc (write_pt (buffer s)) = Some q" using write_pt_inc buf(1) by blast
  let ?i = "write_index s"
  let ?sg = "Signal_assign (signal (buffer s) ! ?i) sg"
  show thesis
  proof (cases ptr)
    case None
    let ?t = "upd_buffer (\<lambda>d. d\<lparr>signal := (signal d)[?i := ?sg], write_pt := q\<rparr>) s"
    have "push_commit ptr sg s = Returned () (exitBuffer dm_push ?t)"
      using bounds q
      by (simp add: None push_commit_def Let_def write_signal_def inc_write_def upd_buffer_def)
    moreover have "wrote s (pushed ptr s) sg ?t"
      using q by (simp add: None wrote_def same_frame_def pushed_def)
    ultimately show thesis using that wrote_post exitBuffer_same by blast
  next
    case (Some x)
    let ?t = "upd_buffer (\<lambda>d. d\<lparr>store := (store d)[?i := Some x],
      write_stats := add_count 1 (write_stats d), signal := (signal d)[?i := ?sg], write_pt := q\<rparr>) s"
    have "push_commit ptr sg s = Returned () (exitBuffer dm_push ?t)"
      using bounds q ok
      by (simp add: Some push_commit_def Let_def write_slot_def wr_stats_def deref_def write_signal_def
          inc_write_def upd_buffer_def fifo_ok_def write_index_def)
    moreover have "wrote s (pushed ptr s) sg ?t"
      using q by (simp add: Some wrote_def same_frame_def)
    ultimately show thesis using that wrote_post exitBuffer_same by blast
  qed
qed

text \<open>A writer that has to wait changes nothing but flags and statistics.\<close>

lemma wr_stats_same: "wr_stats f s = Some t \<Longrightarrow> same_queue s t"
  by (auto simp: wr_stats_def same_queue_def split: if_splits)

lemma rd_stats_same: "rd_stats f s = Some t \<Longrightarrow> same_queue s t"
  by (auto simp: rd_stats_def same_queue_def split: if_splits)

lemma writer_wait_spin:
  assumes "write_stats_ptr s = buffer_id s"
  obtains t where "writer_wait k s = Spin t" "same_queue s t"
proof -
  have "write_stats_ptr (exitBuffer k s) = buffer_id (exitBuffer k s)"
    using assms exitBuffer_same [of s k] by (simp add: same_queue_def)
  then obtain t where "wr_stats set_blocked (exitBuffer k s) = Some t" by (simp add: wr_stats_def)
  with wr_stats_same [OF this] that show thesis
    by (simp add: writer_wait_def deref_def) (meson exitBuffer_same same_queue_trans)
qed

lemma local_push_cases:
  assumes ok: "fifo_ok s"
  shows "resizing s \<or> length (queue s) = cap s \<Longrightarrow>
           \<exists>t. local_push ptr sg s = Spin t \<and> same_queue s t"
    and "\<not> resizing s \<Longrightarrow> length (queue s) < cap s \<Longrightarrow>
           \<exists>t. local_push ptr sg s = Returned () t \<and>
               wrote s (pushed ptr s) sg t"
proof -
  let ?s1 = "enterBuffer dm_push s"
  have same: "same_queue s ?s1" by simp
  note s1 = same_queue_simps [OF same]
  have ptr1: "write_stats_ptr ?s1 = buffer_id ?s1" using ok same by (simp add: fifo_ok_def same_queue_def)
  obtain u where u: "writer_wait dm_push ?s1 = (Spin u :: (unit, 'a fifo) outcome)" "same_queue ?s1 u"
    using writer_wait_spin [OF ptr1] by metis
  have u': "same_queue s u" using same u(2) by (rule same_queue_trans)
  have space: "\<exists>n. space_avail ?s1 = Returned n ?s1 \<and> unat n = cap s - length (queue s)" if "\<not> resizing s"
    using space_avail_buf [of ?s1] ok that by (metis fifo_ok_buf s1(1,2,3,5))
  show "\<exists>t. local_push ptr sg s = Spin t \<and> same_queue s t"
    if "resizing s \<or> length (queue s) = cap s"
  proof (cases "resizing s")
    case True
    then show ?thesis using u u' s1 by (simp add: local_push_def Let_def notResizing_def)
  next
    case False
    with space that obtain n where "space_avail ?s1 = Returned n ?s1" "unat n = 0" by auto
    then show ?thesis using u u' s1 False
      by (simp add: local_push_def Let_def notResizing_def word_pos_iff)
  qed
  show "\<exists>t. local_push ptr sg s = Returned () t \<and>
      wrote s (pushed ptr s) sg t"
    if nr: "\<not> resizing s" and free: "length (queue s) < cap s"
  proof -
    obtain n where n: "space_avail ?s1 = Returned n ?s1" "0 < unat n" using space [OF nr] free by auto
    obtain t where t: "push_commit ptr sg ?s1 = Returned () t"
      "wrote ?s1 (pushed ptr ?s1) sg t"
      using push_commit_wrote [of ?s1] ok s1(1) by blast
    have "local_push ptr sg s = Returned () t"
      using n t(1) nr s1 by (simp add: local_push_def Let_def notResizing_def word_pos_iff)
    moreover have "wrote s (pushed ptr s) sg t"
      using wrote_pre [OF same t(2)] same_queue_pushed [OF same, of ptr] by simp
    ultimately show ?thesis by blast
  qed
qed


lemma local_push_fits:
  assumes ok: "fifo_ok s" and nr: "\<not> resizing s" and free: "length (queue s) < cap s"
    and room: "0 < room s"
  obtains t where "local_push (Some v) sg s = Returned () t" "fifo_ok t"
    "queue t = queue s @ [(Some v, sg)]" "cap t = cap s" "room t = room s - 1"
    "\<not> resizing t" "is_invalid t = is_invalid s"
proof -
  obtain t where t: "local_push (Some v) sg s = Returned () t" "wrote s (Some v) sg t"
    using local_push_cases(2) [OF ok nr free, of "Some v" sg] by auto
  have f: "same_frame s t" using t(2) by (simp add: wrote_def)
  show thesis
    by (rule that [OF t(1)]) (use wrote_result [OF ok free room t(2)] same_frame_simps [OF f] nr in simp_all)
qed

section \<open>Reading operations\<close>

lemma data_slot_read:
  assumes "buf_ok (buffer s)"
  shows "data_slot (buffer s) (pointer_pos (read_pt (buffer s))) =
    (store (buffer s) ! read_index s, sig (signal (buffer s) ! read_index s))"
  using buf_ok_index(3) [OF assms] by (simp add: data_slot_def read_index_def Pointer_val_def)

lemma queue_head_slot:
  assumes "buf_ok (buffer s)" and "queue s = (v, sg) # q"
  shows "store (buffer s) ! read_index s = v" "sig (signal (buffer s) ! read_index s) = sg"
proof -
  have "pointer_pos (read_pt (buffer s)) < pointer_pos (write_pt (buffer s))"
  proof (rule ccontr)
    assume "\<not> ?thesis"
    then have "queue s = []" by (simp add: queue_def contents_def)
    with assms(2) show False by simp
  qed
  then have "queue s = data_slot (buffer s) (pointer_pos (read_pt (buffer s))) #
      map (data_slot (buffer s)) [Suc (pointer_pos (read_pt (buffer s)))..<pointer_pos (write_pt (buffer s))]"
    by (simp add: queue_def contents_def upt_conv_Cons)
  with assms(2) show "store (buffer s) ! read_index s = v" "sig (signal (buffer s) ! read_index s) = sg"
    by (simp_all add: data_slot_read [OF assms(1)])
qed

text \<open>After an element is gone the queue is its tail.\<close>

lemma dropped_queue:
  assumes ok: "fifo_ok s" and q: "queue s = e # q" and room: "0 < room s" and d: "dropped s t"
  shows "fifo_ok t" "queue t = q" "room t = room s" "cap t = cap s" "resizing t = resizing s"
    "is_invalid t = is_invalid s"
proof -
  have ne: "queue s \<noteq> []" using q by simp
  note res = dropped_result [OF ok ne write_room [OF ok room] d]
  show "fifo_ok t" "room t = room s" using res(1,3) .
  show "queue t = q" using res(2) q by simp
  have f: "same_frame s t" using d by (simp add: dropped_def)
  show "cap t = cap s" "resizing t = resizing s" "is_invalid t = is_invalid s"
    using same_frame_simps [OF f] by simp_all
qed

lemma destroy_slot_drop:
  assumes "Pointer_inc (read_pt (buffer s)) = Some p"
  shows "\<exists>t. inc_read (destroy_slot kind (read_index s) s) = Some t \<and> dropped s t"
  using assms
  by (auto simp: inc_read_def destroy_slot_def upd_buffer_def dropped_def same_frame_def nth_list_update)

lemma pop_commit_dropped:
  assumes ok: "fifo_ok s" and q: "queue s = (Some v, sg) # q"
  obtains t where "pop_commit kind True w s = Returned (Some v, if w then Some sg else None) t"
    "dropped s t"
proof -
  have buf: "buf_ok (buffer s)" "signals_ok (buffer s)" "read_stats_ptr s = buffer_id s"
    using ok by (simp_all add: fifo_ok_def)
  note bounds = slot_bounds(2) [OF buf(1)] slot_bounds(4) [OF buf(1,2)]
  note head = queue_head_slot [OF buf(1) q]
  let ?s1 = "destroy_slot kind (read_index s) s"
  let ?s2 = "upd_buffer (\<lambda>d. d\<lparr>read_stats := add_count 1 (read_stats d)\<rparr>) ?s1"
  obtain p where p: "Pointer_inc (read_pt (buffer s)) = Some p" using read_pt_inc buf(1) by blast
  let ?s3 = "upd_buffer (\<lambda>d. d\<lparr>read_pt := p\<rparr>) ?s2"
  have d: "dropped s ?s3"
    using p by (auto simp: dropped_def same_frame_def destroy_slot_def nth_list_update)
  have stats: "rd_stats (add_count 1) ?s1 = Some ?s2"
    using buf(3) by (simp add: rd_stats_def destroy_slot_def)
  have inc: "inc_read ?s2 = Some ?s3"
    using p by (simp add: inc_read_def destroy_slot_def)
  have "pop_commit kind True w s = Returned (Some v, if w then Some sg else None) (exitBuffer dm_pop ?s3)"
    using bounds head
    by (simp add: pop_commit_def Let_def read_signal_def read_slot_def deref_def stats inc Signal_conv_def)
  then show thesis using that dropped_post [OF d exitBuffer_same] by blast
qed

lemma size_known:
  assumes "fifo_ok s" and "\<not> resizing s"
  obtains n where "fifo_size s = Returned n s" "unat n = length (queue s)"
  using fifo_size_buf fifo_ok_buf assms by blast

lemma word_zero_iff: "(n :: u64) = 0 \<longleftrightarrow> unat n = 0"
  by (simp add: unat_eq_zero)

lemma local_pop_takes:
  assumes ok: "fifo_ok s" and nr: "\<not> resizing s" and q: "queue s = (Some v, sg) # q"
    and room: "0 < room s"
  obtains t where "local_pop kind True w s = Returned (Some v, if w then Some sg else None) t"
    "fifo_ok t" "queue t = q" "cap t = cap s" "room t = room s"
    "\<not> resizing t" "is_invalid t = is_invalid s"
proof -
  let ?s1 = "enterBuffer dm_pop s"
  have same: "same_queue s ?s1" by simp
  note s1 = same_queue_simps [OF same]
  obtain n where n: "fifo_size ?s1 = Returned n ?s1" "unat n = length (queue ?s1)"
    using size_known [of ?s1] ok nr s1 by auto
  obtain t where t: "pop_commit kind True w ?s1 = Returned (Some v, if w then Some sg else None) t"
    "dropped ?s1 t"
    using pop_commit_dropped [of ?s1 v sg q kind w] ok q s1 by auto
  have d: "dropped s t" by (rule dropped_pre [OF same t(2)])
  have "local_pop kind True w s = Returned (Some v, if w then Some sg else None) t"
    using n nr t(1) q s1 by (simp add: local_pop_def notResizing_def word_pos_iff)
  with dropped_queue [OF ok q room d] nr show thesis by (intro that [of t]) simp_all
qed

lemma local_pop_empty:
  assumes ok: "fifo_ok s" and nr: "\<not> resizing s" and q: "queue s = []"
  shows "local_pop kind p w s =
    (if is_invalid s then Raised ClosedPortAccess (enterBuffer dm_pop s) else Spin (enterBuffer dm_pop s))"
proof -
  let ?s1 = "enterBuffer dm_pop s"
  have same: "same_queue s ?s1" by simp
  note s1 = same_queue_simps [OF same]
  obtain n where n: "fifo_size ?s1 = Returned n ?s1" "unat n = length (queue ?s1)"
    using size_known [of ?s1] ok nr s1 by auto
  then have "n = 0" using q s1 by (simp add: unat_eq_zero)
  then show ?thesis using n nr s1 by (simp add: local_pop_def Let_def notResizing_def)
qed

lemma local_pop_resizing:
  assumes "fifo_ok s" and "resizing s"
  shows "\<exists>t. local_pop kind p w s = Spin t \<and> same_queue s t"
proof -
  let ?s2 = "exitBuffer dm_pop (enterBuffer dm_pop s)"
  have same: "same_queue s ?s2" by (rule same_queue_trans [OF enterBuffer_same exitBuffer_same])
  have "read_stats_ptr ?s2 = buffer_id ?s2" using assms(1) same by (simp add: fifo_ok_def same_queue_def)
  then obtain t where t: "rd_stats set_blocked ?s2 = Some t" by (simp add: rd_stats_def)
  have "local_pop kind p w s = Spin t"
    using t assms(2) same_queue_resizing [of s "enterBuffer dm_pop s"]
    by (simp add: local_pop_def Let_def notResizing_def deref_def)
  with same_queue_trans [OF same rd_stats_same [OF t]] show ?thesis by blast
qed

end
