(* ===== verification/Ring_Ranges.thy ===== *)
theory Ring_Ranges
  imports Ring_Queue
begin

text \<open>
  Peeking, recycling, ranges of elements, and the two step writes (allocate, then send):
  what each does to the queue of Ring_Queue.
\<close>

section \<open>Peek and recycle\<close>

text \<open>Every element of the queue is a live value.\<close>

definition live :: "'a fifo \<Rightarrow> bool" where
  "live s \<longleftrightarrow> (\<forall>e \<in> set (queue s). fst e \<noteq> None)"

lemma local_peek_head:
  assumes ok: "fifo_ok s" and nr: "\<not> resizing s" and q: "queue s = (v, sg) # q"
  obtains t where "local_peek w s = Returned (read_index s, if w then Some sg else None) t"
    "same_queue s t" "store (buffer t) ! read_index s = v"
proof -
  let ?s1 = "enterBuffer dm_peek s"
  have same: "same_queue s ?s1" by simp
  note s1 = same_queue_simps [OF same]
  have ok1: "fifo_ok ?s1" and q1: "queue ?s1 = (v, sg) # q" using ok q s1 by simp_all
  have buf: "buf_ok (buffer ?s1)" "signals_ok (buffer ?s1)" using ok1 by (simp_all add: fifo_ok_def)
  obtain n where n: "fifo_size ?s1 = Returned n ?s1" "unat n = length (queue ?s1)"
    using size_known [of ?s1] ok nr s1 by auto
  have ix: "read_index ?s1 = read_index s" using same by (simp add: same_queue_def read_index_def)
  have "local_peek w s = Returned (read_index s, if w then Some sg else None) ?s1"
    using n nr q1 s1 slot_bounds(2) [OF buf(1)] slot_bounds(4) [OF buf] queue_head_slot(2) [OF buf(1) q1] ix
    by (simp add: local_peek_def Let_def notResizing_def word_pos_iff read_signal_def Signal_conv_def)
  moreover have "store (buffer ?s1) ! read_index s = v"
    using queue_head_slot(1) [OF buf(1) q1] ix by simp
  ultimately show thesis using that same by blast
qed

lemma recycle_one_takes:
  assumes ok: "fifo_ok s" and nr: "\<not> resizing s" and q: "queue s = (Some v, sg) # q"
    and room: "0 < room s"
  obtains t where "recycle_one kind s = Returned True t" "fifo_ok t" "queue t = q" "cap t = cap s"
    "room t = room s" "\<not> resizing t" "is_invalid t = is_invalid s"
proof -
  let ?s1 = "enterBuffer dm_recycle s"
  have same: "same_queue s ?s1" by simp
  note s1 = same_queue_simps [OF same]
  have ok1: "fifo_ok ?s1" and q1: "queue ?s1 = (Some v, sg) # q" using ok q s1 by simp_all
  have buf: "buf_ok (buffer ?s1)" using ok1 by (rule fifo_ok_buf)
  obtain n where n: "fifo_size ?s1 = Returned n ?s1" "unat n = length (queue ?s1)"
    using size_known [of ?s1] ok nr s1 by auto
  obtain p where p: "Pointer_inc (read_pt (buffer ?s1)) = Some p" using read_pt_inc buf by blast
  obtain t where t: "inc_read (destroy_slot kind (read_index ?s1) ?s1) = Some t" "dropped ?s1 t"
    using destroy_slot_drop [OF p] by blast
  have d: "dropped s (exitBuffer dm_recycle t)"
    by (rule dropped_post [OF dropped_pre [OF same t(2)] exitBuffer_same])
  have "recycle_one kind s = Returned True (exitBuffer dm_recycle t)"
    using n nr q1 s1 t(1) slot_bounds(2) [OF buf] queue_head_slot(1) [OF buf q1]
    by (simp add: recycle_one_def Let_def notResizing_def word_pos_iff)
  with dropped_queue [OF ok q room d] nr show thesis
    by (intro that [of "exitBuffer dm_recycle t"]) simp_all
qed

lemma recycle_one_empty:
  assumes ok: "fifo_ok s" and nr: "\<not> resizing s" and q: "queue s = []"
  shows "\<exists>t. recycle_one kind s = (if is_invalid s then Returned False t else Spin t) \<and> same_queue s t"
proof -
  let ?s1 = "enterBuffer dm_recycle s"
  have same: "same_queue s ?s1" "same_queue s (exitBuffer dm_recycle ?s1)"
    by (simp, rule same_queue_trans [OF enterBuffer_same exitBuffer_same])
  note s1 = same_queue_simps [OF same(1)]
  obtain n where n: "fifo_size ?s1 = Returned n ?s1" "unat n = length (queue ?s1)"
    using size_known [of ?s1] ok nr s1 by auto
  then have "n = 0" using q s1 by (simp add: unat_eq_zero)
  then show ?thesis using n nr s1 same(2)
    by (intro exI [of _ "exitBuffer dm_recycle ?s1"]) (simp add: recycle_one_def Let_def notResizing_def)
qed

text \<open>
  recycle(n): with enough elements exactly the first n go; a closed queue gives up all it
  has; an open one waits for the rest.
\<close>

lemma local_recycle_drop:
  assumes "fifo_ok s" and "\<not> resizing s" and "0 < room s" and "live s"
  shows "\<exists>t. local_recycle kind n s =
      (if n \<le> length (queue s) then Returned () (0, t)
       else if is_invalid s then Returned () (n - length (queue s), t)
       else Spin (n - length (queue s), t)) \<and>
    fifo_ok t \<and> queue t = drop n (queue s) \<and> cap t = cap s \<and> room t = room s \<and> \<not> resizing t \<and>
    is_invalid t = is_invalid s"
  using assms
proof (induction n arbitrary: s)
  case 0
  then show ?case by simp
next
  case (Suc n)
  show ?case
  proof (cases "queue s")
    case Nil
    obtain t where t: "recycle_one kind s = (if is_invalid s then Returned False t else Spin t)"
      "same_queue s t" using recycle_one_empty Suc.prems(1,2) Nil by blast
    then show ?thesis
      using Suc.prems same_queue_simps [OF t(2)] Nil by (intro exI [of _ t]) (simp split: if_splits)
  next
    case (Cons e q)
    with Suc.prems(4) obtain v sg where e: "e = (Some v, sg)" by (cases e) (auto simp: live_def)
    obtain u where u: "recycle_one kind s = Returned True u" "fifo_ok u" "queue u = q"
      "cap u = cap s" "room u = room s" "\<not> resizing u" "is_invalid u = is_invalid s"
      using recycle_one_takes [OF Suc.prems(1,2) Cons [unfolded e] Suc.prems(3)] by metis
    have "live u" using Suc.prems(4) Cons u(3) by (simp add: live_def)
    from Suc.IH [OF u(2,6) _ this] u(5) Suc.prems(3) obtain t where t: "local_recycle kind n u =
      (if n \<le> length (queue u) then Returned () (0, t)
       else if is_invalid u then Returned () (n - length (queue u), t)
       else Spin (n - length (queue u), t))" "fifo_ok t" "queue t = drop n (queue u)" "cap t = cap u"
      "room t = room u" "\<not> resizing t" "is_invalid t = is_invalid u" by auto
    show ?thesis by (rule exI [of _ t]) (simp add: Cons t u)
  qed
qed

section \<open>insert and pop_range\<close>

text \<open>The elements insert writes: the last one carries the signal.\<close>

fun with_last_signal :: "'a list \<Rightarrow> signal \<Rightarrow> ('a option \<times> signal) list" where
  "with_last_signal [] sg = []"
| "with_last_signal (x # xs) sg =
     (Some x, if xs = [] then sg else sig_none) # with_last_signal xs sg"

lemma with_last_signal_length [simp]: "length (with_last_signal xs sg) = length xs"
  by (induction xs) simp_all

lemma with_last_signal_snoc:
  "with_last_signal (xs @ [x]) sg = map (\<lambda>y. (Some y, sig_none)) xs @ [(Some x, sg)]"
  by (induction xs) simp_all

lemma local_insert_appends:
  assumes "fifo_ok s" and "\<not> resizing s" and "length xs \<le> room s"
  shows "\<exists>t. local_insert xs sg s =
      (if length xs \<le> cap s - length (queue s) then Returned () ([], t)
       else Spin (drop (cap s - length (queue s)) xs, t)) \<and>
    fifo_ok t \<and> cap t = cap s \<and> \<not> resizing t \<and>
    queue t = queue s @ take (cap s - length (queue s)) (with_last_signal xs sg)"
  using assms
proof (induction xs arbitrary: s)
  case Nil
  then show ?case by simp
next
  case (Cons x xs)
  let ?sg = "if xs = [] then sg else sig_none"
  show ?case
  proof (cases "length (queue s) < cap s")
    case True
    obtain u where u: "local_push (Some x) ?sg s = Returned () u" "fifo_ok u"
      "queue u = queue s @ [(Some x, ?sg)]" "cap u = cap s" "room u = room s - 1" "\<not> resizing u"
      using local_push_fits [OF Cons.prems(1,2) True, of x ?sg] Cons.prems(3) by auto
    have free: "cap s - length (queue s) = Suc (cap u - length (queue u))" using True u by simp
    have "length xs \<le> room u" using u(5) Cons.prems(3) by simp
    from Cons.IH [OF u(2,6) this] obtain t where t: "local_insert xs sg u =
      (if length xs \<le> cap u - length (queue u) then Returned () ([], t)
       else Spin (drop (cap u - length (queue u)) xs, t))" "fifo_ok t" "cap t = cap u" "\<not> resizing t"
      "queue t = queue u @ take (cap u - length (queue u)) (with_last_signal xs sg)" by auto
    show ?thesis unfolding free by (rule exI [of _ t]) (simp add: t u)
  next
    case False
    then have full: "length (queue s) = cap s" using fifo_ok_queue_le [OF Cons.prems(1)] by simp
    obtain t where t: "local_push (Some x) ?sg s = Spin t" "same_queue s t"
      using local_push_cases(1) [OF Cons.prems(1)] full by blast
    then show ?thesis using Cons.prems full same_queue_simps [OF t(2)] by simp
  qed
qed

lemma local_pop_range_takes:
  assumes "fifo_ok s" and "\<not> resizing s" and "0 < room s" and "live s"
  shows "\<exists>t. local_pop_range kind n acc s =
      (if n \<le> length (queue s) then Returned (rev acc @ take n (queue s)) (rev (take n (queue s)) @ acc, t)
       else if is_invalid s then Raised ClosedPortAccess (rev (queue s) @ acc, t)
       else Spin (rev (queue s) @ acc, t)) \<and>
    fifo_ok t \<and> queue t = drop n (queue s) \<and> cap t = cap s"
  using assms
proof (induction n arbitrary: s acc)
  case 0
  then show ?case by simp
next
  case (Suc n)
  show ?case
  proof (cases "queue s")
    case Nil
    have "same_queue s (enterBuffer dm_pop s)" by simp
    note t = same_queue_simps [OF this]
    show ?thesis using Suc.prems local_pop_empty [OF Suc.prems(1,2) Nil, of kind True True] t Nil by simp
  next
    case (Cons e q)
    with Suc.prems(4) obtain v sg where e: "e = (Some v, sg)" by (cases e) (auto simp: live_def)
    obtain u where u: "local_pop kind True True s = Returned (Some v, Some sg) u" "fifo_ok u"
      "queue u = q" "cap u = cap s" "room u = room s" "\<not> resizing u" "is_invalid u = is_invalid s"
      using local_pop_takes [OF Suc.prems(1,2) Cons [unfolded e] Suc.prems(3), of kind True] by auto
    have "live u" using Suc.prems(4) Cons u(3) by (simp add: live_def)
    from Suc.IH [OF u(2,6) _ this, of "(Some v, sg) # acc"] u(5) Suc.prems(3) obtain t where t:
      "local_pop_range kind n ((Some v, sg) # acc) u =
        (if n \<le> length (queue u) then Returned (rev ((Some v, sg) # acc) @ take n (queue u))
           (rev (take n (queue u)) @ (Some v, sg) # acc, t)
         else if is_invalid u then Raised ClosedPortAccess (rev (queue u) @ (Some v, sg) # acc, t)
         else Spin (rev (queue u) @ (Some v, sg) # acc, t))"
      "fifo_ok t" "queue t = drop n (queue u)" "cap t = cap u" by auto
    show ?thesis by (rule exI [of _ t]) (simp add: Cons e t u)
  qed
qed

section \<open>allocate and send\<close>

lemma contents_same:
  assumes "read_pt d' = read_pt d" "write_pt d' = write_pt d" "max_cap d' = max_cap d"
    and "\<And>i. i \<in> {pointer_pos (read_pt d)..<pointer_pos (write_pt d)} \<Longrightarrow>
           data_slot d' i = data_slot d i"
  shows "contents d' = contents d"
  using assms by (simp add: contents_def)

text \<open>The n slots behind the write position, and why the queue does not see them.\<close>

definition free_slots :: "nat \<Rightarrow> 'a data \<Rightarrow> nat list" where
  "free_slots n d = map (\<lambda>k. (pointer_pos (write_pt d) + k) mod unat (max_cap d)) [0..<n]"

lemma free_slots_length [simp]: "length (free_slots n d) = n"
  by (simp add: free_slots_def)

lemma free_slots_nth [simp]:
  "k < n \<Longrightarrow> free_slots n d ! k = (pointer_pos (write_pt d) + k) mod unat (max_cap d)"
  by (simp add: free_slots_def)

lemma free_slots_bound:
  "buf_ok d \<Longrightarrow> i \<in> set (free_slots n d) \<Longrightarrow> i < unat (max_cap d)"
  using buf_ok_cap_pos by (force simp: free_slots_def)

lemma free_slots_distinct:
  assumes "buf_ok d" and "n \<le> unat (max_cap d)"
  shows "distinct (free_slots n d)"
proof -
  have "inj_on (\<lambda>k. (pointer_pos (write_pt d) + k) mod unat (max_cap d)) {0..<n}"
  proof (rule linorder_inj_onI)
    fix k l :: nat
    assume kl: "k < l" "k \<in> {0..<n}" "l \<in> {0..<n}"
    show "(pointer_pos (write_pt d) + k) mod unat (max_cap d) \<noteq>
        (pointer_pos (write_pt d) + l) mod unat (max_cap d)"
      using mod_inj_window [of "pointer_pos (write_pt d) + k" "unat (max_cap d)"
          "pointer_pos (write_pt d) + l"] kl assms(2) by force
  qed auto
  then show ?thesis by (simp add: free_slots_def distinct_map)
qed

lemma free_slots_free:
  assumes ok: "buf_ok d" and n: "length (contents d) + n \<le> unat (max_cap d)"
    and i: "i \<in> {pointer_pos (read_pt d)..<pointer_pos (write_pt d)}"
  shows "i mod unat (max_cap d) \<notin> set (free_slots n d)"
proof
  assume "i mod unat (max_cap d) \<in> set (free_slots n d)"
  then obtain k where k: "k < n"
    "i mod unat (max_cap d) = (pointer_pos (write_pt d) + k) mod unat (max_cap d)"
    by (auto simp: free_slots_def)
  have "i = pointer_pos (write_pt d) + k"
    by (rule mod_inj_window [OF k(2)]) (use i n k(1) in auto)
  with i show False by simp
qed

text \<open>The producer writes its elements through the references allocate gave it.\<close>

fun fill_slots :: "nat list \<Rightarrow> 'a list \<Rightarrow> 'a fifo \<Rightarrow> 'a fifo option" where
  "fill_slots (i # is) (v # vs) s =
     (case write_slot i (Some v) s of None \<Rightarrow> None | Some s1 \<Rightarrow> fill_slots is vs s1)"
| "fill_slots [] vs s = Some s"
| "fill_slots (i # is) [] s = Some s"

lemma fill_slots_store:
  assumes "distinct is" "length is = length vs" "\<forall>i \<in> set is. i < length (store (buffer s))"
  shows "\<exists>st. fill_slots is vs s = Some (upd_buffer (\<lambda>d. d\<lparr>store := st\<rparr>) s) \<and>
    length st = length (store (buffer s)) \<and>
    (\<forall>k < length is. st ! (is ! k) = Some (vs ! k)) \<and>
    (\<forall>i. i \<notin> set is \<longrightarrow> st ! i = store (buffer s) ! i)"
  using assms
proof (induction "is" vs s rule: fill_slots.induct)
  case (1 i "is" v vs s)
  let ?s1 = "upd_buffer (\<lambda>d. d\<lparr>store := (store d)[i := Some v]\<rparr>) s"
  have w: "write_slot i (Some v) s = Some ?s1" using "1.prems" by (simp add: write_slot_def)
  obtain st where st: "fill_slots is vs ?s1 = Some (upd_buffer (\<lambda>d. d\<lparr>store := st\<rparr>) ?s1)"
    "length st = length (store (buffer s))" "\<forall>k < length is. st ! (is ! k) = Some (vs ! k)"
    "\<forall>j. j \<notin> set is \<longrightarrow> st ! j = (store (buffer s))[i := Some v] ! j"
    using "1.IH" [OF w] "1.prems" by auto
  have "\<forall>k < length (i # is). st ! ((i # is) ! k) = Some ((v # vs) ! k)"
  proof (intro allI impI)
    fix k assume "k < length (i # is)"
    then show "st ! ((i # is) ! k) = Some ((v # vs) ! k)"
      using st(3,4) "1.prems" by (cases k) auto
  qed
  moreover have "upd_buffer (\<lambda>d. d\<lparr>store := st\<rparr>) ?s1 = upd_buffer (\<lambda>d. d\<lparr>store := st\<rparr>) s"
    by (simp add: upd_buffer_def)
  ultimately show ?case using st w by (intro exI [of _ st]) simp
next
  case (2 vs s)
  then show ?case by (intro exI [of _ "store (buffer s)"]) (simp add: upd_buffer_def)
qed simp

lemma allocate_slots_free:
  assumes "signals_ok (buffer s)" "length (store (buffer s)) = unat (max_cap (buffer s))"
    and "unat wi = p mod unat (max_cap (buffer s))" "0 < unat (max_cap (buffer s))"
  shows "\<exists>sg. allocate_slots n wi s =
      Some (map (\<lambda>k. (p + k) mod unat (max_cap (buffer s))) [0..<n], upd_buffer (\<lambda>d. d\<lparr>signal := sg\<rparr>) s) \<and>
    length sg = length (signal (buffer s)) \<and>
    (\<forall>k < n. sig (sg ! ((p + k) mod unat (max_cap (buffer s)))) = sig_none) \<and>
    (\<forall>i. (\<forall>k < n. i \<noteq> (p + k) mod unat (max_cap (buffer s))) \<longrightarrow> sg ! i = signal (buffer s) ! i)"
  using assms
proof (induction n arbitrary: wi p s)
  case 0
  then show ?case by (intro exI [of _ "signal (buffer s)"]) (simp add: upd_buffer_def)
next
  case (Suc n)
  let ?c = "unat (max_cap (buffer s))"
  let ?s1 = "upd_buffer (\<lambda>d. d\<lparr>signal := (signal d)[unat wi := Signal_assign (signal d ! unat wi) sig_none]\<rparr>) s"
  have lt: "unat wi < ?c" using Suc.prems(3,4) by simp
  have w: "write_signal (unat wi) sig_none s = Some ?s1"
    using lt Suc.prems(1) by (simp add: write_signal_def signals_ok_def)
  have wi': "unat ((wi + 1) mod max_cap (buffer s)) = (p + 1) mod ?c"
    unfolding unat_Suc_mod [OF lt] Suc.prems(3) by (simp add: mod_Suc_eq)
  obtain sg where sg: "allocate_slots n ((wi + 1) mod max_cap (buffer s)) ?s1 =
      Some (map (\<lambda>k. (p + 1 + k) mod ?c) [0..<n], upd_buffer (\<lambda>d. d\<lparr>signal := sg\<rparr>) ?s1)"
    "length sg = length (signal (buffer s))"
    "\<forall>k < n. sig (sg ! ((p + 1 + k) mod ?c)) = sig_none"
    "\<forall>i. (\<forall>k < n. i \<noteq> (p + 1 + k) mod ?c) \<longrightarrow> sg ! i = signal (buffer ?s1) ! i"
    using Suc.IH [of ?s1 "(wi + 1) mod max_cap (buffer s)" "p + 1"] Suc.prems wi'
    by (auto simp: signals_ok_def)
  have upt: "map (\<lambda>k. (p + k) mod ?c) [0..<Suc n] = p mod ?c # map (\<lambda>k. (p + 1 + k) mod ?c) [0..<n]"
    by (simp add: upt_conv_Cons map_Suc_upt [symmetric] del: upt_Suc)
  have head: "sig (sg ! (p mod ?c)) = sig_none"
  proof (cases "\<exists>k < n. p mod ?c = (p + 1 + k) mod ?c")
    case True
    then show ?thesis using sg(3) by auto
  next
    case False
    then have "sg ! (p mod ?c) = signal (buffer ?s1) ! (p mod ?c)" using sg(4) by blast
    then show ?thesis using Suc.prems(1,3) lt by (simp add: signals_ok_def Signal_assign_def)
  qed
  have cleared: "\<forall>k < Suc n. sig (sg ! ((p + k) mod ?c)) = sig_none"
  proof (intro allI impI)
    fix k assume "k < Suc n"
    then show "sig (sg ! ((p + k) mod ?c)) = sig_none" using head sg(3) by (cases k) auto
  qed
  have other: "sg ! i = signal (buffer s) ! i" if i: "\<forall>k < Suc n. i \<noteq> (p + k) mod ?c" for i
  proof -
    have "\<forall>k < n. i \<noteq> (p + 1 + k) mod ?c"
    proof (intro allI impI)
      fix k assume "k < n"
      then show "i \<noteq> (p + 1 + k) mod ?c" using i [rule_format, of "Suc k"] by simp
    qed
    moreover have "i \<noteq> unat wi" using i [rule_format, of 0] Suc.prems(3) by simp
    ultimately show ?thesis using sg(4) by simp
  qed
  show ?case
    using sg(1,2) w lt cleared other Suc.prems(2,3) unfolding upt
    by (intro exI [of _ sg]) (simp add: upd_buffer_def)
qed

text \<open>A producer writing into the free slots changes nothing a reader can see.\<close>

lemma free_slots_invisible:
  assumes ok: "buf_ok d" and n: "length (contents d) + n \<le> unat (max_cap d)"
    and same: "read_pt d' = read_pt d" "write_pt d' = write_pt d" "max_cap d' = max_cap d"
    and store: "\<And>i. i \<notin> set (free_slots n d) \<Longrightarrow> store d' ! i = store d ! i"
    and signal: "\<And>i. i \<notin> set (free_slots n d) \<Longrightarrow> sig (signal d' ! i) = sig (signal d ! i)"
  shows "contents d' = contents d"
  using free_slots_free [OF ok n] same store signal
  by (intro contents_same) (simp_all add: data_slot_def)

lemma write_index_free:
  "buf_ok (buffer s) \<Longrightarrow> 0 < n \<Longrightarrow> write_index s \<in> set (free_slots n (buffer s))"
  using buf_ok_index(4) [of "buffer s"]
  by (force simp: free_slots_def write_index_def Pointer_val_def)

lemma fifo_allocate_send:
  assumes ok: "fifo_ok s" and nr: "\<not> resizing s" and free: "length (queue s) < cap s"
  shows "\<exists>t u. fifo_allocate v s = Returned (write_index s) t \<and> queue t = queue s \<and>
    send sg t = Returned () u \<and> wrote s (Some v) sg u \<and> allocate_called u = False"
proof -
  let ?s1 = "enterBuffer dm_allocate s" and ?i = "write_index s"
  have same: "same_queue s ?s1" by simp
  note s1 = same_queue_simps [OF same]
  have ok1: "fifo_ok ?s1" using ok s1 by simp
  have buf: "buf_ok (buffer ?s1)" "signals_ok (buffer ?s1)" "write_stats_ptr ?s1 = buffer_id ?s1"
    using ok1 by (simp_all add: fifo_ok_def)
  have ix: "write_index ?s1 = ?i" using same by (simp add: same_queue_def write_index_def)
  note bounds = slot_bounds(1) [OF buf(1)] slot_bounds(3) [OF buf(1,2)]
  obtain n where n: "space_avail ?s1 = Returned n ?s1" "unat n = cap ?s1 - length (queue ?s1)"
    using space_avail_buf [OF buf(1)] nr s1 by auto
  let ?alloc = "?s1\<lparr>allocate_called := True\<rparr>"
  let ?t = "upd_buffer (\<lambda>d. d\<lparr>store := (store d)[?i := Some v]\<rparr>) ?alloc"
  have "local_allocate s = Returned ?i ?alloc"
    using n nr free s1 bounds ix by (simp add: local_allocate_def notResizing_def word_pos_iff)
  then have alloc: "fifo_allocate v s = Returned ?i ?t"
    using bounds ix by (simp add: fifo_allocate_def write_slot_def)
  have "contents (buffer ?t) = contents (buffer ?s1)"
  proof (rule free_slots_invisible [OF buf(1), of 1])
    show "length (contents (buffer ?s1)) + 1 \<le> unat (max_cap (buffer ?s1))"
      using free s1 by (simp add: queue_def cap_def capacity_def)
    show "store (buffer ?t) ! i = store (buffer ?s1) ! i"
      if "i \<notin> set (free_slots 1 (buffer ?s1))" for i
      using write_index_free [OF buf(1), of 1] that ix by (cases "i = ?i") auto
  qed simp_all
  then have qt: "queue ?t = queue s" using s1(2) by (simp add: queue_def)
  obtain q where q: "Pointer_inc (write_pt (buffer ?s1)) = Some q" using write_pt_inc buf(1) by blast
  let ?u = "upd_buffer (\<lambda>d. d\<lparr>store := (store d)[?i := Some v],
      signal := (signal d)[?i := Signal_assign (signal d ! ?i) sg],
      write_stats := add_count 1 (write_stats d), write_pt := q\<rparr>) (?s1\<lparr>allocate_called := False\<rparr>)"
  have ixt: "write_index ?t = ?i" using ix by (simp add: write_index_def)
  have "send sg ?t = Returned () (exitBuffer dm_allocate ?u)"
    using bounds q ix buf(3) ixt
    by (simp add: send_def write_signal_def wr_stats_def deref_def inc_write_def upd_buffer_def Let_def)
  moreover have "wrote ?s1 (Some v) sg ?u"
    using q ix by (simp add: wrote_def same_frame_def)
  then have "wrote s (Some v) sg (exitBuffer dm_allocate ?u)"
    by (rule wrote_post [OF wrote_pre [OF same] exitBuffer_same])
  moreover have "allocate_called (exitBuffer dm_allocate ?u) = False"
    by (simp add: exitBuffer_def set_helper_def)
  ultimately show ?thesis using alloc qt by blast
qed

text \<open>The elements a range send makes visible: the first one carries the signal.\<close>

definition with_first_signal :: "'a list \<Rightarrow> signal \<Rightarrow> ('a option \<times> signal) list" where
  "with_first_signal vs sg =
     map (\<lambda>k. (Some (vs ! k), if k = 0 then sg else sig_none)) [0..<length vs]"

lemma contents_append:
  assumes ok: "buf_ok d" and n: "length (contents d) + n \<le> unat (max_cap d)"
    and d': "read_pt d' = read_pt d" "max_cap d' = max_cap d"
      "pointer_pos (write_pt d') = pointer_pos (write_pt d) + n"
    and store: "\<And>i. i \<notin> set (free_slots n d) \<Longrightarrow> store d' ! i = store d ! i"
    and signal: "\<And>i. i \<notin> set (free_slots n d) \<Longrightarrow> sig (signal d' ! i) = sig (signal d ! i)"
    and new: "\<And>k. k < n \<Longrightarrow> (store d' ! (free_slots n d ! k), sig (signal d' ! (free_slots n d ! k))) = f k"
  shows "contents d' = contents d @ map f [0..<n]"
proof -
  let ?R = "pointer_pos (read_pt d)" and ?W = "pointer_pos (write_pt d)"
  have le: "?R \<le> ?W" using ok by (simp add: buf_ok_def)
  have "map (data_slot d') [?R..<?W] = contents d"
    using free_slots_free [OF ok n] d'(2) store signal by (simp add: contents_def data_slot_def)
  moreover have "map (data_slot d') [?W..<?W + n] = map f [0..<n]"
    by (rule nth_equalityI) (use d'(2) new in \<open>auto simp: data_slot_def\<close>)
  moreover have "[?R..<?W + n] = [?R..<?W] @ [?W..<?W + n]" using le by (rule upt_add_eq_append)
  ultimately show ?thesis by (simp add: contents_def d')
qed

lemma local_allocate_n_free:
  assumes ok: "fifo_ok s" and nr: "\<not> resizing s" and n: "unat n \<le> cap s - length (queue s)"
  obtains sg t where "local_allocate_n kind n s = Returned (free_slots (unat n) (buffer s)) t"
    "t = (upd_buffer (\<lambda>d. d\<lparr>signal := sg\<rparr>) (enterBuffer dm_allocate_range s))
           \<lparr>n_allocated := ucast n, allocate_called := True\<rparr>"
    "length sg = length (signal (buffer s))"
    "\<And>k. k < unat n \<Longrightarrow> sig (sg ! (free_slots (unat n) (buffer s) ! k)) = sig_none"
    "\<And>i. i \<notin> set (free_slots (unat n) (buffer s)) \<Longrightarrow> sg ! i = signal (buffer s) ! i"
proof -
  let ?s1 = "enterBuffer dm_allocate_range s"
  have same: "same_queue s ?s1" by simp
  note s1 = same_queue_simps [OF same]
  note eq = same [unfolded same_queue_def]
  have ok1: "fifo_ok ?s1" using ok s1 by simp
  have buf: "buf_ok (buffer ?s1)" "signals_ok (buffer ?s1)" using ok1 by (simp_all add: fifo_ok_def)
  obtain k where k: "space_avail ?s1 = Returned k ?s1" "unat k = cap ?s1 - length (queue ?s1)"
    using space_avail_buf [OF buf(1)] nr s1 by auto
  have ge: "n \<le> k" using n k s1 by (simp add: word_le_nat_alt)
  have fs: "free_slots (unat n) (buffer s) =
      map (\<lambda>k. (pointer_pos (write_pt (buffer s)) + k) mod unat (max_cap (buffer ?s1))) [0..<unat n]"
    using eq by (simp add: free_slots_def)
  have pre: "length (store (buffer ?s1)) = unat (max_cap (buffer ?s1))" "0 < unat (max_cap (buffer ?s1))"
    using buf(1) by (simp_all add: buf_ok_def unat_gt_0)
  have wi: "unat (Pointer_val (write_pt (buffer ?s1))) =
      pointer_pos (write_pt (buffer s)) mod unat (max_cap (buffer ?s1))"
    using buf_ok_index(4) [OF buf(1)] eq by (simp add: Pointer_val_def)
  obtain sg where sg: "allocate_slots (unat n) (Pointer_val (write_pt (buffer ?s1))) ?s1 =
      Some (free_slots (unat n) (buffer s), upd_buffer (\<lambda>d. d\<lparr>signal := sg\<rparr>) ?s1)"
    "length sg = length (signal (buffer ?s1))"
    "\<forall>k < unat n. sig (sg ! ((pointer_pos (write_pt (buffer s)) + k) mod unat (max_cap (buffer ?s1)))) = sig_none"
    "\<forall>i. (\<forall>k < unat n. i \<noteq> (pointer_pos (write_pt (buffer s)) + k) mod unat (max_cap (buffer ?s1)))
        \<longrightarrow> sg ! i = signal (buffer ?s1) ! i"
    using allocate_slots_free [OF buf(2) pre(1) wi pre(2), of "unat n"] unfolding fs by blast
  have "local_allocate_n kind n s = Returned (free_slots (unat n) (buffer s))
      ((upd_buffer (\<lambda>d. d\<lparr>signal := sg\<rparr>) ?s1)\<lparr>n_allocated := ucast n, allocate_called := True\<rparr>)"
    using k ge sg(1) nr s1 by (simp add: local_allocate_n_def Let_def notResizing_def)
  moreover have "sg ! i = signal (buffer s) ! i" if "i \<notin> set (free_slots (unat n) (buffer s))" for i
  proof -
    have "\<forall>k < unat n. i \<noteq> (pointer_pos (write_pt (buffer s)) + k) mod unat (max_cap (buffer ?s1))"
      using that unfolding fs by force
    then have "sg ! i = signal (buffer ?s1) ! i" using sg(4) by blast
    then show ?thesis using eq by simp
  qed
  ultimately show thesis using that [OF _ refl] sg(2,3) eq by (simp add: fs)
qed

lemma allocate_n_send_range:
  assumes ok: "fifo_ok s" and nr: "\<not> resizing s" and n: "unat n \<le> cap s - length (queue s)"
    and vs: "length vs = unat n" "0 < unat n" "unat n < 2 ^ 32"
    and room: "0 < room s" and cap: "cap s \<le> 2 ^ 63"
  shows "\<exists>is t u w. local_allocate_n kind n s = Returned is t \<and> fill_slots is vs t = Some u \<and>
    queue u = queue s \<and> send_range sg u = Returned () w \<and> fifo_ok w \<and>
    queue w = queue s @ with_first_signal vs sg"
proof -
  let ?E = "enterBuffer dm_allocate_range s" and ?i = "write_index s"
  let ?fs = "free_slots (unat n) (buffer s)"
  have same: "same_queue s ?E" by simp
  note eq = same [unfolded same_queue_def]
  obtain al t where t: "local_allocate_n kind n s = Returned ?fs t"
    "t = (upd_buffer (\<lambda>d. d\<lparr>signal := al\<rparr>) ?E)\<lparr>n_allocated := ucast n, allocate_called := True\<rparr>"
    "length al = length (signal (buffer s))"
    "\<And>k. k < unat n \<Longrightarrow> sig (al ! (?fs ! k)) = sig_none"
    "\<And>i. i \<notin> set ?fs \<Longrightarrow> al ! i = signal (buffer s) ! i"
    by (rule local_allocate_n_free [OF ok nr n, of kind]) (rule that)
  have buf: "buf_ok (buffer s)" "signals_ok (buffer s)" "write_stats_ptr s = buffer_id s"
    "read_stats_ptr s = buffer_id s"
    using ok by (simp_all add: fifo_ok_def)
  have capn: "unat n \<le> unat (max_cap (buffer s))"
    using n by (simp add: cap_def capacity_def)
  have lens: "length (store (buffer s)) = unat (max_cap (buffer s))"
    "length al = unat (max_cap (buffer s))"
    using buf t(3) by (simp_all add: buf_ok_def signals_ok_def)
  have dist: "distinct ?fs" using free_slots_distinct buf(1) capn by blast
  have "length (store (buffer t)) = unat (max_cap (buffer s))" using eq lens by (simp add: t(2))
  then obtain st where st: "fill_slots ?fs vs t = Some (upd_buffer (\<lambda>d. d\<lparr>store := st\<rparr>) t)"
    "length st = unat (max_cap (buffer s))" "\<forall>k < length ?fs. st ! (?fs ! k) = Some (vs ! k)"
    "\<forall>i. i \<notin> set ?fs \<longrightarrow> st ! i = store (buffer t) ! i"
    using fill_slots_store [OF dist, of vs t] vs(1) free_slots_bound [OF buf(1)] by auto
  have st': "\<And>i. i \<notin> set ?fs \<Longrightarrow> st ! i = store (buffer s) ! i" using st(4) eq by (simp add: t(2))
  let ?u = "upd_buffer (\<lambda>d. d\<lparr>store := st\<rparr>) t"
  have fits: "length (contents (buffer s)) + unat n \<le> unat (max_cap (buffer s))"
    using n fifo_ok_queue_le [OF ok] by (simp add: queue_def cap_def capacity_def)
  have "contents (buffer ?u) = contents (buffer s)"
    using eq st' t(5) by (intro free_slots_invisible [OF buf(1) fits]) (simp_all add: t(2))
  then have qu: "queue ?u = queue s" by (simp add: queue_def)
  have ix: "?i < unat (max_cap (buffer s))" "?fs ! 0 = ?i"
    using slot_bounds(1) [OF buf(1)] lens buf_ok_index(4) [OF buf(1)] vs(2)
    by (simp_all add: write_index_def Pointer_val_def)
  have ixu: "write_index ?u = ?i" using eq by (simp add: t(2) write_index_def)
  have wr: "wrap_room (write_pt (buffer s))" by (rule write_room [OF ok room])
  have no_ovf: "unat (pt_a (write_pt (buffer s))) + unat n < 2 ^ 64"
    using buf_ok_index(2) [OF buf(1)] capn cap by (simp add: cap_def capacity_def)
  obtain q where q: "Pointer_incBy (write_pt (buffer s)) n = Some q"
    "pointer_pos q = pointer_pos (write_pt (buffer s)) + unat n" "pointer_ok q"
    "pt_max_cap q = pt_max_cap (write_pt (buffer s))"
    using Pointer_incBy_pos [OF _ wr _ , of n] no_ovf buf(1) capn by (auto simp: buf_ok_def word_le_nat_alt)
  have na: "ucast (ucast n :: u32) = n"
    by (rule word_unat_eq_iff [THEN iffD2]) (use vs(3) in \<open>simp add: unsigned_ucast_eq take_bit_eq_mod unat_mod_distrib\<close>)
  let ?al = "al[?i := Signal_assign (al ! ?i) sg]"
  let ?w = "exitBuffer dm_allocate_range ((upd_buffer (\<lambda>d. d\<lparr>signal := ?al, write_pt := q,
      write_stats := add_count (ucast n) (write_stats d)\<rparr>) ?u)\<lparr>allocate_called := False, n_allocated := 0\<rparr>)"
  have sent: "send_range sg ?u = Returned () ?w"
    using eq ix lens buf(3) q(1) ixu
    by (simp add: send_range_def write_signal_def t(2) wr_stats_def deref_def incBy_write_def
        upd_buffer_def na)
  have w: "buffer ?w = (buffer ?w)\<lparr>store := st, signal := ?al, write_pt := q\<rparr>"
    "read_pt (buffer ?w) = read_pt (buffer s)" "max_cap (buffer ?w) = max_cap (buffer s)"
    using eq by (simp_all add: exitBuffer_def set_helper_def t(2))
  have w': "store (buffer ?w) = st" "signal (buffer ?w) = ?al" "write_pt (buffer ?w) = q"
    by (simp_all add: exitBuffer_def set_helper_def)
  have inj: "?fs ! k = ?i \<longleftrightarrow> k = 0" if "k < unat n" for k
    using nth_eq_iff_index_eq [OF dist, of k 0] that vs(2) ix(2) by simp
  have in_fs: "?i \<in> set ?fs" by (rule write_index_free [OF buf(1) vs(2)])
  have "contents (buffer ?w) = contents (buffer s) @
      map (\<lambda>k. (Some (vs ! k), if k = 0 then sg else sig_none)) [0..<unat n]"
  proof (rule contents_append [OF buf(1) fits])
    show "sig (signal (buffer ?w) ! i) = sig (signal (buffer s) ! i)" if "i \<notin> set ?fs" for i
      using that t(5) in_fs by (cases "i = ?i") (simp_all add: w')
    show "(store (buffer ?w) ! (?fs ! k), sig (signal (buffer ?w) ! (?fs ! k))) =
        (Some (vs ! k), if k = 0 then sg else sig_none)" if k: "k < unat n" for k
      unfolding w' using inj [OF k] st(3) [rule_format, of k] t(4) [OF k] k lens ix
      by (cases "k = 0") (simp_all add: Signal_assign_def del: free_slots_nth)
  qed (use st' q w w' in simp_all)
  then have qw: "queue ?w = queue s @ with_first_signal vs sg"
    by (simp add: queue_def with_first_signal_def vs(1))
  have "fifo_ok ?w"
    using buf eq q st(2) lens fits unfolding fifo_ok_def buf_ok_def signals_ok_def
    by (auto simp: exitBuffer_def set_helper_def t(2))
  with t(1) st(1) qu sent qw show ?thesis by blast
qed

end
