(* ===== verification/Ring_Contract.thy ===== *)
theory Ring_Contract
  imports Ring_Ranges
begin

text \<open>
  The interface through which kernels and the scheduler use a stream: a bounded queue that
  accepts, blocks or hands out elements, and a queue that can be closed.  Each is a locale;
  what clients rely on is proved in it once.  The model's push and pop are shown to be such
  a queue, and the properties of the ring buffer follow.
\<close>

section \<open>The contract\<close>

datatype 'e queue_op = Enq 'e | Deq

text \<open>
  A run of single passes: an accepted element is noted, a taken one is noted, a pass that
  has to wait or throws leaves its state.  None: some pass had undefined behaviour.
\<close>

fun run_ops ::
  "('e \<Rightarrow> 's \<Rightarrow> (unit, 's) outcome) \<Rightarrow> ('s \<Rightarrow> ('e, 's) outcome) \<Rightarrow> 'e queue_op list \<Rightarrow> 's
     \<Rightarrow> ('e list \<times> 'e list \<times> 's) option" where
  "run_ops enq deq [] s = Some ([], [], s)"
| "run_ops enq deq (Enq e # ops) s =
     (case enq e s of
        Returned _ t \<Rightarrow> map_option (\<lambda>(acc, out, u). (e # acc, out, u)) (run_ops enq deq ops t)
      | Spin t \<Rightarrow> run_ops enq deq ops t
      | Raised _ t \<Rightarrow> run_ops enq deq ops t
      | Fault _ \<Rightarrow> None)"
| "run_ops enq deq (Deq # ops) s =
     (case deq s of
        Returned e t \<Rightarrow> map_option (\<lambda>(acc, out, u). (acc, e # out, u)) (run_ops enq deq ops t)
      | Spin t \<Rightarrow> run_ops enq deq ops t
      | Raised _ t \<Rightarrow> run_ops enq deq ops t
      | Fault _ \<Rightarrow> None)"

text \<open>The same run on the specification: a list with at most c elements.\<close>

fun spec_run :: "nat \<Rightarrow> 'e queue_op list \<Rightarrow> 'e list \<Rightarrow> 'e list \<times> 'e list \<times> 'e list" where
  "spec_run c [] q = ([], [], q)"
| "spec_run c (Enq e # ops) q =
     (if length q < c then (case spec_run c ops (q @ [e]) of (acc, out, r) \<Rightarrow> (e # acc, out, r))
      else spec_run c ops q)"
| "spec_run c (Deq # ops) q =
     (case q of
        [] \<Rightarrow> spec_run c ops []
      | x # q' \<Rightarrow> (case spec_run c ops q' of (acc, out, r) \<Rightarrow> (acc, x # out, r)))"

lemma spec_run_order: "spec_run c ops q = (acc, out, r) \<Longrightarrow> q @ acc = out @ r"
  by (induction c ops q arbitrary: acc out r rule: spec_run.induct)
    (fastforce split: if_splits list.splits prod.splits)+

lemma spec_run_bound:
  "spec_run c ops q = (acc, out, r) \<Longrightarrow> length q \<le> c \<Longrightarrow> length r \<le> c"
  by (induction c ops q arbitrary: acc out r rule: spec_run.induct)
    (auto split: if_splits list.splits prod.splits)

text \<open>Taking elements until the queue has none to give.\<close>

fun drain :: "('s \<Rightarrow> ('e, 's) outcome) \<Rightarrow> nat \<Rightarrow> 's \<Rightarrow> 'e list \<times> (unit, 's) outcome" where
  "drain deq 0 s = ([], Returned () s)"
| "drain deq (Suc n) s =
     (case deq s of
        Returned e t \<Rightarrow> (case drain deq n t of (es, r) \<Rightarrow> (e # es, r))
      | Spin t \<Rightarrow> ([], Spin t)
      | Raised x t \<Rightarrow> ([], Raised x t)
      | Fault f \<Rightarrow> ([], Fault f))"

locale bounded_queue =
  fixes inv :: "'s \<Rightarrow> bool"
    and items :: "'s \<Rightarrow> 'e list"
    and bound :: "'s \<Rightarrow> nat"
    and lifetime :: "'s \<Rightarrow> nat"
    and enq :: "'e \<Rightarrow> 's \<Rightarrow> (unit, 's) outcome"
    and deq :: "'s \<Rightarrow> ('e, 's) outcome"
  assumes items_bound: "inv s \<Longrightarrow> length (items s) \<le> bound s"
    and enq_accepts: "inv s \<Longrightarrow> length (items s) < bound s \<Longrightarrow> 0 < lifetime s \<Longrightarrow>
      \<exists>t. enq e s = Returned () t \<and> inv t \<and> items t = items s @ [e] \<and> bound t = bound s \<and>
          lifetime t = lifetime s - 1"
    and enq_full: "inv s \<Longrightarrow> length (items s) = bound s \<Longrightarrow>
      \<exists>t. enq e s = Spin t \<and> inv t \<and> items t = items s \<and> bound t = bound s \<and> lifetime t = lifetime s"
    and deq_takes: "inv s \<Longrightarrow> items s = x # q \<Longrightarrow> 0 < lifetime s \<Longrightarrow>
      \<exists>t. deq s = Returned x t \<and> inv t \<and> items t = q \<and> bound t = bound s \<and> lifetime t = lifetime s"
    and deq_empty: "inv s \<Longrightarrow> items s = [] \<Longrightarrow>
      \<exists>t. (deq s = Spin t \<or> deq s = Raised ClosedPortAccess t) \<and> inv t \<and> items t = [] \<and>
          bound t = bound s \<and> lifetime t = lifetime s"
begin

text \<open>Every run is the specification's run, and no pass has undefined behaviour.\<close>

lemma run_refines:
  assumes "inv s" and "length ops < lifetime s"
    and "spec_run (bound s) ops (items s) = (acc, out, q)"
  shows "\<exists>t. run_ops enq deq ops s = Some (acc, out, t) \<and> inv t \<and> items t = q \<and> bound t = bound s"
  using assms
proof (induction ops arbitrary: s acc out)
  case Nil
  then show ?case by simp
next
  case (Cons op ops)
  show ?case
  proof (cases op)
    case (Enq e)
    show ?thesis
    proof (cases "length (items s) < bound s")
      case True
      obtain t where t: "enq e s = Returned () t" "inv t" "items t = items s @ [e]" "bound t = bound s"
        "lifetime t = lifetime s - 1"
        using enq_accepts [OF Cons.prems(1) True, of e] Cons.prems(2) by auto
      obtain acc' where acc': "acc = e # acc'" "spec_run (bound t) ops (items t) = (acc', out, q)"
        using Cons.prems(3) True by (auto simp: Enq t(3,4) split: prod.splits)
      have "length ops < lifetime t" using Cons.prems(2) t(5) by simp
      then show ?thesis using Cons.IH [OF t(2) _ acc'(2)] by (auto simp: Enq t acc')
    next
      case False
      then have full: "length (items s) = bound s" using items_bound [OF Cons.prems(1)] by simp
      obtain t where t: "enq e s = Spin t" "inv t" "items t = items s" "bound t = bound s"
        "lifetime t = lifetime s"
        using enq_full [OF Cons.prems(1) full] by blast
      show ?thesis using Cons.IH [OF t(2), of acc out] Cons.prems(2,3) False t by (auto simp: Enq)
    qed
  next
    case Deq
    show ?thesis
    proof (cases "items s")
      case Nil
      obtain t where t: "deq s = Spin t \<or> deq s = Raised ClosedPortAccess t" "inv t" "items t = []"
        "bound t = bound s" "lifetime t = lifetime s"
        using deq_empty [OF Cons.prems(1) Nil] by blast
      show ?thesis using Cons.IH [OF t(2), of acc out] Cons.prems(2,3) Nil t by (auto simp: Deq)
    next
      case (Cons x q')
      obtain t where t: "deq s = Returned x t" "inv t" "items t = q'" "bound t = bound s"
        "lifetime t = lifetime s"
        using deq_takes [OF Cons.prems(1) Cons] Cons.prems(2) by auto
      obtain out' where out': "out = x # out'" "spec_run (bound t) ops (items t) = (acc, out', q)"
        using Cons.prems(3) by (auto simp: Deq t(3,4) Cons split: prod.splits)
      have "length ops < lifetime t" using Cons.prems(2) t(5) by simp
      then show ?thesis using Cons.IH [OF t(2) _ out'(2)] by (auto simp: Deq t out')
    qed
  qed
qed

text \<open>First in, first out, nothing lost, nothing made up.\<close>

lemma run_fifo:
  assumes "inv s" and "length ops < lifetime s"
  shows "\<exists>acc out t. run_ops enq deq ops s = Some (acc, out, t) \<and> inv t \<and>
    items s @ acc = out @ items t \<and> length (items t) \<le> bound s"
proof -
  obtain acc out q where r: "spec_run (bound s) ops (items s) = (acc, out, q)" by (metis prod_cases3)
  show ?thesis
    using run_refines [OF assms r] spec_run_order [OF r] items_bound by metis
qed

lemma drain_takes:
  assumes "inv s" and "0 < lifetime s" and "n \<le> length (items s)"
  shows "\<exists>t. drain deq n s = (take n (items s), Returned () t) \<and> inv t \<and>
    items t = drop n (items s) \<and> bound t = bound s \<and> lifetime t = lifetime s"
  using assms
proof (induction n arbitrary: s)
  case (Suc n)
  then obtain x q where q: "items s = x # q" by (cases "items s") auto
  obtain t where t: "deq s = Returned x t" "inv t" "items t = q" "bound t = bound s"
    "lifetime t = lifetime s"
    using deq_takes [OF Suc.prems(1) q Suc.prems(2)] by blast
  have "0 < lifetime t" "n \<le> length (items t)" using Suc.prems q t by simp_all
  from Suc.IH [OF t(2) this] show ?case by (auto simp: q t)
qed simp

end

text \<open>A queue that can be closed: the reader of an empty closed queue gets an exception.\<close>

locale closable_queue = bounded_queue inv items bound lifetime enq deq
  for inv :: "'s \<Rightarrow> bool" and items :: "'s \<Rightarrow> 'e list" and bound lifetime enq deq +
  fixes close :: "'s \<Rightarrow> 's" and closed :: "'s \<Rightarrow> bool"
  assumes close_inv: "inv s \<Longrightarrow> inv (close s)"
    and close_items: "items (close s) = items s"
    and close_lifetime: "lifetime (close s) = lifetime s"
    and close_closed: "closed (close s)"
    and deq_closed: "inv s \<Longrightarrow> closed s \<Longrightarrow> 0 < lifetime s \<Longrightarrow> deq s = Returned x t \<Longrightarrow> closed t"
    and deq_closed_empty: "inv s \<Longrightarrow> closed s \<Longrightarrow> items s = [] \<Longrightarrow> \<exists>t. deq s = Raised ClosedPortAccess t"
    and deq_open_empty: "inv s \<Longrightarrow> \<not> closed s \<Longrightarrow> items s = [] \<Longrightarrow> \<exists>t. deq s = Spin t"
begin

text \<open>What was in the queue when it was closed is still delivered, then the reader throws.\<close>

lemma drain_closed:
  assumes "inv s" and "closed s" and "0 < lifetime s" and "length (items s) < n"
  shows "\<exists>t. drain deq n s = (items s, Raised ClosedPortAccess t)"
  using assms
proof (induction n arbitrary: s)
  case (Suc n)
  show ?case
  proof (cases "items s")
    case Nil
    then show ?thesis using deq_closed_empty [OF Suc.prems(1,2)] by auto
  next
    case (Cons x q)
    obtain t where t: "deq s = Returned x t" "inv t" "items t = q" "lifetime t = lifetime s"
      using deq_takes [OF Suc.prems(1) Cons Suc.prems(3)] by blast
    have "\<exists>u. drain deq n t = (items t, Raised ClosedPortAccess u)"
      by (rule Suc.IH) (use t deq_closed [OF Suc.prems(1,2,3) t(1)] Suc.prems Cons in simp_all)
    then show ?thesis by (auto simp: t Cons)
  qed
qed simp

lemma close_then_drain:
  assumes "inv s" and "0 < lifetime s"
  shows "\<exists>t. drain deq (Suc (length (items s))) (close s) = (items s, Raised ClosedPortAccess t)"
  using drain_closed [OF close_inv [OF assms(1)] close_closed, of "Suc (length (items s))"] assms(2)
  by (simp add: close_items close_lifetime)

end

section \<open>The ring buffer is a closable bounded queue\<close>

text \<open>FIFO::push of a value with its signal, and FIFO::pop into a value and a signal.\<close>

definition push_elem :: "'a \<times> signal \<Rightarrow> 'a fifo \<Rightarrow> (unit, 'a fifo) outcome" where
  "push_elem e s = local_push (Some (fst e)) (snd e) s"

definition pop_elem :: "alloc_kind \<Rightarrow> 'a fifo \<Rightarrow> ('a \<times> signal, 'a fifo) outcome" where
  "pop_elem kind s =
     bind_outcome (local_pop kind True True s) (\<lambda>r t.
       case r of
         (Some v, Some sg) \<Rightarrow> Returned (v, sg) t
       | (None, _) \<Rightarrow> Fault DeadObject
       | (_, None) \<Rightarrow> Fault NullDereference)"

definition ring_inv :: "'a fifo \<Rightarrow> bool" where
  "ring_inv s \<longleftrightarrow> fifo_ok s \<and> \<not> resizing s \<and> live s"

definition elems :: "'a fifo \<Rightarrow> ('a \<times> signal) list" where
  "elems s = map (\<lambda>(v, sg). (the v, sg)) (queue s)"

lemma elems_length [simp]: "length (elems s) = length (queue s)"
  by (simp add: elems_def)

lemma live_queue_elems:
  "live s \<Longrightarrow> queue s = map (\<lambda>(v, sg). (Some v, sg)) (elems s)"
  by (simp add: elems_def live_def map_idI case_prod_beta)

lemma same_queue_ring: "same_queue s t \<Longrightarrow> ring_inv t = ring_inv s \<and> elems t = elems s"
  by (simp add: ring_inv_def same_queue_simps elems_def live_def)

lemma push_elem_accepts:
  assumes "ring_inv s" and "length (elems s) < cap s" and "0 < room s"
  shows "\<exists>t. push_elem e s = Returned () t \<and> ring_inv t \<and> elems t = elems s @ [e] \<and> cap t = cap s \<and>
    room t = room s - 1"
proof -
  obtain t where "local_push (Some (fst e)) (snd e) s = Returned () t" "fifo_ok t"
    "queue t = queue s @ [(Some (fst e), snd e)]" "cap t = cap s" "room t = room s - 1" "\<not> resizing t"
    using local_push_fits [of s "fst e" "snd e"] assms by (auto simp: ring_inv_def)
  then show ?thesis using assms(1) by (auto simp: push_elem_def ring_inv_def live_def elems_def)
qed

lemma push_elem_full:
  assumes "ring_inv s" and "length (elems s) = cap s"
  shows "\<exists>t. push_elem e s = Spin t \<and> same_queue s t"
  using local_push_cases(1) [of s] assms by (simp add: push_elem_def ring_inv_def)

lemma pop_elem_takes:
  assumes "ring_inv s" and "elems s = e # q" and "0 < room s"
  shows "\<exists>t. pop_elem kind s = Returned e t \<and> ring_inv t \<and> elems t = q \<and> cap t = cap s \<and>
    room t = room s \<and> is_invalid t = is_invalid s"
proof -
  have q: "queue s = (Some (fst e), snd e) # map (\<lambda>(v, sg). (Some v, sg)) q"
    using assms(1,2) live_queue_elems [of s] by (simp add: ring_inv_def case_prod_beta)
  obtain t where t: "local_pop kind True True s = Returned (Some (fst e), Some (snd e)) t" "fifo_ok t"
    "queue t = map (\<lambda>(v, sg). (Some v, sg)) q" "cap t = cap s" "room t = room s" "\<not> resizing t"
    "is_invalid t = is_invalid s"
    using local_pop_takes [OF _ _ q assms(3), of kind True] assms(1) by (auto simp: ring_inv_def)
  have "elems t = q" by (simp add: elems_def t(3) comp_def case_prod_beta)
  moreover have "live t" by (auto simp: live_def t(3))
  ultimately show ?thesis using t by (auto simp: pop_elem_def ring_inv_def)
qed

lemma pop_elem_empty:
  assumes "ring_inv s" and "elems s = []"
  shows "pop_elem kind s = (if is_invalid s then Raised ClosedPortAccess (enterBuffer dm_pop s)
    else Spin (enterBuffer dm_pop s))"
  using local_pop_empty [of s kind True True] assms by (simp add: pop_elem_def ring_inv_def elems_def)

lemma pop_elem_closed:
  assumes "ring_inv s" and "is_invalid s" and "0 < room s" and "pop_elem kind s = Returned x t"
  shows "is_invalid t"
proof (cases "elems s")
  case Nil
  with pop_elem_empty [OF assms(1) Nil, of kind] assms(2,4) show ?thesis by simp
next
  case (Cons e q)
  with pop_elem_takes [OF assms(1) Cons assms(3), of kind] assms(2,4) show ?thesis by auto
qed

lemma invalidate_simps [simp]:
  "ring_inv (invalidate s) = ring_inv s" "elems (invalidate s) = elems s"
  "room (invalidate s) = room s" "cap (invalidate s) = cap s" "is_invalid (invalidate s)"
  by (simp_all add: invalidate_def ring_inv_def fifo_ok_def buf_ok_def signals_ok_def live_def
      queue_def contents_def data_slot_def elems_def room_def cap_def capacity_def is_invalid_def
      cong: map_cong)

interpretation ring: closable_queue ring_inv elems cap room push_elem "pop_elem kind" invalidate is_invalid
  for kind
proof unfold_locales
  fix s :: "'a fifo" and e and x and q
  show "ring_inv s \<Longrightarrow> length (elems s) \<le> cap s"
    by (simp add: ring_inv_def fifo_ok_queue_le)
  show "ring_inv s \<Longrightarrow> length (elems s) = cap s \<Longrightarrow>
      \<exists>t. push_elem e s = Spin t \<and> ring_inv t \<and> elems t = elems s \<and> cap t = cap s \<and> room t = room s"
    using push_elem_full same_queue_ring same_queue_simps by metis
  have "same_queue s (enterBuffer dm_pop s)" by simp
  note same = same_queue_ring [OF this] same_queue_simps [OF this]
  show "ring_inv s \<Longrightarrow> elems s = [] \<Longrightarrow>
      \<exists>t. (pop_elem kind s = Spin t \<or> pop_elem kind s = Raised ClosedPortAccess t) \<and> ring_inv t \<and>
          elems t = [] \<and> cap t = cap s \<and> room t = room s"
    using pop_elem_empty [of s kind] same by auto
  show "ring_inv s \<Longrightarrow> elems s = x # q \<Longrightarrow> 0 < room s \<Longrightarrow>
      \<exists>t. pop_elem kind s = Returned x t \<and> ring_inv t \<and> elems t = q \<and> cap t = cap s \<and> room t = room s"
    using pop_elem_takes by metis
  show "ring_inv s \<Longrightarrow> length (elems s) < cap s \<Longrightarrow> 0 < room s \<Longrightarrow>
      \<exists>t. push_elem e s = Returned () t \<and> ring_inv t \<and> elems t = elems s @ [e] \<and> cap t = cap s \<and>
          room t = room s - 1"
    by (rule push_elem_accepts)
qed (auto simp: pop_elem_empty intro: pop_elem_closed)

end
