(* ===== verification/Ring_Resize.thy ===== *)
theory Ring_Resize
  imports Ring_Contract
begin

text \<open>
  Construction and resizing: the queue a constructor makes, what the copy into a larger
  buffer keeps, and what it leaves behind.
\<close>

section \<open>New queues\<close>

lemma RingBuffer_new_ok:
  assumes "n \<noteq> 0" and "sz \<noteq> 0" and "unat sz * unat n < 2 ^ 64"
  obtains s where "RingBuffer_new True True sz n i = Inr s" "ring_inv s" "elems s = []"
    "cap s = unat n" "room s = 2 ^ 64 * unat n - unat n" "\<not> is_invalid s" "resizeable s"
    "buffer_id s = i"
proof -
  obtain d where d: "Data_new True True sz n = (Inr d :: fault + 'a data)"
    by (auto simp: Data_new_def Let_def)
  note ok = Data_new_ok [OF d assms]
  have wp: "write_pt d = Pointer_new n"
    using d by (auto simp: Data_new_def Let_def)
  let ?s = "fifo_init (dm_set d i (fifo_blank d i))"
  have s: "buffer ?s = d" "write_stats_ptr ?s = i" "read_stats_ptr ?s = i" "buffer_id ?s = i"
    "\<not> resizing ?s" "resizeable ?s"
    using ok(6) by (simp_all add: fifo_init_def dm_set_def fifo_blank_def)
  have "queue ?s = []" using ok(3) s by (simp add: queue_def)
  then have "ring_inv ?s" "elems ?s = []"
    using ok s by (simp_all add: ring_inv_def fifo_ok_def live_def elems_def)
  moreover have "cap ?s = unat n" using ok(4) s by (simp add: cap_def capacity_def)
  moreover have "room ?s = 2 ^ 64 * unat n - unat n"
    using \<open>cap ?s = unat n\<close> s wp by (simp add: room_def)
  moreover have "RingBuffer_new True True sz n i = Inr ?s"
    using assms(1) d by (simp add: RingBuffer_new_def)
  moreover have "\<not> is_invalid ?s" using ok(5) s by (simp add: is_invalid_def)
  ultimately show thesis using that s by blast
qed

lemma RingBuffer_external_full:
  assumes "n \<noteq> 0" and "length mem = unat n"
  obtains s where "RingBuffer_external True sz mem n start i = Inr s" "buf_ok (buffer s)"
    "map fst (queue s) = mem" "length (queue s) = cap s" "length (signal (buffer s)) = 1"
    "getindex (signal (buffer s) ! 0) = start" "\<not> is_resizeable s" "\<not> resizing s"
    "write_stats_ptr s = buffer_id s"
proof -
  obtain d where d: "Data_external True sz mem n start = Inr d" by (simp add: Data_external_def)
  note ok = Data_external_ok [OF d assms]
  have mc: "max_cap d = n" using d by (auto simp: Data_external_def DataBase_new_def)
  let ?s = "fifo_init (dm_set d i (fifo_blank d i))"
  have "RingBuffer_external True sz mem n start i = Inr ?s"
    using assms(1) d by (simp add: RingBuffer_external_def)
  then show thesis
    using ok mc by (intro that [of ?s])
      (simp_all add: fifo_init_def dm_set_def fifo_blank_def queue_def cap_def capacity_def is_resizeable_def)
qed

section \<open>The copy into a new buffer\<close>

text \<open>The sizes DataBase's constructor computed, without overflow.\<close>

definition sizes_ok :: "u64 \<Rightarrow> 'a data \<Rightarrow> bool" where
  "sizes_ok sz d \<longleftrightarrow>
     length_store d = sz * max_cap d \<and> length_signal d = sz * max_cap d \<and>
     unat sz * unat (max_cap d) < 2 ^ 64"

lemma sizes_ok_unat:
  assumes "sizes_ok sz d"
  shows "unat (length_store d) = unat sz * unat (max_cap d)"
    "unat (length_signal d) = unat sz * unat (max_cap d)"
  using assms by (simp_all add: sizes_ok_def unat_word_ariths)

lemma copy_signals_defined:
  "n \<le> sizeof_Signal * length src \<Longrightarrow> n \<le> sizeof_Signal * length dst \<Longrightarrow>
   \<exists>res. copy_signals n src dst = Some res"
  by (auto simp: copy_signals_def Let_def)

lemma copy_signals_cases:
  assumes "copy_signals n src dst = Some res"
  obtains (whole) "n mod sizeof_Signal = 0" "n div sizeof_Signal \<le> length src"
      "n div sizeof_Signal \<le> length dst"
      "res = take (n div sizeof_Signal) src @ drop (n div sizeof_Signal) dst"
  | (part) x where "n mod sizeof_Signal \<noteq> 0" "n div sizeof_Signal < length src"
      "n div sizeof_Signal < length dst"
      "res = take (n div sizeof_Signal) src @ [x] @ drop (n div sizeof_Signal + 1) dst"
proof -
  define k r where "k = n div sizeof_Signal" and "r = n mod sizeof_Signal"
  have n: "n = 16 * k + r" by (simp add: k_def r_def sizeof_Signal_def)
  have le: "n \<le> 16 * length src" "n \<le> 16 * length dst"
    using assms by (auto simp: copy_signals_def Let_def sizeof_Signal_def split: if_splits)
  have res: "r = 0 \<and> res = take k src @ drop k dst \<or>
      r \<noteq> 0 \<and> (\<exists>x. res = take k src @ [x] @ drop (k + 1) dst)"
    using assms by (auto simp: copy_signals_def Let_def k_def [symmetric] r_def [symmetric] split: if_splits)
  show thesis
  proof (cases "r = 0")
    case True
    then have "k \<le> length src" "k \<le> length dst" using le unfolding n by linarith+
    then show thesis using whole res True by (simp add: k_def r_def)
  next
    case False
    then have "k < length src" "k < length dst" using le unfolding n by linarith+
    then show thesis using part res False by (auto simp: k_def r_def)
  qed
qed

lemma copy_signals_nth:
  assumes "copy_signals n src dst = Some res"
  shows "length res = length dst"
    "\<And>i. i < n div sizeof_Signal \<Longrightarrow> res ! i = src ! i"
    "\<And>i. n div sizeof_Signal < i \<Longrightarrow> i < length dst \<Longrightarrow> res ! i = dst ! i"
  by (cases rule: copy_signals_cases [OF assms]; simp add: nth_append)+

text \<open>
  A buffer whose read index is below its write index holds its queue in one piece, at the
  indices between the two.
\<close>

lemma contents_unwrapped:
  assumes ok: "buf_ok d" and bc: "buffercondition d"
  shows "contents d = map (\<lambda>i. (store d ! i, sig (signal d ! i)))
    [unat (pt_a (read_pt d))..<unat (pt_a (write_pt d))]"
proof -
  let ?c = "unat (max_cap d)"
  let ?ar = "unat (pt_a (read_pt d))" and ?aw = "unat (pt_a (write_pt d))"
  have lt: "?ar < ?aw" "?aw < ?c"
    using bc buf_ok_index(2) [OF ok] by (simp_all add: buffercondition_def Pointer_val_def word_less_nat_alt)
  let ?wr = "unat (pt_wrap_a (read_pt d))" and ?ww = "unat (pt_wrap_a (write_pt d))"
  have R: "pointer_pos (read_pt d) = ?wr * ?c + ?ar" and W: "pointer_pos (write_pt d) = ?ww * ?c + ?aw"
    using ok by (simp_all add: pointer_pos_def buf_ok_def)
  have le: "?wr * ?c + ?ar \<le> ?ww * ?c + ?aw" "?ww * ?c + ?aw \<le> ?wr * ?c + ?ar + ?c"
    using ok by (simp_all add: buf_ok_def R W)
  have "\<not> ?ww < ?wr"
  proof
    assume "?ww < ?wr"
    then have "Suc ?ww * ?c \<le> ?wr * ?c" by (intro mult_le_mono1) simp
    with le(1) lt show False by simp
  qed
  moreover have "\<not> ?wr < ?ww"
  proof
    assume "?wr < ?ww"
    then have "Suc ?wr * ?c \<le> ?ww * ?c" by (intro mult_le_mono1) simp
    with le(2) lt show False by simp
  qed
  ultimately have eq: "?ww = ?wr" by simp
  have ix: "(?wr * ?c + (?ar + i)) mod ?c = ?ar + i" if "i < ?aw - ?ar" for i
    by (rule ring_pos_mod) (use that lt in linarith)
  show ?thesis
    unfolding contents_def R W eq
    by (rule nth_equalityI) (use lt ix in \<open>simp_all add: data_slot_def add.assoc\<close>)
qed

text \<open>The copy: capacity and pointers of the new buffer, the values of the old one.\<close>

lemma copyFrom_result:
  assumes ok: "buf_ok d" and sg: "signals_ok d" and sz: "sizes_ok sz d" "sz \<noteq> 0" "sz \<le> 16"
    and ext: "\<not> external_alloc d" and bc: "buffercondition d"
    and new: "Data_new True True sz n = (Inr e :: fault + 'a data)" "max_cap d \<le> n" "unat sz * unat n < 2 ^ 64"
  obtains f where "copyFrom e d = Inr f" "buf_ok f" "signals_ok f" "max_cap f = n"
    "map fst (contents f) = map fst (contents d)"
    "write_pt f = Pointer_copy (write_pt d) n" "read_pt f = Pointer_copy (read_pt d) n"
    "is_valid f = is_valid d" "\<not> external_alloc f"
    "\<And>i. i < unat sz * unat (max_cap d) div 16 \<Longrightarrow> signal f ! i = signal d ! i"
    "\<And>i. unat sz * unat (max_cap d) div 16 < i \<Longrightarrow> i < unat n \<Longrightarrow> signal f ! i = Signal_new"
proof -
  let ?c = "unat (max_cap d)"
  have n0: "n \<noteq> 0" using buf_ok_cap_pos [OF ok] new(2) by (auto simp: word_le_nat_alt)
  note nd = Data_new_ok [OF new(1) n0 sz(2) new(3)]
  have cn: "?c \<le> unat n" using new(2) by (simp add: word_le_nat_alt)
  have s16: "unat sz \<le> 16" using sz(3) by (simp add: word_le_nat_alt)
  have len: "length (store d) = ?c" "length (signal d) = ?c" "length (store e) = unat n" "length (signal e) = unat n"
    using ok sg nd by (simp_all add: buf_ok_def signals_ok_def)
  have raw: "signal e = replicate (unat n) Signal_new"
    using new(1) by (auto simp: Data_new_def Let_def)
  have st: "copy_store e d = Some (store d @ drop ?c (store e))"
    using sizes_ok_unat(1) [OF sz(1)] nd(7) cn len by (simp add: copy_store_def word_le_nat_alt)
  have "unat sz * ?c \<le> 16 * ?c" "unat sz * ?c \<le> 16 * unat n"
    using s16 cn by (simp_all add: mult_le_mono)
  then obtain cs where cs: "copy_signals (unat (length_signal d)) (signal d) (signal e) = Some cs"
    using sizes_ok_unat(2) [OF sz(1)] len
      copy_signals_defined [of "unat (length_signal d)" "signal d" "signal e"]
    by (auto simp: sizeof_Signal_def)
  note nth = copy_signals_nth [OF cs]
  let ?f = "e\<lparr>read_pt := Pointer_copy (read_pt d) (max_cap e), write_pt := Pointer_copy (write_pt d) (max_cap e),
      is_valid := is_valid d, store := store d @ drop ?c (store e), signal := cs,
      read_stats := read_stats d, write_stats := write_stats d, force_resize := force_resize d,
      thread_access_0 := thread_access_0 d, thread_access_1 := thread_access_1 d\<rparr>"
  have cf: "copyFrom e d = Inr ?f" using ext st cs by (simp add: copyFrom_def)
  have ix: "unat (pt_a (read_pt d)) < unat (pt_a (write_pt d))" "unat (pt_a (write_pt d)) < ?c"
    using bc buf_ok_index(2) [OF ok] by (simp_all add: buffercondition_def Pointer_val_def word_less_nat_alt)
  have pts: "pointer_ok (read_pt d)" "pointer_ok (write_pt d)" "pt_max_cap (read_pt d) = max_cap d"
    "pt_max_cap (write_pt d) = max_cap d" using ok by (simp_all add: buf_ok_def)
  have okf: "buf_ok ?f"
    using n0 pts new(2) ix cn len ok
    by (simp add: buf_ok_def nd(4) Pointer_copy_ok Pointer_copy_pos)
  have bcf: "buffercondition ?f"
    using bc by (simp add: buffercondition_def Pointer_val_def)
  have "map fst (contents ?f) = map fst (contents d)"
    unfolding contents_unwrapped [OF okf bcf] contents_unwrapped [OF ok bc]
    using ix len by (simp add: nth_append)
  moreover have "signals_ok ?f" using nth(1) len by (simp add: signals_ok_def nd(4))
  ultimately show thesis
    using that [OF cf okf] nth len raw sizes_ok_unat(2) [OF sz(1)] nd(4,6)
    by (simp add: sizeof_Signal_def)
qed

section \<open>RingBuffer::resize\<close>

text \<open>The state in which the resizing loop may copy a queue of elements of sz bytes.\<close>

definition resize_ready :: "u64 \<Rightarrow> 'a fifo \<Rightarrow> bool" where
  "resize_ready sz s \<longleftrightarrow>
     sz \<noteq> 0 \<and> sizes_ok sz (buffer s) \<and> is_resizeable s \<and> \<not> is_invalid s \<and>
     \<not> external_alloc (buffer s) \<and> allclear s \<and> buffercondition (buffer s)"

lemma resize_result:
  assumes ok: "fifo_ok s" and ready: "resize_ready sz s" and small: "sz \<le> 16"
    and n: "capacity s \<le> n" "unat sz * unat n < 2 ^ 64"
  obtains t where "RingBuffer_resize True True sz n new_id False s = Returned () t"
    "buf_ok (buffer t)" "signals_ok (buffer t)" "cap t = unat n" "map fst (queue t) = map fst (queue s)"
    "buffer_id t = new_id" "write_stats_ptr t = buffer_id s" "read_stats_ptr t = buffer_id s"
    "\<not> resizing t" "is_invalid t = is_invalid s" "length (queue t) = length (queue s)"
    "\<And>k. k < length (queue s) \<Longrightarrow>
       unat (pt_a (read_pt (buffer s))) + k < unat sz * cap s div 16 \<Longrightarrow> queue t ! k = queue s ! k"
    "\<And>k. k < length (queue s) \<Longrightarrow>
       unat sz * cap s div 16 < unat (pt_a (read_pt (buffer s))) + k \<Longrightarrow>
       queue t ! k = (fst (queue s ! k), sig_none)"
proof -
  let ?d = "buffer s"
  have d: "buf_ok ?d" "signals_ok ?d" "sizes_ok sz ?d" "sz \<noteq> 0" "\<not> external_alloc ?d"
    "buffercondition ?d" "allclear s" "is_valid ?d" "is_resizeable s" "max_cap ?d \<le> n"
    "write_stats_ptr s = buffer_id s" "read_stats_ptr s = buffer_id s"
    using ok ready n(1) by (simp_all add: fifo_ok_def resize_ready_def is_invalid_def capacity_def)
  obtain e where e: "Data_new True True sz n = (Inr e :: fault + 'a data)"
    by (auto simp: Data_new_def Let_def)
  obtain f where f: "copyFrom e ?d = Inr f" "buf_ok f" "signals_ok f" "max_cap f = n"
    "map fst (contents f) = map fst (contents ?d)"
    "write_pt f = Pointer_copy (write_pt ?d) n" "read_pt f = Pointer_copy (read_pt ?d) n"
    "is_valid f = is_valid ?d" "\<not> external_alloc f"
    "\<And>i. i < unat sz * unat (max_cap ?d) div 16 \<Longrightarrow> signal f ! i = signal ?d ! i"
    "\<And>i. unat sz * unat (max_cap ?d) div 16 < i \<Longrightarrow> i < unat n \<Longrightarrow> signal f ! i = Signal_new"
    using copyFrom_result [OF d(1,2,3,4) small d(5,6) e d(10) n(2)] by blast
  let ?t = "(dm_set f new_id (s\<lparr>resizing := True\<rparr>))\<lparr>resizing := False\<rparr>"
  have clear: "allclear (s\<lparr>resizing := True\<rparr>)" using d(7) by (simp add: allclear_def)
  have res: "RingBuffer_resize True True sz n new_id False s = Returned () ?t"
    using d(6,8,9) e f(1) clear by (simp add: RingBuffer_resize_def resize_pass_def)
  have t: "buffer ?t = f" "buffer_id ?t = new_id" "write_stats_ptr ?t = buffer_id s"
    "read_stats_ptr ?t = buffer_id s" "\<not> resizing ?t" "is_invalid ?t = is_invalid s" "cap ?t = unat n"
    using f(4,8) d(11,12) by (simp_all add: dm_set_def is_invalid_def cap_def capacity_def)
  have vals: "map fst (queue ?t) = map fst (queue s)" using f(5) t(1) by (simp add: queue_def)
  then have len: "length (queue ?t) = length (queue s)" by (metis length_map)
  have bcf: "buffercondition f" using d(6) f(6,7) by (simp add: buffercondition_def Pointer_val_def)
  note qs = contents_unwrapped [OF d(1,6), folded queue_def]
  note qt = contents_unwrapped [OF f(2) bcf]
  let ?ar = "unat (pt_a (read_pt ?d))" and ?aw = "unat (pt_a (write_pt ?d))"
  have lens: "length (queue s) = ?aw - ?ar" by (simp add: qs)
  have aw: "?aw < unat (max_cap ?d)" by (rule buf_ok_index(2) [OF d(1)])
  have nthq: "queue ?t ! k = (fst (queue s ! k), sig (signal f ! (?ar + k)))"
    and nths: "queue s ! k = (fst (queue s ! k), sig (signal ?d ! (?ar + k)))"
    if "k < length (queue s)" for k
  proof -
    have "fst (queue ?t ! k) = fst (queue s ! k)"
      using vals that len by (metis nth_map)
    then show "queue ?t ! k = (fst (queue s ! k), sig (signal f ! (?ar + k)))"
      using that lens f(6,7) t(1) by (simp add: queue_def qt)
    show "queue s ! k = (fst (queue s ! k), sig (signal ?d ! (?ar + k)))"
      using that lens by (simp add: qs)
  qed
  have keep: "queue ?t ! k = queue s ! k"
    if "k < length (queue s)" "?ar + k < unat sz * cap s div 16" for k
    using nthq [OF that(1)] nths [OF that(1)] f(10) [of "?ar + k"] that(2) by (simp add: cap_def capacity_def)
  have lose: "queue ?t ! k = (fst (queue s ! k), sig_none)"
    if "k < length (queue s)" "unat sz * cap s div 16 < ?ar + k" for k
  proof -
    have "?ar + k < unat n" using that(1) lens aw d(10) by (simp add: word_le_nat_alt)
    then show ?thesis
      using nthq [OF that(1)] f(11) [of "?ar + k"] that(2)
      by (simp add: cap_def capacity_def Signal_new_def)
  qed
  show thesis
    by (rule that [OF res _ _ t(7) vals t(2,3,4,5,6) len keep lose]) (use f(2,3) t(1) in simp_all)
qed

text \<open>After the statistics pointer has gone stale, a push dereferences it on every path.\<close>

lemma push_stale_stats:
  assumes "buf_ok (buffer t)" and "\<not> resizing t" and "write_stats_ptr t \<noteq> buffer_id t"
  shows "local_push (Some v) sg t = Fault UseAfterFree"
proof -
  let ?s1 = "enterBuffer dm_push t"
  have same: "same_queue t ?s1" by simp
  have ok: "buf_ok (buffer ?s1)" "\<not> resizing ?s1"
    using assms same_queue_buf_ok [OF same] same_queue_resizing [OF same] by simp_all
  obtain n where n: "space_avail ?s1 = Returned n ?s1" using space_avail_buf [OF ok] by blast
  have stale: "write_stats_ptr ?s1 \<noteq> buffer_id ?s1" using assms(3) same by (simp add: same_queue_def)
  have "write_index ?s1 < length (store (buffer ?s1))" by (rule slot_bounds(1) [OF ok(1)])
  then have "push_commit (Some v) sg ?s1 = Fault UseAfterFree"
    using stale by (simp add: push_commit_def Let_def write_slot_def wr_stats_def deref_def)
  moreover have "writer_wait dm_push ?s1 = (Fault UseAfterFree :: (unit, 'a fifo) outcome)"
    using stale same_queue_def [of ?s1 "exitBuffer dm_push ?s1"]
    by (simp add: writer_wait_def wr_stats_def deref_def)
  ultimately show ?thesis using n ok(2) by (simp add: local_push_def Let_def notResizing_def)
qed

text \<open>An element of more than sixteen bytes makes the copy of the signals overrun.\<close>

lemma resize_overrun:
  assumes ok: "fifo_ok s" and ready: "resize_ready sz s" and big: "16 < sz"
    and n: "unat sz * unat n < 2 ^ 64"
  shows "RingBuffer_resize True True sz n new_id False s = Fault OutOfRange"
proof -
  let ?d = "buffer s"
  have d: "signals_ok ?d" "sizes_ok sz ?d" "\<not> external_alloc ?d" "is_resizeable s" "is_valid ?d"
    "0 < unat (max_cap ?d)" "allclear (s\<lparr>resizing := True\<rparr>)" "buffercondition ?d"
    using ok ready buf_ok_cap_pos [OF fifo_ok_buf [OF ok]]
    by (simp_all add: fifo_ok_def resize_ready_def is_invalid_def allclear_def)
  obtain e where e: "Data_new True True sz n = (Inr e :: fault + 'a data)"
    by (auto simp: Data_new_def Let_def)
  have "16 < unat sz" using big by (simp add: word_less_nat_alt)
  then have "16 * length (signal ?d) < unat (length_signal ?d)"
    using d(1,6) sizes_ok_unat(2) [OF d(2)] by (simp add: signals_ok_def)
  then have "copy_signals (unat (length_signal ?d)) (signal ?d) (signal e) = None"
    by (simp add: copy_signals_def Let_def sizeof_Signal_def)
  then have "copyFrom e ?d = Inl OutOfRange"
    using d(3) by (auto simp: copyFrom_def split: option.splits)
  then show ?thesis
    using d(4,5,7,8) e by (simp add: RingBuffer_resize_def resize_pass_def)
qed

end
