(* ===== verification/Ring_Props.thy ===== *)
theory Ring_Props
  imports Ring_Resize
begin

text \<open>
  The properties of the ring buffer, over the model's own operations, each with an
  application at a concrete queue.
\<close>

section \<open>Concrete queues\<close>

definition fresh :: "u64 \<Rightarrow> nat fifo" where
  "fresh sz = (case RingBuffer_new True True sz 4 0 of Inr s \<Rightarrow> s | Inl f \<Rightarrow> fifo_blank (DataBase_new sz 4) 0)"

fun push_all :: "('a \<times> signal) list \<Rightarrow> 'a fifo \<Rightarrow> 'a fifo" where
  "push_all [] s = s"
| "push_all (e # es) s = (case push_elem e s of Returned _ t \<Rightarrow> push_all es t | _ \<Rightarrow> s)"

lemma push_all_elems:
  assumes "ring_inv s" and "length es \<le> cap s - length (elems s)" and "length es < room s"
  shows "ring_inv (push_all es s) \<and> elems (push_all es s) = elems s @ es \<and>
    cap (push_all es s) = cap s \<and> room (push_all es s) = room s - length es"
  using assms
proof (induction es arbitrary: s)
  case (Cons e es)
  then have "length (elems s) < cap s" "0 < room s" by simp_all
  then obtain t where t: "push_elem e s = Returned () t" "ring_inv t" "elems t = elems s @ [e]"
    "cap t = cap s" "room t = room s - 1"
    using push_elem_accepts [OF Cons.prems(1), of e] by blast
  show ?case using Cons.IH [OF t(2)] Cons.prems t by simp
qed simp

lemma fresh_ok:
  assumes "sz \<noteq> 0" and "unat sz * 4 < 2 ^ 64"
  shows "RingBuffer_new True True sz 4 0 = Inr (fresh sz)" "ring_inv (fresh sz)" "elems (fresh sz) = []"
    "cap (fresh sz) = 4" "room (fresh sz) = 2 ^ 64 * 4 - 4" "\<not> is_invalid (fresh sz)"
proof -
  obtain s :: "nat fifo" where "RingBuffer_new True True sz 4 0 = Inr s" "ring_inv s" "elems s = []"
    "cap s = 4" "room s = 2 ^ 64 * 4 - 4" "\<not> is_invalid s"
    by (rule RingBuffer_new_ok [of 4 sz 0]) (use assms in simp_all)
  then show "RingBuffer_new True True sz 4 0 = Inr (fresh sz)" "ring_inv (fresh sz)" "elems (fresh sz) = []"
    "cap (fresh sz) = 4" "room (fresh sz) = 2 ^ 64 * 4 - 4" "\<not> is_invalid (fresh sz)"
    by (auto simp: fresh_def)
qed

text \<open>A queue of capacity four that holds two elements, the second with a signal.\<close>

definition two :: "u64 \<Rightarrow> nat fifo" where
  "two sz = push_all [(7, sig_none), (8, sig_eof)] (fresh sz)"

lemma two_ok:
  assumes "sz \<noteq> 0" and "unat sz * 4 < 2 ^ 64"
  shows "ring_inv (two sz)" "elems (two sz) = [(7, sig_none), (8, sig_eof)]" "cap (two sz) = 4"
    "room (two sz) = 2 ^ 64 * 4 - 6"
  using push_all_elems [of "fresh sz" "[(7, sig_none), (8, sig_eof)]"] fresh_ok [OF assms]
  by (simp_all add: two_def)


lemma two_ready:
  "resize_ready 8 (two 8)" "resize_ready 16 (two 16)" "resize_ready 32 (two 32)"
proof -
  have sizes: "max_cap (buffer (two 8)) = 4 \<and> max_cap (buffer (two 16)) = 4 \<and> max_cap (buffer (two 32)) = 4"
    "length_store (buffer (two 8)) = 32 \<and> length_store (buffer (two 16)) = 64 \<and> length_store (buffer (two 32)) = 128"
    "length_signal (buffer (two 8)) = 32 \<and> length_signal (buffer (two 16)) = 64 \<and> length_signal (buffer (two 32)) = 128"
    by code_simp+
  have "sizes_ok 8 (buffer (two 8))" "sizes_ok 16 (buffer (two 16))" "sizes_ok 32 (buffer (two 32))"
    using sizes by (simp_all add: sizes_ok_def)
  moreover have "is_resizeable (two 8) \<and> is_resizeable (two 16) \<and> is_resizeable (two 32)"
    "\<not> is_invalid (two 8) \<and> \<not> is_invalid (two 16) \<and> \<not> is_invalid (two 32)"
    "\<not> external_alloc (buffer (two 8)) \<and> \<not> external_alloc (buffer (two 16)) \<and> \<not> external_alloc (buffer (two 32))"
    "allclear (two 8) \<and> allclear (two 16) \<and> allclear (two 32)"
    "buffercondition (buffer (two 8)) \<and> buffercondition (buffer (two 16)) \<and> buffercondition (buffer (two 32))"
    by code_simp+
  ultimately show "resize_ready 8 (two 8)" "resize_ready 16 (two 16)" "resize_ready 32 (two 32)"
    by (simp_all add: resize_ready_def)
qed

section \<open>Size, order and loss\<close>

text \<open>
  C24: size() and space_avail() are exact.  On a well-formed queue that is not being
  resized, size() returns the number of elements held, for every combination of indices and
  wrap counters (the full and the empty queue, whose indices agree, included), and
  space_avail() the rest of the capacity; neither changes the state.
\<close>

theorem ring_size_exact:
  assumes "fifo_ok s" and "\<not> resizing s"
  shows "\<exists>n k. fifo_size s = Returned n s \<and> space_avail s = Returned k s \<and>
    unat n = length (queue s) \<and> unat n + unat k = unat (capacity s)"
proof -
  obtain n where n: "fifo_size s = Returned n s" "unat n = length (queue s)"
    using size_known assms by blast
  obtain k where k: "space_avail s = Returned k s" "unat k = cap s - length (queue s)"
    using space_avail_buf fifo_ok_buf assms by blast
  have "unat n + unat k = unat (capacity s)"
    using n(2) k(2) fifo_ok_queue_le [OF assms(1)] by (simp add: cap_def)
  with n k show ?thesis by blast
qed

theorem ring_size_exact_witness:
  "\<exists>n k. fifo_size (two 16) = Returned n (two 16) \<and> space_avail (two 16) = Returned k (two 16) \<and>
    unat n = length (queue (two 16)) \<and> unat n + unat k = unat (capacity (two 16))"
  using ring_size_exact [of "two 16"] two_ok(1) [of 16] by (simp add: ring_inv_def)

text \<open>
  C4: a new queue implements the list specification.  Whatever passes of push and pop a
  producer and a consumer make (blocked and throwing ones included), a queue created with
  capacity n accepts, hands out and finally holds exactly what a list bounded by n does,
  and no pass has undefined behaviour, as long as fewer than 2^64 * n - n passes are made.
\<close>

theorem ring_refines_list:
  fixes s :: "'a fifo"
  assumes "RingBuffer_new True True sz n i = Inr s" and "n \<noteq> 0" and "sz \<noteq> 0"
    and "unat sz * unat n < 2 ^ 64" and "length ops < 2 ^ 64 * unat n - unat n"
    and "spec_run (unat n) ops [] = (acc, out, q)"
  shows "\<exists>t. run_ops push_elem (pop_elem kind) ops s = Some (acc, out, t) \<and> elems t = q"
proof -
  obtain u :: "'a fifo" where u: "RingBuffer_new True True sz n i = Inr u" "ring_inv u" "elems u = []"
    "cap u = unat n" "room u = 2 ^ 64 * unat n - unat n"
    by (rule RingBuffer_new_ok [OF assms(2,3,4), of i])
  then have "u = s" using assms(1) by simp
  then show ?thesis
    using ring.run_refines [of s ops acc out q kind] u assms(5,6) by auto
qed

theorem ring_refines_list_witness:
  "\<exists>t. run_ops push_elem (pop_elem Inline_class)
      [Enq (1, 0), Enq (2, 0), Enq (3, 0), Enq (4, 0), Enq (5, 0), Deq, Enq (6, 0), Deq] (fresh 16) =
      Some ([(1, 0), (2, 0), (3, 0), (4, 0), (6, 0)], [(1, 0), (2, 0)], t) \<and>
    elems t = [(3, 0), (4, 0), (6, 0)]"
  using ring_refines_list [of 16 4 0 "fresh 16" "[Enq (1, 0), Enq (2, 0), Enq (3, 0), Enq (4, 0), Enq (5, 0), Deq, Enq (6, 0), Deq]"
      "[(1, 0), (2, 0), (3, 0), (4, 0), (6, 0)]" "[(1, 0), (2, 0)]" "[(3, 0), (4, 0), (6, 0)]" Inline_class]
    fresh_ok(1) [of 16] by simp

text \<open>
  Fact: first in, first out, without loss or invention.  From any well-formed state, over any
  sequence of passes of push and pop, what was in the queue followed by what was accepted
  is what was handed out followed by what is still there; values keep their signals, and
  the queue never holds more than its capacity.
\<close>

theorem ring_fifo_order:
  assumes "ring_inv s" and "length ops < room s"
  shows "\<exists>acc out t. run_ops push_elem (pop_elem kind) ops s = Some (acc, out, t) \<and>
    elems s @ acc = out @ elems t \<and> length (elems t) \<le> cap s"
  using ring.run_fifo [OF assms, of kind] by blast

theorem ring_fifo_order_witness:
  "\<exists>acc out t. run_ops push_elem (pop_elem Inline_nonclass) [Deq, Enq (9, 3), Deq, Deq, Deq] (two 16) =
      Some (acc, out, t) \<and>
    elems (two 16) @ acc = out @ elems t \<and> length (elems t) \<le> cap (two 16)"
  using ring_fifo_order [of "two 16" "[Deq, Enq (9, 3), Deq, Deq, Deq]" Inline_nonclass] two_ok [of 16] by simp

text \<open>
  C22: a closed stream drains.  After invalidate(), a reader that keeps popping gets
  every element that was in the queue, in order, and only then ClosedPortAccess.
\<close>

theorem closed_stream_drains:
  assumes "ring_inv s" and "0 < room s"
  shows "\<exists>t. drain (pop_elem kind) (Suc (length (elems s))) (invalidate s) =
    (elems s, Raised ClosedPortAccess t)"
  using ring.close_then_drain [OF assms] by blast

theorem closed_stream_drains_witness:
  "\<exists>t. drain (pop_elem Inline_class) (Suc (length (elems (two 16)))) (invalidate (two 16)) =
    (elems (two 16), Raised ClosedPortAccess t)"
  by (rule closed_stream_drains) (simp_all add: two_ok)

section \<open>Blocking\<close>

text \<open>
  Fact: a push on a full queue, or on one that is being resized, does not write.  Its pass
  yields with the queue as it was; a push on a queue with space always completes.
\<close>

theorem push_waits_exactly_when_full:
  assumes "fifo_ok s" and "0 < room s"
  shows "(\<exists>t. local_push (Some v) sg s = Spin t \<and> queue t = queue s \<and> fifo_ok t) \<longleftrightarrow>
    resizing s \<or> length (queue s) = unat (capacity s)"
proof (cases "resizing s \<or> length (queue s) = cap s")
  case True
  obtain t where "local_push (Some v) sg s = Spin t" "same_queue s t"
    using local_push_cases(1) [OF assms(1) True] by blast
  with True show ?thesis using same_queue_simps assms(1) by (auto simp: cap_def)
next
  case False
  then have "length (queue s) < cap s" using fifo_ok_queue_le [OF assms(1)] by simp
  then obtain t where "local_push (Some v) sg s = Returned () t"
    using local_push_fits [of s v sg] False assms by metis
  with False show ?thesis by (simp add: cap_def)
qed

theorem push_waits_exactly_when_full_witness:
  "(\<exists>t. local_push (Some 3) 0 (two 16) = Spin t \<and> queue t = queue (two 16) \<and> fifo_ok t) \<longleftrightarrow>
    resizing (two 16) \<or> length (queue (two 16)) = unat (capacity (two 16))"
  using push_waits_exactly_when_full [of "two 16" 3 0] two_ok(1,4) [of 16] by (simp add: ring_inv_def)

text \<open>
  Fact: a reader waiting in pop() keeps the buffer entered.  The pass of local_pop that finds
  an open queue empty yields without clearing its flag, so the resizing loop finds the
  buffer in use for as long as the reader waits.
\<close>

theorem waiting_pop_blocks_resize:
  assumes "fifo_ok s" and "\<not> resizing s" and "queue s = []" and "\<not> is_invalid s"
  shows "\<exists>t. local_pop kind True w s = Spin t \<and> \<not> allclear t \<and>
    (\<forall>d i. resize_pass d i False t = Spin t)"
proof -
  let ?t = "enterBuffer dm_pop s"
  have "local_pop kind True w s = Spin ?t"
    using local_pop_empty [OF assms(1,2,3)] assms(4) by simp
  moreover have "length (flag (thread_access_1 (buffer s))) = 8"
    using assms(1) by (simp add: fifo_ok_def buf_ok_def)
  then have busy: "\<not> allclear ?t"
    using ThreadAccess_not_idle [of "thread_access_1 (buffer s)" 1 dm_pop]
    by (simp add: allclear_def enterBuffer_def set_helper_def)
  moreover have "resize_pass d i False ?t = Spin ?t" for d i
  proof -
    have "\<not> allclear (?t\<lparr>resizing := True\<rparr>)" using busy by (simp add: allclear_def)
    moreover have "is_valid (buffer ?t)" "\<not> resizing ?t"
      using assms(2,4) same_queue_invalid [of s ?t] same_queue_resizing [of s ?t]
      by (simp_all add: is_invalid_def)
    ultimately show ?thesis by (simp add: resize_pass_def Let_def)
  qed
  ultimately show ?thesis by blast
qed

theorem waiting_pop_blocks_resize_witness:
  "\<exists>t. local_pop Inline_nonclass True True (fresh 16) = Spin t \<and> \<not> allclear t \<and>
    (\<forall>d i. resize_pass d i False t = Spin t)"
  using waiting_pop_blocks_resize [of "fresh 16" Inline_nonclass True] fresh_ok [of 16]
  by (simp add: ring_inv_def elems_def)

text \<open>
  Fact: a range larger than the queue is never granted on an empty queue.  A producer that
  asks allocate_range for more than the capacity waits and requests a larger buffer; but
  the resizing loop copies only when the read index is below the write index, so on an
  empty queue every pass of either side yields and leaves the capacity as it is.
\<close>

theorem oversized_range_livelocks:
  assumes "fifo_ok s" and "\<not> resizing s" and "queue s = []" and "\<not> is_invalid s" and "capacity s < n"
  shows "\<exists>t. (local_allocate_n Inline_nonclass n s :: (nat list, 'a fifo) outcome) = Spin t \<and>
    get_suggested_count t = n \<and> queue t = [] \<and> capacity t = capacity s \<and>
    (\<forall>d i. \<exists>u. resize_pass d i False t = Spin u \<and> queue u = [] \<and> capacity u = capacity s)"
proof -
  let ?E = "enterBuffer dm_allocate_range s"
  let ?F = "upd_buffer (\<lambda>d. d\<lparr>force_resize := n\<rparr>) ?E"
  have same: "same_queue s ?E" by simp
  have same2: "same_queue ?E ?F" by (simp add: same_queue_def)
  have sameF: "same_queue s ?F" by (rule same_queue_trans [OF same same2])
  note E = same_queue_simps [OF same]
  obtain k where k: "space_avail ?E = Returned k ?E" "unat k = cap ?E - length (queue ?E)"
    using space_avail_buf [of ?E] assms(1,2) E fifo_ok_buf by metis
  have "\<not> n \<le> k"
    using k(2) assms(5) E by (simp add: cap_def word_le_nat_alt word_less_nat_alt)
  have capE: "capacity ?E < n" using assms(5) same by (simp add: capacity_def same_queue_def)
  have "write_stats_ptr ?F = buffer_id ?F" using assms(1) sameF by (simp add: fifo_ok_def same_queue_def)
  then obtain t where t: "writer_wait dm_allocate_range ?F = (Spin t :: (nat list, 'a fifo) outcome)"
    "same_queue ?F t"
    using writer_wait_spin by metis
  have "force_resize (buffer t) = n"
    using t(1) by (auto simp: writer_wait_def deref_def wr_stats_def exitBuffer_def set_helper_def split: if_splits)
  moreover have "local_allocate_n Inline_nonclass n s = Spin t"
    using k(1) \<open>\<not> n \<le> k\<close> capE t(1) assms(2) E
    by (simp add: local_allocate_n_def Let_def notResizing_def allocate_n_wait_def)
  moreover have st: "same_queue s t" by (rule same_queue_trans [OF sameF t(2)])
  have qt: "queue t = []" "capacity t = capacity s" "\<not> is_invalid t" "buf_ok (buffer t)"
    using same_queue_simps [OF st] assms(1,3,4) st fifo_ok_buf by (auto simp: capacity_def same_queue_def)
  have "\<not> buffercondition (buffer t)"
    using contents_unwrapped [OF qt(4)] qt(1)
    by (auto simp: buffercondition_def Pointer_val_def word_less_nat_alt queue_def)
  then have "\<exists>u. resize_pass d i False t = Spin u \<and> queue u = [] \<and> capacity u = capacity s" for d i
    using qt by (auto simp: resize_pass_def is_invalid_def queue_def capacity_def)
  ultimately show ?thesis using qt by (auto simp: get_suggested_count_def)
qed

theorem oversized_range_livelocks_witness:
  "\<exists>t. (local_allocate_n Inline_nonclass 9 (fresh 16) :: (nat list, nat fifo) outcome) = Spin t \<and>
    get_suggested_count t = 9 \<and> queue t = [] \<and> capacity t = capacity (fresh 16) \<and>
    (\<forall>d i. \<exists>u. resize_pass d i False t = Spin u \<and> queue u = [] \<and> capacity u = capacity (fresh 16))"
  using oversized_range_livelocks [of "fresh 16" 9] fresh_ok [of 16]
  by (simp add: ring_inv_def elems_def cap_def word_less_nat_alt)

end
