(* ===== verification/Ring_Props2.thy ===== *)
theory Ring_Props2
  imports Ring_Props
begin

text \<open>
  The properties of the range operations of a ring buffer, of resizing it, and of a queue
  over memory the user owns.
\<close>

section \<open>Ranges\<close>

text \<open>
  Fact: recycle(n) drops exactly the n oldest elements; a closed queue with fewer gives up
  all it has and recycle returns; an open one makes it wait for the rest.
\<close>

theorem recycle_drops_range:
  assumes "ring_inv s" and "0 < room s"
  shows "\<exists>t. local_recycle kind n s =
      (if n \<le> length (elems s) then Returned () (0, t)
       else if is_invalid s then Returned () (n - length (elems s), t)
       else Spin (n - length (elems s), t)) \<and>
    ring_inv t \<and> elems t = drop n (elems s)"
proof -
  obtain t where t: "local_recycle kind n s =
      (if n \<le> length (queue s) then Returned () (0, t)
       else if is_invalid s then Returned () (n - length (queue s), t)
       else Spin (n - length (queue s), t))"
    "fifo_ok t" "queue t = drop n (queue s)" "\<not> resizing t"
    using local_recycle_drop [of s kind n] assms by (auto simp: ring_inv_def)
  have "live t" using assms(1) t(3) by (auto simp: ring_inv_def live_def dest: in_set_dropD)
  with t show ?thesis by (auto simp: ring_inv_def elems_def drop_map)
qed

theorem recycle_drops_range_witness:
  "\<exists>t. local_recycle Inline_class 1 (two 16) =
      (if 1 \<le> length (elems (two 16)) then Returned () (0, t)
       else if is_invalid (two 16) then Returned () (1 - length (elems (two 16)), t)
       else Spin (1 - length (elems (two 16)), t)) \<and>
    ring_inv t \<and> elems t = drop 1 (elems (two 16))"
  using recycle_drops_range [of "two 16" Inline_class 1] two_ok [of 16] by simp

text \<open>
  Fact: insert appends a range in order, the signal on its last element.  With space for all
  of it the call returns; otherwise exactly as many elements as fit are appended and the
  call waits with the others.
\<close>

theorem insert_appends_range:
  assumes "ring_inv s" and "length xs \<le> room s"
  shows "\<exists>t. local_insert xs sg s =
      (if length xs \<le> cap s - length (queue s) then Returned () ([], t)
       else Spin (drop (cap s - length (queue s)) xs, t)) \<and>
    fifo_ok t \<and> queue t = queue s @ take (cap s - length (queue s)) (with_last_signal xs sg)"
  using local_insert_appends [of s xs sg] assms by (auto simp: ring_inv_def)

theorem insert_appends_range_witness:
  "\<exists>t. local_insert [1, 2, 3] 5 (two 16) =
      (if length [1, 2, 3 :: nat] \<le> cap (two 16) - length (queue (two 16)) then Returned () ([], t)
       else Spin (drop (cap (two 16) - length (queue (two 16))) [1, 2, 3], t)) \<and>
    fifo_ok t \<and> queue t = queue (two 16) @
      take (cap (two 16) - length (queue (two 16))) (with_last_signal [1, 2, 3] 5)"
  by (rule insert_appends_range) (simp_all add: two_ok)

text \<open>
  Fact: pop_range hands out the oldest elements with their signals.  With enough elements
  it returns exactly the first n; on a closed queue with fewer it throws, with the pairs
  that were there already read.
\<close>

theorem pop_range_takes:
  assumes "ring_inv s" and "0 < room s"
  shows "\<exists>t. local_pop_range kind n [] s =
      (if n \<le> length (queue s) then Returned (take n (queue s)) (rev (take n (queue s)), t)
       else if is_invalid s then Raised ClosedPortAccess (rev (queue s), t)
       else Spin (rev (queue s), t)) \<and>
    fifo_ok t \<and> queue t = drop n (queue s)"
  using local_pop_range_takes [of s kind n "[]"] assms by (auto simp: ring_inv_def)

theorem pop_range_takes_witness:
  "\<exists>t. local_pop_range Inline_nonclass 2 [] (two 16) =
      (if 2 \<le> length (queue (two 16)) then Returned (take 2 (queue (two 16))) (rev (take 2 (queue (two 16))), t)
       else if is_invalid (two 16) then Raised ClosedPortAccess (rev (queue (two 16)), t)
       else Spin (rev (queue (two 16)), t)) \<and>
    fifo_ok t \<and> queue t = drop 2 (queue (two 16))"
  by (rule pop_range_takes) (simp_all add: two_ok)

text \<open>
  Fact: allocate followed by send is a push.  While a producer fills the slot it was given
  the reader's queue does not change; send makes the element visible at the end, with its
  signal, and closes the allocation.
\<close>

theorem allocate_send_is_push:
  assumes "ring_inv s" and "length (queue s) < cap s" and "0 < room s"
  shows "\<exists>t u. fifo_allocate v s = Returned (write_index s) t \<and> queue t = queue s \<and>
    send sg t = Returned () u \<and> ring_inv u \<and> elems u = elems s @ [(v, sg)] \<and> \<not> allocate_called u"
proof -
  have ok: "fifo_ok s" "\<not> resizing s" "live s" using assms(1) by (simp_all add: ring_inv_def)
  obtain t u where tu: "fifo_allocate v s = Returned (write_index s) t" "queue t = queue s"
    "send sg t = Returned () u" "wrote s (Some v) sg u" "\<not> allocate_called u"
    using fifo_allocate_send [OF ok(1,2) assms(2), of v sg] by auto
  note w = wrote_result [OF ok(1) assms(2,3) tu(4)]
  have "same_frame s u" using tu(4) by (simp add: wrote_def)
  then have "ring_inv u" using w ok same_frame_simps(3) by (auto simp: ring_inv_def live_def)
  with tu w show ?thesis by (auto simp: elems_def)
qed

theorem allocate_send_is_push_witness:
  "\<exists>t u. fifo_allocate 5 (two 16) = Returned (write_index (two 16)) t \<and> queue t = queue (two 16) \<and>
    send 3 t = Returned () u \<and> ring_inv u \<and> elems u = elems (two 16) @ [(5, 3)] \<and> \<not> allocate_called u"
  by (rule allocate_send_is_push) (use two_ok(1,2,3,4) [of 16] elems_length [of "two 16"] in simp_all)

text \<open>
  Fact: a range granted by allocate_range appears at once, in order, when it is sent: the n
  slots are distinct and unread, filling them changes nothing a reader sees, and send_range
  appends all n elements.  The signal goes with the first element of the range (where
  insert gives it to the last).
\<close>

theorem send_range_appends:
  assumes "ring_inv s" and "unat n \<le> cap s - length (queue s)" and "length vs = unat n"
    and "0 < unat n" and "unat n < 2 ^ 32" and "0 < room s" and "cap s \<le> 2 ^ 63"
  shows "\<exists>is t u w. local_allocate_n kind n s = Returned is t \<and> fill_slots is vs t = Some u \<and>
    queue u = queue s \<and> send_range sg u = Returned () w \<and> fifo_ok w \<and>
    queue w = queue s @ with_first_signal vs sg"
  using allocate_n_send_range [of s n vs kind sg] assms by (simp add: ring_inv_def)

theorem send_range_appends_witness:
  "\<exists>is t u w. local_allocate_n Inline_nonclass 2 (two 16) = Returned is t \<and> fill_slots is [5, 6] t = Some u \<and>
    queue u = queue (two 16) \<and> send_range 3 u = Returned () w \<and> fifo_ok w \<and>
    queue w = queue (two 16) @ with_first_signal [5, 6] 3"
  by (rule send_range_appends) (use two_ok(1,2,3,4) [of 16] elems_length [of "two 16"] in simp_all)

text \<open>
  Fact: peek shows what the next pop returns: the slot at the read pointer holds the value,
  and the signal is the one the pop delivers; the peek itself removes nothing.
\<close>

theorem peek_agrees_with_pop:
  assumes "ring_inv s" and "elems s = (v, sg) # q" and "0 < room s"
  shows "\<exists>i t u. local_peek True s = Returned (i, Some sg) t \<and> store (buffer t) ! i = Some v \<and>
    elems (unpeek t) = elems s \<and> pop_elem kind (unpeek t) = Returned (v, sg) u \<and> elems u = q"
proof -
  have ok: "fifo_ok s" "\<not> resizing s" using assms(1) by (simp_all add: ring_inv_def)
  have q: "queue s = (Some v, sg) # map (\<lambda>(v, sg). (Some v, sg)) q"
    using assms(1,2) live_queue_elems [of s] by (simp add: ring_inv_def)
  obtain t where t: "local_peek True s = Returned (read_index s, Some sg) t" "same_queue s t"
    "store (buffer t) ! read_index s = Some v"
    using local_peek_head [OF ok q, of True] by auto
  have u: "same_queue s (unpeek t)" unfolding unpeek_def by (rule same_queue_trans [OF t(2) exitBuffer_same])
  have "ring_inv (unpeek t)" "elems (unpeek t) = (v, sg) # q" "0 < room (unpeek t)"
    using same_queue_ring [OF u] same_queue_room [OF u] assms by simp_all
  with pop_elem_takes [of "unpeek t" "(v, sg)" q kind] t assms(2) show ?thesis by auto
qed

theorem peek_agrees_with_pop_witness:
  "\<exists>i t u. local_peek True (two 16) = Returned (i, Some sig_none) t \<and> store (buffer t) ! i = Some 7 \<and>
    elems (unpeek t) = elems (two 16) \<and> pop_elem Inline_class (unpeek t) = Returned (7, sig_none) u \<and>
    elems u = [(8, sig_eof)]"
  by (rule peek_agrees_with_pop) (simp_all add: two_ok)

section \<open>Resizing\<close>

text \<open>
  C21: resizing a queue keeps its elements.  For elements of the size of a Signal (16
  bytes) the queue in the larger buffer is the old one, values and signals; for smaller
  elements the values are the old ones.
\<close>

theorem resize_keeps_queue:
  assumes "fifo_ok s" and "resize_ready sz s" and "sz \<le> 16"
    and "capacity s \<le> n" and "unat sz * unat n < 2 ^ 64"
  shows "\<exists>t. RingBuffer_resize True True sz n new_id False s = Returned () t \<and>
    cap t = unat n \<and> map fst (queue t) = map fst (queue s) \<and> (sz = 16 \<longrightarrow> queue t = queue s)"
proof -
  obtain t where t: "RingBuffer_resize True True sz n new_id False s = Returned () t"
    "cap t = unat n" "map fst (queue t) = map fst (queue s)" "length (queue t) = length (queue s)"
    and keep: "\<And>k. k < length (queue s) \<Longrightarrow>
       unat (pt_a (read_pt (buffer s))) + k < unat sz * cap s div 16 \<Longrightarrow> queue t ! k = queue s ! k"
    by (rule resize_result [OF assms, of new_id]) (rule that)
  have "buffercondition (buffer s)" using assms(2) by (simp add: resize_ready_def)
  note qs = contents_unwrapped [OF fifo_ok_buf [OF assms(1)] this, folded queue_def]
  have "queue t = queue s" if "sz = 16"
  proof (rule nth_equalityI [OF t(4)])
    fix k assume "k < length (queue t)"
    then have "k < length (queue s)" using t(4) by simp
    moreover have "unat (pt_a (read_pt (buffer s))) + k < cap s"
      using buf_ok_index(2) [OF fifo_ok_buf [OF assms(1)]] \<open>k < length (queue s)\<close>
      by (simp add: qs cap_def capacity_def)
    ultimately show "queue t ! k = queue s ! k" using keep that by simp
  qed
  with t show ?thesis by blast
qed

theorem resize_keeps_queue_witness:
  "\<exists>t. RingBuffer_resize True True 16 8 1 False (two 16) = Returned () t \<and>
    cap t = unat (8 :: u64) \<and> map fst (queue t) = map fst (queue (two 16)) \<and>
    ((16 :: u64) = 16 \<longrightarrow> queue t = queue (two 16))"
proof (rule resize_keeps_queue)
  show "capacity (two 16) \<le> 8"
    using two_ok(3) [of 16] by (simp add: cap_def word_le_nat_alt)
qed (use two_ok(1) [of 16] two_ready in \<open>simp_all add: ring_inv_def\<close>)



text \<open>
  C40: after a resize the statistics pointer dangles.  init() is not called again when the
  buffer is replaced, so the next push of a value, on a full queue or not, follows a
  pointer into the deleted buffer.
\<close>

theorem push_after_resize_dangles:
  assumes "fifo_ok s" and "resize_ready sz s" and "sz \<le> 16"
    and "capacity s \<le> n" and "unat sz * unat n < 2 ^ 64" and "new_id \<noteq> buffer_id s"
  shows "\<exists>t. RingBuffer_resize True True sz n new_id False s = Returned () t \<and>
    (\<forall>v sg. local_push (Some v) sg t = Fault UseAfterFree)"
proof -
  obtain t where t: "RingBuffer_resize True True sz n new_id False s = Returned () t"
    "buf_ok (buffer t)" "\<not> resizing t" "buffer_id t = new_id" "write_stats_ptr t = buffer_id s"
    by (rule resize_result [OF assms(1-5), of new_id]) (rule that)
  then show ?thesis using push_stale_stats [OF t(2,3)] assms(6) by auto
qed

theorem push_after_resize_dangles_witness:
  "\<exists>t. RingBuffer_resize True True 16 8 1 False (two 16) = Returned () t \<and>
    (\<forall>v sg. local_push (Some v) sg t = Fault UseAfterFree)"
proof (rule push_after_resize_dangles)
  show "capacity (two 16) \<le> 8"
    using two_ok(3) [of 16] by (simp add: cap_def word_le_nat_alt)
  have "buffer_id (two 16) = 0" by code_simp
  then show "1 \<noteq> buffer_id (two 16)" by simp
qed (use two_ok(1) [of 16] two_ready in \<open>simp_all add: ring_inv_def\<close>)

section \<open>The scheduler's view and external memory\<close>

text \<open>
  Fact: signal_pop never returns.  It calls local_pop with null pointers, and the assertion
  there fails as soon as an element is waiting; on an empty queue it waits or throws.
\<close>

theorem signal_pop_never_returns:
  assumes "ring_inv s"
  shows "signal_pop kind s =
    (if elems s \<noteq> [] then Fault AssertionFailed
     else if is_invalid s then Raised ClosedPortAccess (enterBuffer dm_pop s)
     else Spin (enterBuffer dm_pop s))"
proof -
  have ok: "fifo_ok s" "\<not> resizing s" using assms by (simp_all add: ring_inv_def)
  have same: "same_queue s (enterBuffer dm_pop s)" by simp
  note s1 = same_queue_simps [OF same]
  obtain n where n: "fifo_size (enterBuffer dm_pop s) = Returned n (enterBuffer dm_pop s)"
    "unat n = length (queue (enterBuffer dm_pop s))"
    using size_known [of "enterBuffer dm_pop s"] ok s1 by auto
  show ?thesis
  proof (cases "elems s = []")
    case True
    then show ?thesis
      using local_pop_empty [OF ok, of kind False False] by (simp add: signal_pop_def elems_def)
  next
    case False
    then have "0 < n" using n(2) s1 by (cases "queue s") (auto simp: elems_def word_pos_iff)
    then show ?thesis
      using n ok s1 False by (simp add: signal_pop_def local_pop_def Let_def notResizing_def pop_commit_def)
  qed
qed

theorem signal_pop_never_returns_witness:
  "signal_pop Inline_nonclass (two 16) =
    (if elems (two 16) \<noteq> [] then Fault AssertionFailed
     else if is_invalid (two 16) then Raised ClosedPortAccess (enterBuffer dm_pop (two 16))
     else Spin (enterBuffer dm_pop (two 16)))"
  by (rule signal_pop_never_returns) (simp add: two_ok)

text \<open>
  Fact: a queue made over the user's memory starts full.  It holds the user's elements in
  order, has no space, refuses to be resized, and carries a single signal whose index is
  the start position: the signal of any later slot is outside the allocation.
\<close>

theorem external_queue_starts_full:
  assumes "n \<noteq> 0" and "length mem = unat n"
  shows "\<exists>s. make_new_fifo True True sz n start (Some mem) i = Inr s \<and> map fst (queue s) = mem \<and>
    space_avail s = Returned 0 s \<and>
    RingBuffer_resize True True sz k j e s = Returned () s \<and>
    getindex (signal (buffer s) ! 0) = start \<and> (\<forall>x. 0 < x \<longrightarrow> read_signal x s = None)"
proof -
  obtain s where s: "RingBuffer_external True sz mem n start i = Inr s" "buf_ok (buffer s)"
    "map fst (queue s) = mem" "length (queue s) = cap s" "length (signal (buffer s)) = 1"
    "getindex (signal (buffer s) ! 0) = start" "\<not> is_resizeable s" "\<not> resizing s"
    by (rule RingBuffer_external_full [OF assms, of sz start i]) (rule that)
  obtain m where "space_avail s = Returned m s" "unat m = cap s - length (queue s)"
    using space_avail_buf [OF s(2,8)] by blast
  moreover have "unat m = 0" using calculation(2) s(4) by simp
  then have "m = 0" by (simp add: unat_eq_zero)
  ultimately show ?thesis
    using s by (intro exI [of _ s]) (simp add: make_new_fifo_def RingBuffer_resize_def read_signal_def)
qed

theorem external_queue_starts_full_witness:
  "\<exists>s. make_new_fifo True True 8 3 40 (Some [Some (1 :: nat), Some 2, Some 3]) 0 = Inr s \<and>
    map fst (queue s) = [Some 1, Some 2, Some 3] \<and> space_avail s = Returned 0 s \<and>
    RingBuffer_resize True True 8 6 1 False s = Returned () s \<and>
    getindex (signal (buffer s) ! 0) = 40 \<and> (\<forall>x. 0 < x \<longrightarrow> read_signal x s = None)"
  by (rule external_queue_starts_full) simp_all

end
