(* ===== verification/Ring_Spsc.thy ===== *)
theory Ring_Spsc
  imports Ring_Fifo
begin

text \<open>
  One producer thread and one consumer thread on the same ring buffer, interleaved at the
  level of single reads and writes of the shared fields.  The producer pushes a list of
  elements and then invalidates the queue, as the scheduler does on the thread of the
  kernel that finished; the consumer pops until it gets ClosedPortAccess.  The steps of a
  thread are those of local_push, local_pop, size() and Pointer::inc in program order; the
  memory is sequentially consistent and the queue is not resized.
\<close>

section \<open>Steps\<close>

text \<open>The reads of size(), one shared field at a time, and its result.\<close>

datatype size_pc =
    Read_wrap_write
  | Read_wrap_read u64
  | Read_wpt u64 u64
  | Read_rpt u64 u64 u64
  | Size_is u64

definition size_of :: "u64 \<Rightarrow> u64 \<Rightarrow> u64 \<Rightarrow> u64 \<Rightarrow> u64 \<Rightarrow> u64 option" where
  "size_of cap wrap_write wrap_read wpt rpt =
     (if wpt = rpt then
        (if wrap_read < wrap_write then Some cap
         else if wrap_read > wrap_write then None
         else Some 0)
      else if rpt < wpt then Some (wpt - rpt)
      else if rpt > wpt then Some (cap - rpt + wpt)
      else Some 0)"

fun size_step :: "'a data \<Rightarrow> size_pc \<Rightarrow> size_pc" where
  "size_step d Read_wrap_write = Read_wrap_read (Pointer_wrapIndicator (write_pt d))"
| "size_step d (Read_wrap_read ww) = Read_wpt ww (Pointer_wrapIndicator (read_pt d))"
| "size_step d (Read_wpt ww wr) = Read_rpt ww wr (Pointer_val (write_pt d))"
| "size_step d (Read_rpt ww wr wp) =
     (case size_of (max_cap d) ww wr wp (Pointer_val (read_pt d)) of
        None \<Rightarrow> Read_wrap_write
      | Some n \<Rightarrow> Size_is n)"
| "size_step d (Size_is n) = Size_is n"

text \<open>Without interference the four reads give the size of Ring_Fifo.\<close>

lemma size_step_top:
  "size_step d (size_step d (size_step d (size_step d Read_wrap_write))) =
     (case size_top d of None \<Rightarrow> Read_wrap_write | Some n \<Rightarrow> Size_is n)"
  by (simp add: size_of_def size_top_def Let_def)

text \<open>Pointer::inc is two writes: the index, then the wrap counter when the index is zero.\<close>

definition inc_a :: "Pointer \<Rightarrow> Pointer" where
  "inc_a p = p\<lparr>pt_a := (pt_a p + 1) mod pt_max_cap p\<rparr>"

definition inc_wrap :: "Pointer \<Rightarrow> Pointer" where
  "inc_wrap p = (if pt_a p = 0 then p\<lparr>pt_wrap_a := pt_wrap_a p + 1\<rparr> else p)"

lemma inc_split: "pt_max_cap p \<noteq> 0 \<Longrightarrow> Pointer_inc p = Some (inc_wrap (inc_a p))"
  by (simp add: Pointer_inc_def inc_a_def inc_wrap_def Let_def)

datatype producer_pc =
    P_size size_pc
  | P_store
  | P_signal
  | P_inc
  | P_wrap
  | P_close
  | P_done

datatype 'a consumer_pc =
    C_size size_pc
  | C_valid
  | C_size_again size_pc
  | C_signal
  | C_item signal
  | C_inc 'a signal
  | C_wrap
  | C_closed
  | C_fault

record 'a spsc =
  shared :: "'a data"
  ppc :: producer_pc
  cpc :: "'a consumer_pc"
  todo :: "('a \<times> signal) list"
  got :: "('a \<times> signal) list"

definition upd_shared :: "('a data \<Rightarrow> 'a data) \<Rightarrow> 'a spsc \<Rightarrow> 'a spsc" where
  "upd_shared f s = s\<lparr>shared := f (shared s)\<rparr>"

abbreviation windex :: "'a data \<Rightarrow> nat" where
  "windex d \<equiv> unat (Pointer_val (write_pt d))"

abbreviation rindex :: "'a data \<Rightarrow> nat" where
  "rindex d \<equiv> unat (Pointer_val (read_pt d))"

text \<open>The producer: local_push for the elements of todo, then invalidate.\<close>

definition next_push :: "'a spsc \<Rightarrow> producer_pc" where
  "next_push s = (if todo s = [] then P_close else P_size Read_wrap_write)"

fun prod_step :: "'a spsc \<Rightarrow> 'a spsc" where
  "prod_step s =
     (case ppc s of
        P_size (Size_is n) \<Rightarrow>
          (if max_cap (shared s) - n > 0 then s\<lparr>ppc := P_store\<rparr> else s\<lparr>ppc := P_size Read_wrap_write\<rparr>)
      | P_size p \<Rightarrow> s\<lparr>ppc := P_size (size_step (shared s) p)\<rparr>
      | P_store \<Rightarrow>
          (upd_shared (\<lambda>d. d\<lparr>store := (store d)[windex d := Some (fst (hd (todo s)))]\<rparr>) s)\<lparr>ppc := P_signal\<rparr>
      | P_signal \<Rightarrow>
          (upd_shared (\<lambda>d. d\<lparr>signal := (signal d)[windex d :=
              Signal_assign (signal d ! windex d) (snd (hd (todo s)))]\<rparr>) s)\<lparr>ppc := P_inc\<rparr>
      | P_inc \<Rightarrow>
          (upd_shared (\<lambda>d. d\<lparr>write_pt := inc_a (write_pt d)\<rparr>) s)\<lparr>ppc := P_wrap, todo := tl (todo s)\<rparr>
      | P_wrap \<Rightarrow>
          (upd_shared (\<lambda>d. d\<lparr>write_pt := inc_wrap (write_pt d)\<rparr>) s)\<lparr>ppc := next_push s\<rparr>
      | P_close \<Rightarrow> (upd_shared (\<lambda>d. d\<lparr>is_valid := False\<rparr>) s)\<lparr>ppc := P_done\<rparr>
      | P_done \<Rightarrow> s)"

text \<open>
  The consumer: local_pop until it throws.  C_fault stands for reading a slot that holds
  no value; an object is destroyed as it is read.
\<close>

fun cons_step :: "alloc_kind \<Rightarrow> 'a spsc \<Rightarrow> 'a spsc" where
  "cons_step kind s =
     (case cpc s of
        C_size (Size_is n) \<Rightarrow> (if n > 0 then s\<lparr>cpc := C_signal\<rparr> else s\<lparr>cpc := C_valid\<rparr>)
      | C_size p \<Rightarrow> s\<lparr>cpc := C_size (size_step (shared s) p)\<rparr>
      | C_valid \<Rightarrow>
          (if is_valid (shared s) then s\<lparr>cpc := C_size Read_wrap_write\<rparr>
           else s\<lparr>cpc := C_size_again Read_wrap_write\<rparr>)
      | C_size_again (Size_is n) \<Rightarrow>
          (if n = 0 then s\<lparr>cpc := C_closed\<rparr> else s\<lparr>cpc := C_size Read_wrap_write\<rparr>)
      | C_size_again p \<Rightarrow> s\<lparr>cpc := C_size_again (size_step (shared s) p)\<rparr>
      | C_signal \<Rightarrow> s\<lparr>cpc := C_item (sig (signal (shared s) ! rindex (shared s)))\<rparr>
      | C_item sg \<Rightarrow>
          (case store (shared s) ! rindex (shared s) of
             None \<Rightarrow> s\<lparr>cpc := C_fault\<rparr>
           | Some v \<Rightarrow>
               (if kind = Inline_class
                then (upd_shared (\<lambda>d. d\<lparr>store := (store d)[rindex d := None]\<rparr>) s)\<lparr>cpc := C_inc v sg\<rparr>
                else s\<lparr>cpc := C_inc v sg\<rparr>))
      | C_inc v sg \<Rightarrow>
          (upd_shared (\<lambda>d. d\<lparr>read_pt := inc_a (read_pt d)\<rparr>) s)\<lparr>cpc := C_wrap, got := got s @ [(v, sg)]\<rparr>
      | C_wrap \<Rightarrow>
          (upd_shared (\<lambda>d. d\<lparr>read_pt := inc_wrap (read_pt d)\<rparr>) s)\<lparr>cpc := C_size Read_wrap_write\<rparr>
      | C_closed \<Rightarrow> s
      | C_fault \<Rightarrow> s)"

inductive spsc_step :: "alloc_kind \<Rightarrow> 'a spsc \<Rightarrow> 'a spsc \<Rightarrow> bool" for kind where
  producer: "spsc_step kind s (prod_step s)"
| consumer: "spsc_step kind s (cons_step kind s)"

text \<open>The start: a new queue of capacity cap, and the elements to send.\<close>

definition spsc_init :: "u64 \<Rightarrow> u64 \<Rightarrow> ('a \<times> signal) list \<Rightarrow> 'a spsc" where
  "spsc_init sz cap xs =
     \<lparr>shared = (case Data_new True True sz cap of Inr d \<Rightarrow> d | Inl f \<Rightarrow> DataBase_new sz cap),
      ppc = (if xs = [] then P_close else P_size Read_wrap_write),
      cpc = C_size Read_wrap_write, todo = xs, got = []\<rparr>"

inductive spsc_reachable :: "alloc_kind \<Rightarrow> 'a spsc \<Rightarrow> 'a spsc \<Rightarrow> bool" for kind s0 where
  start: "spsc_reachable kind s0 s0"
| step: "spsc_reachable kind s0 s \<Longrightarrow> spsc_step kind s t \<Longrightarrow> spsc_reachable kind s0 t"

text \<open>An interleaving given as a list: True lets the producer step, False the consumer.\<close>

fun run_spsc :: "alloc_kind \<Rightarrow> bool list \<Rightarrow> 'a spsc \<Rightarrow> 'a spsc" where
  "run_spsc kind [] s = s"
| "run_spsc kind (b # bs) s = run_spsc kind bs (if b then prod_step s else cons_step kind s)"

lemma run_spsc_reachable:
  "spsc_reachable kind s0 s \<Longrightarrow> spsc_reachable kind s0 (run_spsc kind bs s)"
  by (induction bs arbitrary: s) (auto intro: spsc_reachable.step spsc_step.intros simp del: prod_step.simps cons_step.simps)

section \<open>The invariant\<close>

text \<open>
  A pointer stands at a position; while its owner is between the two writes of inc the wrap
  counter is still the old one if the index just became zero.
\<close>

definition ptr_at :: "u64 \<Rightarrow> Pointer \<Rightarrow> bool \<Rightarrow> nat \<Rightarrow> bool" where
  "ptr_at c p mid pos \<longleftrightarrow>
     pt_max_cap p = c \<and> unat (pt_a p) = pos mod unat c \<and>
     unat (pt_wrap_a p) = (if mid \<and> pos mod unat c = 0 then pos div unat c - 1 else pos div unat c) \<and>
     (mid \<longrightarrow> 0 < pos)"

lemma ptr_at_zero: "c \<noteq> 0 \<Longrightarrow> ptr_at c (Pointer_new c) False 0"
  by (simp add: ptr_at_def)

lemma ptr_at_wrap_le: "ptr_at c p mid pos \<Longrightarrow> unat (pt_wrap_a p) \<le> pos div unat c"
  by (simp add: ptr_at_def)

lemma ptr_at_inc_a:
  assumes "ptr_at c p False pos" and "c \<noteq> 0"
  shows "ptr_at c (inc_a p) True (pos + 1)"
proof -
  let ?c = "unat c"
  have c: "0 < ?c" using assms(2) by (simp add: unat_gt_0)
  have p: "pt_max_cap p = c" "unat (pt_a p) = pos mod ?c" "unat (pt_wrap_a p) = pos div ?c"
    using assms(1) by (simp_all add: ptr_at_def)
  have "unat (pt_a p) < ?c" using p(2) c by simp
  then have a: "unat ((pt_a p + 1) mod c) = (pos + 1) mod ?c"
    using unat_Suc_mod [of "pt_a p" c] p(2) by (simp add: mod_Suc_eq)
  have "(pos + 1) div ?c = (if (pos + 1) mod ?c = 0 then pos div ?c + 1 else pos div ?c)"
    by (simp add: div_Suc mod_Suc)
  then show ?thesis using p a by (auto simp: ptr_at_def inc_a_def)
qed

lemma ptr_at_inc_wrap:
  assumes "ptr_at c p True pos" and "c \<noteq> 0" and "pos < 2 ^ 64"
  shows "ptr_at c (inc_wrap p) False pos"
proof (cases "pos mod unat c = 0")
  case True
  have p: "pt_max_cap p = c" "pt_a p = 0" "unat (pt_wrap_a p) = pos div unat c - 1" "0 < pos"
    using assms(1) True by (simp_all add: ptr_at_def unat_eq_zero)
  have "pos div unat c * unat c = pos" using True by auto
  with p(4) have pos: "0 < pos div unat c" by (metis mult_0 not_gr_zero)
  have "pos div unat c < 2 ^ 64" by (rule le_less_trans [OF div_le_dividend assms(3)])
  with pos p(3) have "unat (pt_wrap_a p + 1) = pos div unat c"
    using unat_inc [of "pt_wrap_a p"] by simp
  with p True show ?thesis by (simp add: ptr_at_def inc_wrap_def)
next
  case False
  then have "pt_a p \<noteq> 0" using assms(1) by (auto simp: ptr_at_def)
  with False assms(1) show ?thesis by (simp add: ptr_at_def inc_wrap_def)
qed

lemma inc_a_wrap [simp]: "pt_wrap_a (inc_a p) = pt_wrap_a p"
  by (simp add: inc_a_def)

text \<open>How many elements have been pushed and popped so far.\<close>

definition sent :: "('a \<times> signal) list \<Rightarrow> 'a spsc \<Rightarrow> nat" where
  "sent xs s = length xs - length (todo s)"

definition received :: "'a spsc \<Rightarrow> nat" where
  "received s = length (got s)"

definition taking :: "'a consumer_pc \<Rightarrow> bool" where
  "taking c \<longleftrightarrow> (\<exists>v sg. c = C_inc v sg)"

definition holds :: "('a \<times> signal) list \<Rightarrow> 'a data \<Rightarrow> nat \<Rightarrow> bool" where
  "holds xs d i \<longleftrightarrow>
     store d ! (i mod unat (max_cap d)) = Some (fst (xs ! i)) \<and>
     sig (signal d ! (i mod unat (max_cap d))) = snd (xs ! i)"

lemma holds_simps [simp]:
  "holds xs (d\<lparr>write_pt := p\<rparr>) i = holds xs d i"
  "holds xs (d\<lparr>read_pt := p\<rparr>) i = holds xs d i"
  "holds xs (d\<lparr>is_valid := b\<rparr>) i = holds xs d i"
  by (simp_all add: holds_def)

definition mem_ok :: "('a \<times> signal) list \<Rightarrow> 'a spsc \<Rightarrow> bool" where
  "mem_ok xs s \<longleftrightarrow>
     max_cap (shared s) \<noteq> 0 \<and>
     length (store (shared s)) = unat (max_cap (shared s)) \<and>
     length (signal (shared s)) = unat (max_cap (shared s)) \<and>
     ptr_at (max_cap (shared s)) (write_pt (shared s)) (ppc s = P_wrap) (sent xs s) \<and>
     ptr_at (max_cap (shared s)) (read_pt (shared s)) (cpc s = C_wrap) (received s) \<and>
     received s \<le> sent xs s \<and> sent xs s \<le> received s + unat (max_cap (shared s)) \<and>
     got s = take (received s) xs \<and> todo s = drop (sent xs s) xs \<and>
     (\<forall>i. (if taking (cpc s) then received s < i else received s \<le> i) \<and> i < sent xs s \<longrightarrow>
          holds xs (shared s) i)"

fun prod_size_ok :: "('a \<times> signal) list \<Rightarrow> 'a spsc \<Rightarrow> size_pc \<Rightarrow> bool" where
  "prod_size_ok xs s Read_wrap_write = True"
| "prod_size_ok xs s (Read_wrap_read ww) = (ww = pt_wrap_a (write_pt (shared s)))"
| "prod_size_ok xs s (Read_wpt ww wr) =
     (ww = pt_wrap_a (write_pt (shared s)) \<and> wr \<le> pt_wrap_a (read_pt (shared s)))"
| "prod_size_ok xs s (Read_rpt ww wr wp) =
     (ww = pt_wrap_a (write_pt (shared s)) \<and> wr \<le> pt_wrap_a (read_pt (shared s)) \<and>
      wp = pt_a (write_pt (shared s)))"
| "prod_size_ok xs s (Size_is n) =
     (n = max_cap (shared s) \<or> sent xs s < received s + unat (max_cap (shared s)))"

definition prod_ok :: "('a \<times> signal) list \<Rightarrow> 'a spsc \<Rightarrow> bool" where
  "prod_ok xs s =
     (case ppc s of
        P_size p \<Rightarrow> todo s \<noteq> [] \<and> is_valid (shared s) \<and> prod_size_ok xs s p
      | P_store \<Rightarrow> todo s \<noteq> [] \<and> is_valid (shared s) \<and> sent xs s < received s + unat (max_cap (shared s))
      | P_signal \<Rightarrow>
          todo s \<noteq> [] \<and> is_valid (shared s) \<and> sent xs s < received s + unat (max_cap (shared s)) \<and>
          store (shared s) ! (sent xs s mod unat (max_cap (shared s))) = Some (fst (xs ! sent xs s))
      | P_inc \<Rightarrow>
          todo s \<noteq> [] \<and> is_valid (shared s) \<and> sent xs s < received s + unat (max_cap (shared s)) \<and>
          holds xs (shared s) (sent xs s)
      | P_wrap \<Rightarrow> is_valid (shared s)
      | P_close \<Rightarrow> todo s = [] \<and> is_valid (shared s)
      | P_done \<Rightarrow> todo s = [] \<and> \<not> is_valid (shared s))"

fun cons_size_ok :: "('a \<times> signal) list \<Rightarrow> 'a spsc \<Rightarrow> size_pc \<Rightarrow> bool" where
  "cons_size_ok xs s Read_wrap_write = True"
| "cons_size_ok xs s (Read_wrap_read ww) = (ww \<le> pt_wrap_a (write_pt (shared s)))"
| "cons_size_ok xs s (Read_wpt ww wr) =
     (ww \<le> pt_wrap_a (write_pt (shared s)) \<and> wr = pt_wrap_a (read_pt (shared s)))"
| "cons_size_ok xs s (Read_rpt ww wr wp) =
     (ww \<le> pt_wrap_a (write_pt (shared s)) \<and> wr = pt_wrap_a (read_pt (shared s)) \<and>
      (wp \<noteq> pt_a (read_pt (shared s)) \<longrightarrow> received s < sent xs s))"
| "cons_size_ok xs s (Size_is n) = (0 < n \<longrightarrow> received s < sent xs s)"

text \<open>Once the producer is done, the second size() of local_pop is exact.\<close>

fun cons_again_ok :: "('a \<times> signal) list \<Rightarrow> 'a spsc \<Rightarrow> size_pc \<Rightarrow> bool" where
  "cons_again_ok xs s Read_wrap_write = True"
| "cons_again_ok xs s (Read_wrap_read ww) = (ww = pt_wrap_a (write_pt (shared s)))"
| "cons_again_ok xs s (Read_wpt ww wr) =
     (ww = pt_wrap_a (write_pt (shared s)) \<and> wr = pt_wrap_a (read_pt (shared s)))"
| "cons_again_ok xs s (Read_rpt ww wr wp) =
     (ww = pt_wrap_a (write_pt (shared s)) \<and> wr = pt_wrap_a (read_pt (shared s)) \<and>
      wp = pt_a (write_pt (shared s)))"
| "cons_again_ok xs s (Size_is n) = (n = 0 \<longrightarrow> received s = sent xs s)"

definition cons_ok :: "('a \<times> signal) list \<Rightarrow> 'a spsc \<Rightarrow> bool" where
  "cons_ok xs s =
     (case cpc s of
        C_size p \<Rightarrow> cons_size_ok xs s p
      | C_valid \<Rightarrow> True
      | C_size_again p \<Rightarrow> ppc s = P_done \<and> cons_again_ok xs s p
      | C_signal \<Rightarrow> received s < sent xs s
      | C_item sg \<Rightarrow> received s < sent xs s \<and> sg = snd (xs ! received s)
      | C_inc v sg \<Rightarrow> received s < sent xs s \<and> (v, sg) = xs ! received s
      | C_wrap \<Rightarrow> True
      | C_closed \<Rightarrow> ppc s = P_done \<and> received s = sent xs s
      | C_fault \<Rightarrow> False)"

definition spsc_inv :: "('a \<times> signal) list \<Rightarrow> 'a spsc \<Rightarrow> bool" where
  "spsc_inv xs s \<longleftrightarrow> length xs < 2 ^ 64 \<and> mem_ok xs s \<and> prod_ok xs s \<and> cons_ok xs s"

section \<open>What a thread learns from size()\<close>

text \<open>The producer's wrap counter and index are its own; the reader's counter may be old.\<close>

lemma producer_size:
  assumes "mem_ok xs s" and "ppc s \<noteq> P_wrap"
    and "size_of (max_cap (shared s)) (pt_wrap_a (write_pt (shared s))) wr
      (pt_a (write_pt (shared s))) (pt_a (read_pt (shared s))) = Some n"
    and "wr \<le> pt_wrap_a (read_pt (shared s))"
  shows "n = max_cap (shared s) \<or> sent xs s < received s + unat (max_cap (shared s))"
proof (rule disjCI)
  let ?c = "unat (max_cap (shared s))" and ?W = "sent xs s" and ?R = "received s"
  assume "\<not> ?W < ?R + ?c"
  then have W: "?W = ?R + ?c" using assms(1) by (simp add: mem_ok_def)
  have c: "0 < ?c" using assms(1) by (simp add: mem_ok_def unat_gt_0)
  have w: "unat (pt_a (write_pt (shared s))) = ?W mod ?c" "unat (pt_wrap_a (write_pt (shared s))) = ?W div ?c"
    using assms(1,2) by (simp_all add: mem_ok_def ptr_at_def)
  have r: "unat (pt_a (read_pt (shared s))) = ?R mod ?c" "unat (pt_wrap_a (read_pt (shared s))) \<le> ?R div ?c"
    using assms(1) by (simp_all add: mem_ok_def ptr_at_def)
  have "pt_a (write_pt (shared s)) = pt_a (read_pt (shared s))"
    using w(1) r(1) W by (simp add: word_unat_eq_iff)
  moreover have "wr < pt_wrap_a (write_pt (shared s))"
    using assms(4) w(2) r(2) W c div_add_self2 [of ?c ?R]
    by (simp add: word_less_nat_alt word_le_nat_alt)
  ultimately show "n = max_cap (shared s)" using assms(3) by (simp add: size_of_def)
qed

text \<open>
  The consumer's counter and index are its own.  An index of the writer that differs from
  the reader's, or a counter of the writer ahead of the reader's, shows an element.
\<close>

lemma consumer_sees_index:
  assumes "mem_ok xs s" and "pt_a (write_pt (shared s)) \<noteq> pt_a (read_pt (shared s))"
  shows "received s < sent xs s"
proof -
  have "sent xs s \<noteq> received s"
    using assms by (auto simp: mem_ok_def ptr_at_def word_unat_eq_iff)
  with assms(1) show ?thesis by (simp add: mem_ok_def)
qed

lemma consumer_sees_wrap:
  assumes "mem_ok xs s" and "cpc s \<noteq> C_wrap"
    and "pt_wrap_a (read_pt (shared s)) < pt_wrap_a (write_pt (shared s))"
  shows "received s < sent xs s"
proof -
  let ?c = "unat (max_cap (shared s))"
  have "received s div ?c < sent xs s div ?c"
    using assms ptr_at_wrap_le [of "max_cap (shared s)" "write_pt (shared s)"]
    by (fastforce simp: mem_ok_def ptr_at_def word_less_nat_alt)
  then show ?thesis by (meson div_le_mono linorder_not_le)
qed

lemma consumer_size:
  assumes "mem_ok xs s" and "cpc s \<noteq> C_wrap" and "ww \<le> pt_wrap_a (write_pt (shared s))"
    and "wp \<noteq> pt_a (read_pt (shared s)) \<longrightarrow> received s < sent xs s"
    and "size_of (max_cap (shared s)) ww (pt_wrap_a (read_pt (shared s))) wp (pt_a (read_pt (shared s))) = Some n"
    and "0 < n"
  shows "received s < sent xs s"
proof (cases "wp = pt_a (read_pt (shared s))")
  case True
  then have "pt_wrap_a (read_pt (shared s)) < ww"
    using assms(5,6) by (auto simp: size_of_def split: if_splits)
  then have "pt_wrap_a (read_pt (shared s)) < pt_wrap_a (write_pt (shared s))"
    using assms(3) by (rule order_less_le_trans)
  then show ?thesis by (rule consumer_sees_wrap [OF assms(1,2)])
next
  case False
  then show ?thesis using assms(4) by simp
qed

text \<open>With both counters at rest a size of zero means empty.\<close>

lemma size_zero_empty:
  assumes "mem_ok xs s" and "ppc s \<noteq> P_wrap" and "cpc s \<noteq> C_wrap"
    and "size_of (max_cap (shared s)) (pt_wrap_a (write_pt (shared s))) (pt_wrap_a (read_pt (shared s)))
      (pt_a (write_pt (shared s))) (pt_a (read_pt (shared s))) = Some 0"
  shows "received s = sent xs s"
proof -
  let ?d = "shared s" and ?c = "unat (max_cap (shared s))"
  let ?aw = "pt_a (write_pt ?d)" and ?ar = "pt_a (read_pt ?d)"
  have c: "0 < ?c" "max_cap ?d \<noteq> 0" using assms(1) by (simp_all add: mem_ok_def unat_gt_0)
  have w: "unat ?aw = sent xs s mod ?c" "unat (pt_wrap_a (write_pt ?d)) = sent xs s div ?c"
    and r: "unat ?ar = received s mod ?c" "unat (pt_wrap_a (read_pt ?d)) = received s div ?c"
    using assms(1-3) by (simp_all add: mem_ok_def ptr_at_def)
  have ar: "unat ?ar < ?c" "unat ?aw < ?c" using r(1) w(1) c(1) by simp_all
  have "?aw = ?ar"
  proof (rule ccontr)
    assume ne: "?aw \<noteq> ?ar"
    then have "?ar < ?aw \<and> ?aw - ?ar = 0 \<or> ?aw < ?ar \<and> max_cap ?d - ?ar + ?aw = 0"
      using assms(4) by (auto simp: size_of_def split: if_splits)
    then show False
    proof
      assume "?ar < ?aw \<and> ?aw - ?ar = 0"
      then show False by auto
    next
      assume less: "?aw < ?ar \<and> max_cap ?d - ?ar + ?aw = 0"
      have sub: "unat (max_cap ?d - ?ar) = ?c - unat ?ar"
        using ar(1) by (simp add: unat_sub word_le_nat_alt)
      have "unat ?aw < unat ?ar" using less by (simp add: word_less_nat_alt)
      moreover have "?c < 2 ^ 64" using unsigned_less [of "max_cap ?d"] by simp
      ultimately have fits: "?c - unat ?ar + unat ?aw < 2 ^ 64" using ar(1) by linarith
      have "unat (max_cap ?d - ?ar + ?aw) = ?c - unat ?ar + unat ?aw"
        using fits unfolding unat_word_ariths sub by simp
      moreover have "unat (max_cap ?d - ?ar + ?aw) = 0" using less by simp
      ultimately show False using ar(1) by simp
    qed
  qed
  with assms(4) c(2) have "pt_wrap_a (write_pt ?d) = pt_wrap_a (read_pt ?d)"
    by (auto simp: size_of_def split: if_splits)
  with \<open>?aw = ?ar\<close> w r show ?thesis by (metis div_mult_mod_eq)
qed

section \<open>Preservation\<close>

lemmas spsc_sel = sent_def received_def upd_shared_def

text \<open>What the other thread's steps do to what a thread knows.\<close>

lemma cons_ok_stable:
  assumes "cons_ok xs s" and "cpc t = cpc s" and "got t = got s"
    and "read_pt (shared t) = read_pt (shared s)"
    and "pt_wrap_a (write_pt (shared s)) \<le> pt_wrap_a (write_pt (shared t))"
    and "sent xs s \<le> sent xs t" and "ppc s \<noteq> P_done"
  shows "cons_ok xs t"
proof -
  have r: "received t = received s" using assms(3) by (simp add: received_def)
  have "cons_size_ok xs s p \<Longrightarrow> cons_size_ok xs t p" for p
    using assms(4,5,6) r by (cases p) auto
  with assms r show ?thesis by (auto simp: cons_ok_def split: consumer_pc.splits)
qed

lemma prod_ok_stable:
  assumes "prod_ok xs s" and "ppc t = ppc s" and "todo t = todo s"
    and "write_pt (shared t) = write_pt (shared s)" and "max_cap (shared t) = max_cap (shared s)"
    and "is_valid (shared t) = is_valid (shared s)" and "signal (shared t) = signal (shared s)"
    and "pt_wrap_a (read_pt (shared s)) \<le> pt_wrap_a (read_pt (shared t))"
    and "received s \<le> received t"
    and "sent xs s < received s + unat (max_cap (shared s)) \<Longrightarrow>
      store (shared t) ! (sent xs s mod unat (max_cap (shared s))) =
      store (shared s) ! (sent xs s mod unat (max_cap (shared s)))"
  shows "prod_ok xs t"
proof -
  have w: "sent xs t = sent xs s" using assms(3) by (simp add: sent_def)
  have "prod_size_ok xs s p \<Longrightarrow> prod_size_ok xs t p" for p
    using assms(4,5,8,9) w by (cases p) auto
  with assms w show ?thesis by (auto simp: prod_ok_def holds_def split: producer_pc.splits)
qed

lemma mem_ok_index:
  assumes "mem_ok xs s"
  shows "ppc s \<noteq> P_wrap \<Longrightarrow> windex (shared s) = sent xs s mod unat (max_cap (shared s))"
    and "rindex (shared s) = received s mod unat (max_cap (shared s))"
    and "sent xs s mod unat (max_cap (shared s)) < unat (max_cap (shared s))"
    and "received s mod unat (max_cap (shared s)) < unat (max_cap (shared s))"
  using assms by (simp_all add: mem_ok_def ptr_at_def Pointer_val_def unat_gt_0)

lemma mem_ok_todo:
  assumes "mem_ok xs s" and "todo s \<noteq> []"
  shows "sent xs s < length xs" "hd (todo s) = xs ! sent xs s" "tl (todo s) = drop (sent xs s + 1) xs"
    "length xs - length (tl (todo s)) = sent xs s + 1"
proof -
  have t: "todo s = drop (sent xs s) xs" using assms(1) by (simp add: mem_ok_def)
  with assms(2) show lt: "sent xs s < length xs" by (metis drop_eq_Nil leI)
  show "hd (todo s) = xs ! sent xs s" using lt by (subst t) (simp add: hd_drop_conv_nth)
  show tl: "tl (todo s) = drop (sent xs s + 1) xs" by (subst t) (simp add: drop_Suc tl_drop)
  show "length xs - length (tl (todo s)) = sent xs s + 1" using lt by (simp add: tl)
qed

text \<open>A write to the slot at the write position leaves the queue's slots alone.\<close>

lemma write_slot_holds:
  assumes "holds xs d i" and "i < W" and "W < i + unat (max_cap d)"
    and "max_cap d' = max_cap d"
    and "\<And>j. j \<noteq> W mod unat (max_cap d) \<Longrightarrow>
      store d' ! j = store d ! j \<and> sig (signal d' ! j) = sig (signal d ! j)"
  shows "holds xs d' i"
proof -
  have "i mod unat (max_cap d) \<noteq> W mod unat (max_cap d)"
    using mod_inj_window [of i "unat (max_cap d)" W] assms(2,3) by force
  with assms(1,4,5) show ?thesis by (simp add: holds_def)
qed

lemma mem_ok_write:
  assumes ok: "mem_ok xs s" and free: "sent xs s < received s + unat (max_cap (shared s))"
    and t: "t = (upd_shared f s)\<lparr>ppc := p\<rparr>" "p \<noteq> P_wrap" "ppc s \<noteq> P_wrap"
    and f: "max_cap (f (shared s)) = max_cap (shared s)" "read_pt (f (shared s)) = read_pt (shared s)"
      "write_pt (f (shared s)) = write_pt (shared s)"
      "length (store (f (shared s))) = length (store (shared s))"
      "length (signal (f (shared s))) = length (signal (shared s))"
    and other: "\<And>j. j \<noteq> sent xs s mod unat (max_cap (shared s)) \<Longrightarrow>
      store (f (shared s)) ! j = store (shared s) ! j \<and>
      sig (signal (f (shared s)) ! j) = sig (signal (shared s) ! j)"
  shows "mem_ok xs t"
proof -
  have sel: "shared t = f (shared s)" "ppc t = p" "cpc t = cpc s" "todo t = todo s" "got t = got s"
    by (simp_all add: t(1) upd_shared_def)
  have cnt: "sent xs t = sent xs s" "received t = received s" by (simp_all add: sel sent_def received_def)
  have "holds xs (f (shared s)) i" if "received s \<le> i" "i < sent xs s" "holds xs (shared s) i" for i
    by (rule write_slot_holds [OF that(3,2) _ f(1) other]) (use free that in linarith)
  then show ?thesis
    using ok f t(2,3) unfolding mem_ok_def sel cnt by (auto split: if_splits)
qed

subsection \<open>The producer\<close>

lemma prod_size_step:
  assumes ok: "mem_ok xs s" and pc: "ppc s = P_size p" and know: "prod_size_ok xs s p"
  shows "prod_size_ok xs s (size_step (shared s) p)"
proof (cases p)
  case (Read_rpt ww wr wp)
  then show ?thesis
    using know producer_size [OF ok, of wr] pc
    by (auto simp: Pointer_val_def split: option.splits)
qed (use know in \<open>auto simp: Pointer_val_def Pointer_wrapIndicator_def\<close>)

lemma mem_ok_pcs:
  assumes "mem_ok xs s" and "shared t = shared s" and "todo t = todo s" and "got t = got s"
    and "(ppc t = P_wrap) = (ppc s = P_wrap)" and "(cpc t = C_wrap) = (cpc s = C_wrap)"
    and "taking (cpc s) \<longrightarrow> taking (cpc t)"
  shows "mem_ok xs t"
  using assms unfolding mem_ok_def sent_def received_def by (auto split: if_splits)

lemma prod_size_ok_pc [simp]: "prod_size_ok xs (s\<lparr>ppc := q\<rparr>) p = prod_size_ok xs s p"
  by (cases p) (simp_all add: sent_def received_def)

lemma cons_ok_ppc:
  assumes "cons_ok xs s" and "ppc s \<noteq> P_done"
  shows "cons_ok xs (s\<lparr>ppc := q\<rparr>)"
  by (rule cons_ok_stable [OF assms(1)]) (use assms(2) in \<open>simp_all add: sent_def\<close>)

lemma spsc_inv_pc:
  assumes "spsc_inv xs s" and "ppc s \<noteq> P_done" and "ppc s \<noteq> P_wrap" and "q \<noteq> P_wrap"
    and "prod_ok xs (s\<lparr>ppc := q\<rparr>)"
  shows "spsc_inv xs (s\<lparr>ppc := q\<rparr>)"
  using assms cons_ok_ppc [of xs s q] mem_ok_pcs [of xs s "s\<lparr>ppc := q\<rparr>"]
  by (simp add: spsc_inv_def)

lemma prod_step_size:
  assumes inv: "spsc_inv xs s" and pc: "ppc s = P_size p"
  shows "spsc_inv xs (prod_step s)"
proof -
  have k: "mem_ok xs s" "todo s \<noteq> []" "is_valid (shared s)" "prod_size_ok xs s p"
    using inv pc by (simp_all add: spsc_inv_def prod_ok_def)
  show ?thesis
  proof (cases "\<exists>n. p = Size_is n")
    case True
    then obtain n where n: "p = Size_is n" by blast
    have "max_cap (shared s) - n > 0 \<longleftrightarrow> n \<noteq> max_cap (shared s)" by (auto simp: word_gt_0)
    then show ?thesis
      using k n pc by (auto intro!: spsc_inv_pc [OF inv] simp: prod_ok_def sent_def received_def)
  next
    case False
    then have "prod_step s = s\<lparr>ppc := P_size (size_step (shared s) p)\<rparr>"
      using pc by (cases p) auto
    then show ?thesis
      using prod_size_step [OF k(1) pc k(4)] k(2,3) pc
      by (auto intro!: spsc_inv_pc [OF inv] simp: prod_ok_def)
  qed
qed

lemma prod_step_store:
  assumes inv: "spsc_inv xs s" and pc: "ppc s = P_store \<or> ppc s = P_signal"
  shows "spsc_inv xs (prod_step s)"
proof -
  let ?c = "unat (max_cap (shared s))" and ?W = "sent xs s"
  have m: "mem_ok xs s" "prod_ok xs s" "cons_ok xs s" using inv by (simp_all add: spsc_inv_def)
  have k: "todo s \<noteq> []" "is_valid (shared s)" "?W < received s + ?c"
    using m(2) pc by (auto simp: prod_ok_def)
  have ix: "windex (shared s) = ?W mod ?c" "?W mod ?c < ?c"
    using mem_ok_index [OF m(1)] pc by auto
  have len: "length (store (shared s)) = ?c" "length (signal (shared s)) = ?c"
    using m(1) by (simp_all add: mem_ok_def)
  have hd: "hd (todo s) = xs ! ?W" by (rule mem_ok_todo(2) [OF m(1) k(1)])
  have mem: "mem_ok xs (prod_step s)"
    using pc
  proof
    assume p: "ppc s = P_store"
    show ?thesis
      by (rule mem_ok_write [OF m(1) k(3), where p = P_signal and
            f = "\<lambda>d. d\<lparr>store := (store d)[windex d := Some (fst (hd (todo s)))]\<rparr>"])
        (use p ix in simp_all)
  next
    assume p: "ppc s = P_signal"
    show ?thesis
      by (rule mem_ok_write [OF m(1) k(3), where p = P_inc and
            f = "\<lambda>d. d\<lparr>signal := (signal d)[windex d :=
              Signal_assign (signal d ! windex d) (snd (hd (todo s)))]\<rparr>"])
        (use p ix in simp_all)
  qed
  have "cons_ok xs (prod_step s)"
    by (rule cons_ok_stable [OF m(3)]) (use pc in \<open>auto simp: upd_shared_def sent_def\<close>)
  moreover have "prod_ok xs (prod_step s)"
    using pc m(2) k ix len hd
    by (auto simp: prod_ok_def upd_shared_def sent_def received_def holds_def Signal_assign_def)
  ultimately show ?thesis using mem inv by (simp add: spsc_inv_def del: prod_step.simps)
qed

lemma prod_step_inc:
  assumes inv: "spsc_inv xs s" and pc: "ppc s = P_inc"
  shows "spsc_inv xs (prod_step s)"
proof -
  let ?c = "unat (max_cap (shared s))" and ?W = "sent xs s"
  have m: "mem_ok xs s" "prod_ok xs s" "cons_ok xs s" using inv by (simp_all add: spsc_inv_def)
  have k: "todo s \<noteq> []" "is_valid (shared s)" "?W < received s + ?c" "holds xs (shared s) ?W"
    using m(2) pc by (auto simp: prod_ok_def)
  note td = mem_ok_todo [OF m(1) k(1)]
  let ?t = "prod_step s"
  have t: "shared ?t = (shared s)\<lparr>write_pt := inc_a (write_pt (shared s))\<rparr>" "ppc ?t = P_wrap"
    "cpc ?t = cpc s" "todo ?t = tl (todo s)" "got ?t = got s"
    using pc by (simp_all add: upd_shared_def)
  have cnt: "sent xs ?t = ?W + 1" "received ?t = received s"
    using td(4) t by (simp_all add: sent_def received_def del: prod_step.simps)
  have pt: "ptr_at (max_cap (shared s)) (inc_a (write_pt (shared s))) True (?W + 1)"
    by (rule ptr_at_inc_a) (use m(1) pc in \<open>simp_all add: mem_ok_def\<close>)
  have "holds xs (shared s) i"
    if "(if taking (cpc s) then received s < i else received s \<le> i)" "i < ?W + 1" for i
    using that k(4) m(1) by (cases "i = ?W") (auto simp: mem_ok_def)
  then have "mem_ok xs ?t"
    using m(1) k(3) pt td(3) unfolding mem_ok_def cnt t
    by (auto simp: less_Suc_eq split: if_splits)
  moreover have "cons_ok xs ?t"
    by (rule cons_ok_stable [OF m(3)]) (unfold cnt t, use pc in simp_all)
  moreover have "prod_ok xs ?t" unfolding prod_ok_def t using k(2) by simp
  ultimately show ?thesis using inv by (simp add: spsc_inv_def del: prod_step.simps)
qed

lemma inc_wrap_mono:
  assumes "ptr_at c p True pos" and "ptr_at c (inc_wrap p) False pos"
  shows "pt_wrap_a p \<le> pt_wrap_a (inc_wrap p)"
  using ptr_at_wrap_le [OF assms(1)] assms(2) by (simp add: ptr_at_def word_le_nat_alt)

lemma prod_step_wrap:
  assumes inv: "spsc_inv xs s" and pc: "ppc s = P_wrap"
  shows "spsc_inv xs (prod_step s)"
proof -
  have m: "mem_ok xs s" "prod_ok xs s" "cons_ok xs s" "length xs < 2 ^ 64"
    using inv by (simp_all add: spsc_inv_def)
  let ?t = "prod_step s"
  have t: "shared ?t = (shared s)\<lparr>write_pt := inc_wrap (write_pt (shared s))\<rparr>" "ppc ?t = next_push s"
    "cpc ?t = cpc s" "todo ?t = todo s" "got ?t = got s"
    using pc by (simp_all add: upd_shared_def)
  have cnt: "sent xs ?t = sent xs s" "received ?t = received s"
    using t by (simp_all add: sent_def received_def del: prod_step.simps)
  have np: "next_push s \<noteq> P_wrap" by (simp add: next_push_def)
  have old: "ptr_at (max_cap (shared s)) (write_pt (shared s)) True (sent xs s)"
    using m(1) pc by (simp add: mem_ok_def)
  have le: "sent xs s < 2 ^ 64" using m(4) by (simp add: sent_def)
  have pt: "ptr_at (max_cap (shared s)) (inc_wrap (write_pt (shared s))) False (sent xs s)"
    by (rule ptr_at_inc_wrap [OF old _ le]) (use m(1) in \<open>simp add: mem_ok_def\<close>)
  have "mem_ok xs ?t" using m(1) pt np unfolding mem_ok_def cnt t by auto
  moreover have "cons_ok xs ?t"
    by (rule cons_ok_stable [OF m(3)]) (unfold cnt t, use pc inc_wrap_mono [OF old pt] in simp_all)
  moreover have "prod_ok xs ?t"
    using m(2) pc unfolding prod_ok_def t by (simp add: next_push_def)
  ultimately show ?thesis using inv by (simp add: spsc_inv_def del: prod_step.simps)
qed

lemma prod_step_close:
  assumes inv: "spsc_inv xs s" and pc: "ppc s = P_close"
  shows "spsc_inv xs (prod_step s)"
proof -
  have m: "mem_ok xs s" "prod_ok xs s" "cons_ok xs s" using inv by (simp_all add: spsc_inv_def)
  let ?t = "prod_step s"
  have t: "shared ?t = (shared s)\<lparr>is_valid := False\<rparr>" "ppc ?t = P_done"
    "cpc ?t = cpc s" "todo ?t = todo s" "got ?t = got s"
    using pc by (simp_all add: upd_shared_def)
  have cnt: "sent xs ?t = sent xs s" "received ?t = received s"
    using t by (simp_all add: sent_def received_def del: prod_step.simps)
  have "mem_ok xs ?t" using m(1) pc unfolding mem_ok_def cnt t by auto
  moreover have "cons_ok xs ?t"
    by (rule cons_ok_stable [OF m(3)]) (unfold cnt t, use pc in simp_all)
  moreover have "prod_ok xs ?t" using m(2) pc unfolding prod_ok_def t by simp
  ultimately show ?thesis using inv by (simp add: spsc_inv_def del: prod_step.simps)
qed

lemma prod_step_inv:
  assumes inv: "spsc_inv xs s"
  shows "spsc_inv xs (prod_step s)"
proof (cases "ppc s")
  case P_done
  then show ?thesis using inv by simp
next
  case P_store
  then show ?thesis by (intro prod_step_store [OF inv]) simp
next
  case P_signal
  then show ?thesis by (intro prod_step_store [OF inv]) simp
qed (rule prod_step_size [OF inv] prod_step_inc [OF inv] prod_step_wrap [OF inv]
    prod_step_close [OF inv]; assumption)+

subsection \<open>The consumer\<close>

lemma cons_size_step:
  assumes ok: "mem_ok xs s" and pc: "cpc s \<noteq> C_wrap" and know: "cons_size_ok xs s p"
  shows "cons_size_ok xs s (size_step (shared s) p)"
proof (cases p)
  case (Read_wpt ww wr)
  then show ?thesis using know consumer_sees_index [OF ok] by (simp add: Pointer_val_def)
next
  case (Read_rpt ww wr wp)
  then show ?thesis
    using know consumer_size [OF ok pc, of ww wp]
    by (auto simp: Pointer_val_def split: option.splits)
qed (use know in \<open>auto simp: Pointer_wrapIndicator_def\<close>)

lemma cons_again_step:
  assumes ok: "mem_ok xs s" and pc: "cpc s \<noteq> C_wrap" "ppc s \<noteq> P_wrap" and know: "cons_again_ok xs s p"
  shows "cons_again_ok xs s (size_step (shared s) p)"
proof (cases p)
  case (Read_rpt ww wr wp)
  then show ?thesis
    using know size_zero_empty [OF ok pc(2,1)]
    by (auto simp: Pointer_val_def split: option.splits)
qed (use know in \<open>auto simp: Pointer_wrapIndicator_def Pointer_val_def\<close>)

lemma cons_size_ok_pc [simp]:
  "cons_size_ok xs (s\<lparr>cpc := q\<rparr>) p = cons_size_ok xs s p"
  "cons_again_ok xs (s\<lparr>cpc := q\<rparr>) p = cons_again_ok xs s p"
  by (cases p; simp add: sent_def received_def)+

lemma spsc_inv_cpc:
  assumes "spsc_inv xs s" and "cpc s \<noteq> C_wrap" and "q \<noteq> C_wrap" and "\<not> taking (cpc s)"
    and "cons_ok xs (s\<lparr>cpc := q\<rparr>)"
  shows "spsc_inv xs (s\<lparr>cpc := q\<rparr>)"
proof -
  have "prod_ok xs (s\<lparr>cpc := q\<rparr>)"
    by (rule prod_ok_stable [of xs s]) (use assms(1) in \<open>simp_all add: spsc_inv_def received_def\<close>)
  then show ?thesis
    using assms mem_ok_pcs [of xs s "s\<lparr>cpc := q\<rparr>"] by (simp add: spsc_inv_def)
qed

lemma cons_step_size:
  assumes inv: "spsc_inv xs s" and pc: "cpc s = C_size p"
  shows "spsc_inv xs (cons_step kind s)"
proof -
  have k: "mem_ok xs s" "cons_size_ok xs s p"
    using inv pc by (simp_all add: spsc_inv_def cons_ok_def)
  have nt: "\<not> taking (cpc s)" "cpc s \<noteq> C_wrap" using pc by (simp_all add: taking_def)
  show ?thesis
  proof (cases "\<exists>n. p = Size_is n")
    case True
    then show ?thesis
      using k pc nt by (auto intro!: spsc_inv_cpc [OF inv] simp: cons_ok_def sent_def received_def)
  next
    case False
    then have "cons_step kind s = s\<lparr>cpc := C_size (size_step (shared s) p)\<rparr>"
      using pc by (cases p) auto
    then show ?thesis
      using cons_size_step [OF k(1) nt(2) k(2)] nt by (auto intro!: spsc_inv_cpc [OF inv] simp: cons_ok_def)
  qed
qed

lemma cons_step_again:
  assumes inv: "spsc_inv xs s" and pc: "cpc s = C_size_again p"
  shows "spsc_inv xs (cons_step kind s)"
proof -
  have k: "mem_ok xs s" "cons_again_ok xs s p" "ppc s = P_done"
    using inv pc by (simp_all add: spsc_inv_def cons_ok_def)
  have nt: "\<not> taking (cpc s)" "cpc s \<noteq> C_wrap" using pc by (simp_all add: taking_def)
  show ?thesis
  proof (cases "\<exists>n. p = Size_is n")
    case True
    then show ?thesis
      using k pc nt by (auto intro!: spsc_inv_cpc [OF inv] simp: cons_ok_def sent_def received_def)
  next
    case False
    then have "cons_step kind s = s\<lparr>cpc := C_size_again (size_step (shared s) p)\<rparr>"
      using pc by (cases p) auto
    then show ?thesis
      using cons_again_step [OF k(1) nt(2) _ k(2)] nt k(3)
      by (auto intro!: spsc_inv_cpc [OF inv] simp: cons_ok_def)
  qed
qed

lemma cons_step_look:
  assumes inv: "spsc_inv xs s" and pc: "cpc s = C_valid \<or> cpc s = C_signal"
  shows "spsc_inv xs (cons_step kind s)"
proof -
  have m: "mem_ok xs s" "prod_ok xs s" "cons_ok xs s" using inv by (simp_all add: spsc_inv_def)
  have nt: "cpc s \<noteq> C_wrap" "\<not> taking (cpc s)" using pc by (auto simp: taking_def)
  show ?thesis
    using pc
  proof
    assume p: "cpc s = C_valid"
    have "ppc s = P_done" if "\<not> is_valid (shared s)"
      using m(2) that by (auto simp: prod_ok_def split: producer_pc.splits)
    moreover have "cons_step kind s = s\<lparr>cpc := if is_valid (shared s)
        then C_size Read_wrap_write else C_size_again Read_wrap_write\<rparr>" using p by simp
    ultimately show ?thesis
      using nt by (auto intro!: spsc_inv_cpc [OF inv] simp: cons_ok_def simp del: cons_step.simps)
  next
    assume p: "cpc s = C_signal"
    have lt: "received s < sent xs s" using m(3) p by (simp add: cons_ok_def)
    have "holds xs (shared s) (received s)" using m(1) lt nt(2) by (simp add: mem_ok_def)
    then have "sig (signal (shared s) ! rindex (shared s)) = snd (xs ! received s)"
      using mem_ok_index(2) [OF m(1)] by (simp add: holds_def)
    then show ?thesis
      using p nt lt by (auto intro!: spsc_inv_cpc [OF inv] simp: cons_ok_def sent_def received_def)
  qed
qed

lemma cons_step_item:
  assumes inv: "spsc_inv xs s" and pc: "cpc s = C_item sg"
  shows "spsc_inv xs (cons_step kind s)"
proof -
  let ?c = "unat (max_cap (shared s))" and ?R = "received s"
  have m: "mem_ok xs s" "prod_ok xs s" "cons_ok xs s" using inv by (simp_all add: spsc_inv_def)
  have k: "?R < sent xs s" "sg = snd (xs ! ?R)" using m(3) pc by (simp_all add: cons_ok_def)
  have ix: "rindex (shared s) = ?R mod ?c" using mem_ok_index(2) [OF m(1)] .
  have st: "store (shared s) ! rindex (shared s) = Some (fst (xs ! ?R))"
    using m(1) k(1) pc by (simp add: mem_ok_def holds_def taking_def ix)
  let ?f = "\<lambda>d. if kind = Inline_class then d\<lparr>store := (store d)[rindex d := None]\<rparr> else d"
  let ?t = "cons_step kind s"
  have t: "shared ?t = ?f (shared s)" "ppc ?t = ppc s" "cpc ?t = C_inc (fst (xs ! ?R)) sg"
    "todo ?t = todo s" "got ?t = got s"
    using pc st by (simp_all add: upd_shared_def)
  have cnt: "sent xs ?t = sent xs s" "received ?t = ?R"
    using t by (simp_all add: sent_def received_def del: cons_step.simps)
  have window: "sent xs s \<le> ?R + ?c" using m(1) by (simp add: mem_ok_def)
  have h: "holds xs (?f (shared s)) i" if "?R < i" "i < sent xs s" "holds xs (shared s) i" for i
  proof -
    have "?R mod ?c \<noteq> i mod ?c" using mod_inj_window [of ?R ?c i] that window by force
    with that(3) show ?thesis by (simp add: holds_def ix)
  qed
  have "mem_ok xs ?t"
    using m(1) h pc unfolding mem_ok_def cnt t by (auto simp: taking_def)
  moreover have "prod_ok xs ?t"
  proof (rule prod_ok_stable [OF m(2)])
    assume free: "sent xs s < ?R + ?c"
    then have "?R mod ?c \<noteq> sent xs s mod ?c" using mod_inj_window [of ?R ?c "sent xs s"] k(1) by force
    then show "store (shared ?t) ! (sent xs s mod ?c) = store (shared s) ! (sent xs s mod ?c)"
      unfolding t by (simp add: ix)
  qed (simp_all add: t cnt del: cons_step.simps)
  moreover have "cons_ok xs ?t" using k unfolding cons_ok_def t cnt by simp
  ultimately show ?thesis using inv by (simp add: spsc_inv_def del: cons_step.simps)
qed

lemma cons_step_inc:
  assumes inv: "spsc_inv xs s" and pc: "cpc s = C_inc v sg"
  shows "spsc_inv xs (cons_step kind s)"
proof -
  let ?R = "received s"
  have m: "mem_ok xs s" "prod_ok xs s" "cons_ok xs s" using inv by (simp_all add: spsc_inv_def)
  have k: "?R < sent xs s" "(v, sg) = xs ! ?R" using m(3) pc by (simp_all add: cons_ok_def)
  let ?t = "cons_step kind s"
  have t: "shared ?t = (shared s)\<lparr>read_pt := inc_a (read_pt (shared s))\<rparr>" "ppc ?t = ppc s"
    "cpc ?t = C_wrap" "todo ?t = todo s" "got ?t = got s @ [(v, sg)]"
    using pc by (simp_all add: upd_shared_def)
  have cnt: "sent xs ?t = sent xs s" "received ?t = ?R + 1"
    using t by (simp_all add: sent_def received_def del: cons_step.simps)
  have pt: "ptr_at (max_cap (shared s)) (inc_a (read_pt (shared s))) True (?R + 1)"
    by (rule ptr_at_inc_a) (use m(1) pc in \<open>simp_all add: mem_ok_def\<close>)
  have "?R < length xs" using k(1) by (simp add: sent_def)
  then have "got s @ [(v, sg)] = take (?R + 1) xs"
    using m(1) k(2) by (simp add: mem_ok_def take_Suc_conv_app_nth)
  then have "mem_ok xs ?t"
    using m(1) k(1) pt pc unfolding mem_ok_def cnt t by (auto simp: taking_def)
  moreover have "prod_ok xs ?t"
    by (rule prod_ok_stable [OF m(2)]) (unfold t cnt, simp_all)
  moreover have "cons_ok xs ?t" unfolding cons_ok_def t by simp
  ultimately show ?thesis using inv by (simp add: spsc_inv_def del: cons_step.simps)
qed

lemma cons_step_wrap:
  assumes inv: "spsc_inv xs s" and pc: "cpc s = C_wrap"
  shows "spsc_inv xs (cons_step kind s)"
proof -
  have m: "mem_ok xs s" "prod_ok xs s" "cons_ok xs s" "length xs < 2 ^ 64"
    using inv by (simp_all add: spsc_inv_def)
  let ?t = "cons_step kind s"
  have t: "shared ?t = (shared s)\<lparr>read_pt := inc_wrap (read_pt (shared s))\<rparr>" "ppc ?t = ppc s"
    "cpc ?t = C_size Read_wrap_write" "todo ?t = todo s" "got ?t = got s"
    using pc by (simp_all add: upd_shared_def)
  have cnt: "sent xs ?t = sent xs s" "received ?t = received s"
    using t by (simp_all add: sent_def received_def del: cons_step.simps)
  have old: "ptr_at (max_cap (shared s)) (read_pt (shared s)) True (received s)"
    using m(1) pc by (simp add: mem_ok_def)
  have "received s \<le> sent xs s" using m(1) by (simp add: mem_ok_def)
  then have le: "received s < 2 ^ 64" using m(4) by (simp add: sent_def)
  have pt: "ptr_at (max_cap (shared s)) (inc_wrap (read_pt (shared s))) False (received s)"
    by (rule ptr_at_inc_wrap [OF old _ le]) (use m(1) in \<open>simp add: mem_ok_def\<close>)
  have "mem_ok xs ?t" using m(1) pt pc unfolding mem_ok_def cnt t by (auto simp: taking_def)
  moreover have "prod_ok xs ?t"
    by (rule prod_ok_stable [OF m(2)]) (unfold t cnt, use inc_wrap_mono [OF old pt] in simp_all)
  moreover have "cons_ok xs ?t" unfolding cons_ok_def t by simp
  ultimately show ?thesis using inv by (simp add: spsc_inv_def del: cons_step.simps)
qed

lemma cons_step_inv:
  assumes inv: "spsc_inv xs s"
  shows "spsc_inv xs (cons_step kind s)"
proof (cases "cpc s")
  case C_valid
  then show ?thesis by (intro cons_step_look [OF inv]) simp
next
  case C_signal
  then show ?thesis by (intro cons_step_look [OF inv]) simp
next
  case C_closed
  then show ?thesis using inv by simp
next
  case C_fault
  then show ?thesis using inv by simp
qed (rule cons_step_size [OF inv] cons_step_again [OF inv] cons_step_item [OF inv]
    cons_step_inc [OF inv] cons_step_wrap [OF inv]; assumption)+

lemma spsc_step_inv: "spsc_inv xs s \<Longrightarrow> spsc_step kind s t \<Longrightarrow> spsc_inv xs t"
  by (erule spsc_step.cases) (simp_all add: prod_step_inv cons_step_inv del: prod_step.simps cons_step.simps)

lemma spsc_init_inv:
  assumes "cap \<noteq> 0" and "sz \<noteq> 0" and "unat sz * unat cap < 2 ^ 64" and "length xs < 2 ^ 64"
  shows "spsc_inv xs (spsc_init sz cap xs)"
proof -
  obtain d where d: "Data_new True True sz cap = (Inr d :: fault + 'a data)"
    by (auto simp: Data_new_def Let_def)
  note ok = Data_new_ok [OF d assms(1-3)]
  have pts: "write_pt d = Pointer_new cap" "read_pt d = Pointer_new cap"
    using d by (auto simp: Data_new_def Let_def)
  let ?s = "spsc_init sz cap xs"
  have s: "shared ?s = d" "ppc ?s = (if xs = [] then P_close else P_size Read_wrap_write)"
    "cpc ?s = C_size Read_wrap_write" "todo ?s = xs" "got ?s = []"
    using d by (simp_all add: spsc_init_def)
  have cnt: "sent xs ?s = 0" "received ?s = 0" by (simp_all add: s sent_def received_def)
  have "mem_ok xs ?s"
    using ok(1,2) ptr_at_zero [OF assms(1)] assms(1)
    unfolding mem_ok_def cnt s by (simp add: pts ok(4) buf_ok_def signals_ok_def)
  moreover have "prod_ok xs ?s" unfolding prod_ok_def s by (simp add: ok(5))
  moreover have "cons_ok xs ?s" unfolding cons_ok_def s by simp
  ultimately show ?thesis using assms(4) by (simp add: spsc_inv_def)
qed

lemma spsc_reachable_inv:
  "spsc_reachable kind s0 s \<Longrightarrow> spsc_inv xs s0 \<Longrightarrow> spsc_inv xs s"
  by (induction rule: spsc_reachable.induct) (auto intro: spsc_step_inv)

section \<open>Properties\<close>

text \<open>
  C3: one producer and one consumer need no lock.  In every interleaving of their single
  reads and writes, wherever the two threads stand, what the consumer has got is a prefix
  of what the producer was given, with the signals, what is under way is at most the
  capacity, and the consumer never reads a slot that holds no value.
\<close>

theorem spsc_safe:
  assumes "spsc_reachable kind (spsc_init sz cap xs) s"
    and "cap \<noteq> 0" and "sz \<noteq> 0" and "unat sz * unat cap < 2 ^ 64" and "length xs < 2 ^ 64"
  shows "got s = take (length (got s)) xs \<and> cpc s \<noteq> C_fault \<and>
    length (got s) + length (todo s) \<le> length xs \<and>
    length xs \<le> length (got s) + unat (max_cap (shared s)) + length (todo s)"
proof -
  have inv: "spsc_inv xs s" using spsc_reachable_inv [OF assms(1) spsc_init_inv] assms by blast
  then have m: "mem_ok xs s" by (simp add: spsc_inv_def)
  have "length (todo s) \<le> length xs"
    using m by (metis drop_eq_Nil diff_le_self length_drop mem_ok_def)
  then show ?thesis
    using inv by (auto simp: spsc_inv_def mem_ok_def cons_ok_def received_def sent_def)
qed

theorem spsc_safe_witness:
  "got (run_spsc Inline_class (replicate 10 True @ replicate 9 False) (spsc_init 8 2 [(5 :: nat, 0), (6, 1), (7, 0)])) =
   take (length (got (run_spsc Inline_class (replicate 10 True @ replicate 9 False)
     (spsc_init 8 2 [(5 :: nat, 0), (6, 1), (7, 0)])))) [(5, 0), (6, 1), (7, 0)]"
  by (rule conjunct1 [OF spsc_safe [OF run_spsc_reachable [OF spsc_reachable.start]]]) simp_all

text \<open>
  C8: closing loses nothing.  When the consumer has thrown ClosedPortAccess, in whatever
  interleaving, it had received every element the producer was given: the second size()
  after the check of is_valid is what makes this so, since elements may arrive between the
  first size() and the check.
\<close>

theorem spsc_closed_complete:
  assumes "spsc_reachable kind (spsc_init sz cap xs) s" and "cpc s = C_closed"
    and "cap \<noteq> 0" and "sz \<noteq> 0" and "unat sz * unat cap < 2 ^ 64" and "length xs < 2 ^ 64"
  shows "got s = xs"
proof -
  have "spsc_inv xs s" using spsc_reachable_inv [OF assms(1) spsc_init_inv] assms by blast
  then show ?thesis
    using assms(2) by (auto simp: spsc_inv_def mem_ok_def cons_ok_def prod_ok_def)
qed

definition whole_run :: "bool list" where
  "whole_run = replicate 20 True @ replicate 40 False"

theorem spsc_closed_complete_witness:
  "got (run_spsc Inline_nonclass whole_run (spsc_init 8 2 [(5 :: nat, 0), (6, 1)])) = [(5, 0), (6, 1)]"
proof (rule spsc_closed_complete)
  show "spsc_reachable Inline_nonclass (spsc_init 8 2 [(5 :: nat, 0), (6, 1)])
      (run_spsc Inline_nonclass whole_run (spsc_init 8 2 [(5, 0), (6, 1)]))"
    by (rule run_spsc_reachable [OF spsc_reachable.start])
  show "cpc (run_spsc Inline_nonclass whole_run (spsc_init 8 2 [(5 :: nat, 0), (6, 1)])) = C_closed"
    by code_simp
qed simp_all

end
