(* ===== verification/Scheduler.thy ===== *)
theory Scheduler
  imports Ring_Contract
begin

text \<open>
  The schedulers (src/schedule.cpp, src/simpleschedule.cpp, src/poolschedule.cpp, with
  src/systemsignalhandler.cpp, raftinc/kernelkeeper.tcc and the iteration over ports of
  src/portiterator.cpp).  Streams are numbered; a kernel is seen through its input and
  output streams, in the order its port containers iterate them, and its run function,
  which is the user's code and a field of the record.  The element type of all streams is
  one type variable: a sum of the types the program sends.
\<close>

section \<open>Kernels as the scheduler sees them\<close>

datatype kstatus = stop | proceed

type_synonym 'a streams = "nat \<Rightarrow> 'a fifo"

text \<open>raft::schedule_behavior is stored in a byte.\<close>

definition any_port :: u8 where "any_port = 0"
definition all_port :: u8 where "all_port = 1"

record 'a sched_kernel =
  k_id :: nat
  k_input :: "nat list"
  k_output :: "nat list"
  k_sched_behav :: u8
  k_run :: "'a streams \<Rightarrow> (kstatus, 'a streams) outcome"
  k_internal_alloc :: bool

text \<open>A call on the FIFO of one port.\<close>

definition at_port :: "nat \<Rightarrow> ('a fifo \<Rightarrow> ('r, 'a fifo) outcome) \<Rightarrow> 'a streams \<Rightarrow> ('r, 'a streams) outcome" where
  "at_port i f w =
     (case f (w i) of
        Returned r t \<Rightarrow> Returned r (w(i := t))
      | Spin t \<Rightarrow> Spin (w(i := t))
      | Raised e t \<Rightarrow> Raised e (w(i := t))
      | Fault x \<Rightarrow> Fault x)"

text \<open>port.hasPorts(): the container of ports is not empty.\<close>

definition hasPorts :: "nat list \<Rightarrow> bool" where
  "hasPorts ps = (ps \<noteq> [])"

section \<open>Signals\<close>

text \<open>
  A handler gets the stream that sent the signal, and the signal (its kernel and data
  arguments are part of the function).  addHandler replaces, callHandler throws when there
  is none.
\<close>

type_synonym 'a sighandler = "nat \<Rightarrow> signal \<Rightarrow> 'a streams \<Rightarrow> (kstatus, 'a streams) outcome"

definition addHandler :: "signal \<Rightarrow> 'a sighandler \<Rightarrow> (signal \<rightharpoonup> 'a sighandler) \<Rightarrow> (signal \<rightharpoonup> 'a sighandler)" where
  "addHandler sg h hs = hs(sg \<mapsto> h)"

definition callHandler ::
  "(signal \<rightharpoonup> 'a sighandler) \<Rightarrow> signal \<Rightarrow> nat \<Rightarrow> 'a streams \<Rightarrow> (kstatus, 'a streams) outcome" where
  "callHandler hs sg i w =
     (case hs sg of
        None \<Rightarrow> Raised NoSignalHandlerFound w
      | Some h \<Rightarrow> h i sg w)"

definition quitHandler :: "'a sighandler" where
  "quitHandler i sg w = Returned stop (w(i := invalidate (w i)))"

definition invalidateOutputPorts :: "'a sched_kernel \<Rightarrow> 'a streams \<Rightarrow> 'a streams" where
  "invalidateOutputPorts k w = fold (\<lambda>i w. w(i := invalidate (w i))) (k_output k) w"

text \<open>
  checkSystemSignal: the loop over the input ports with the return value so far.
  signal_pop is the FIFO's, with the assertion in it.
\<close>

fun checkSystemSignal_loop ::
  "(nat \<Rightarrow> alloc_kind) \<Rightarrow> (signal \<rightharpoonup> 'a sighandler) \<Rightarrow> nat list \<Rightarrow> kstatus \<Rightarrow> 'a streams
     \<Rightarrow> (kstatus, 'a streams) outcome" where
  "checkSystemSignal_loop kinds hs [] ret w = Returned ret w"
| "checkSystemSignal_loop kinds hs (i # is) ret w =
     bind_outcome (at_port i fifo_size w) (\<lambda>n w1.
       if n = 0 then checkSystemSignal_loop kinds hs is ret w1
       else bind_outcome (at_port i signal_peek w1) (\<lambda>sg w2.
         if 0 < sg \<and> sg < MAX_SYSTEM_SIGNAL then
           bind_outcome (at_port i (signal_pop (kinds i)) w2) (\<lambda>_ w3.
             bind_outcome (callHandler hs sg i w3) (\<lambda>r w4.
               checkSystemSignal_loop kinds hs is (if r = stop then stop else ret) w4))
         else checkSystemSignal_loop kinds hs is ret w2))"

definition checkSystemSignal ::
  "(nat \<Rightarrow> alloc_kind) \<Rightarrow> (signal \<rightharpoonup> 'a sighandler) \<Rightarrow> 'a sched_kernel \<Rightarrow> 'a streams
     \<Rightarrow> (kstatus, 'a streams) outcome" where
  "checkSystemSignal kinds hs k w = checkSystemSignal_loop kinds hs (k_input k) proceed w"

section \<open>When a kernel runs\<close>

fun any_port_has_data :: "nat list \<Rightarrow> 'a streams \<Rightarrow> (bool, 'a streams) outcome" where
  "any_port_has_data [] w = Returned False w"
| "any_port_has_data (i # is) w =
     bind_outcome (at_port i fifo_size w) (\<lambda>n w1.
       if n > 0 then Returned True w1 else any_port_has_data is w1)"

fun all_ports_have_data :: "nat list \<Rightarrow> 'a streams \<Rightarrow> (bool, 'a streams) outcome" where
  "all_ports_have_data [] w = Returned True w"
| "all_ports_have_data (i # is) w =
     bind_outcome (at_port i fifo_size w) (\<lambda>n w1.
       if n = 0 then Returned False w1 else all_ports_have_data is w1)"

definition kernelHasInputData :: "'a sched_kernel \<Rightarrow> 'a streams \<Rightarrow> (bool, 'a streams) outcome" where
  "kernelHasInputData k w =
     (if \<not> hasPorts (k_input k) then Returned True w
      else if k_sched_behav k = any_port then any_port_has_data (k_input k) w
      else if k_sched_behav k = all_port then all_ports_have_data (k_input k) w
      else Fault ProcessExit)"

definition kernelHasNoInputPorts :: "'a sched_kernel \<Rightarrow> 'a streams \<Rightarrow> bool" where
  "kernelHasNoInputPorts k w = list_all (\<lambda>i. is_invalid (w i)) (k_input k)"

text \<open>
  kernelRun: first the kernel may run, then it may be found finished; the result of each
  part is the return value with the finished flag.  The other threads of the program may
  act in the middle of the second part: between is what they do between the check of the
  ports and the second look at the data (the identity in a quiet system).
\<close>

definition kernelRun_first :: "'a sched_kernel \<Rightarrow> bool \<Rightarrow> 'a streams \<Rightarrow> (bool \<times> bool, 'a streams) outcome" where
  "kernelRun_first k finished w =
     bind_outcome (kernelHasInputData k w) (\<lambda>has w1.
       if has then
         bind_outcome (k_run k w1) (\<lambda>sig_status w2.
           if sig_status = stop then Returned (True, True) (invalidateOutputPorts k w2)
           else Returned (True, finished) w2)
       else Returned (False, finished) w1)"

definition kernelRun_second ::
  "('a streams \<Rightarrow> 'a streams) \<Rightarrow> 'a sched_kernel \<Rightarrow> bool \<Rightarrow> bool \<Rightarrow> 'a streams
     \<Rightarrow> (bool \<times> bool, 'a streams) outcome" where
  "kernelRun_second between k retCode finished w =
     (if kernelHasNoInputPorts k w then
        bind_outcome (kernelHasInputData k (between w)) (\<lambda>has w1.
          if \<not> has then Returned (retCode, True) (invalidateOutputPorts k w1)
          else Returned (retCode, finished) w1)
      else Returned (retCode, finished) w)"

definition kernelRun_between ::
  "('a streams \<Rightarrow> 'a streams) \<Rightarrow> 'a sched_kernel \<Rightarrow> bool \<Rightarrow> 'a streams
     \<Rightarrow> (bool \<times> bool, 'a streams) outcome" where
  "kernelRun_between between k finished w =
     bind_outcome (kernelRun_first k finished w) (\<lambda>(retCode, fin) w1.
       kernelRun_second between k retCode fin w1)"

definition kernelRun ::
  "'a sched_kernel \<Rightarrow> bool \<Rightarrow> 'a streams \<Rightarrow> (bool \<times> bool, 'a streams) outcome" where
  "kernelRun k finished w = kernelRun_between (\<lambda>w. w) k finished w"

section \<open>Kernels known to a scheduler\<close>

text \<open>The keepers are sets of kernels: adding is insertion.\<close>

record sched_sets =
  source_kernels :: "nat set"
  dst_kernels :: "nat set"
  kernel_set :: "nat set"
  internally_created_kernels :: "nat set"

definition scheduleKernel :: "('a sched_kernel \<Rightarrow> 'h \<Rightarrow> 'h) \<Rightarrow> 'a sched_kernel \<Rightarrow> sched_sets \<times> 'h \<Rightarrow> sched_sets \<times> 'h" where
  "scheduleKernel handleSchedule k sh =
     (let s0 = fst sh;
          s1 = (if \<not> hasPorts (k_input k)
                then s0\<lparr>source_kernels := keeper_add (k_id k) (source_kernels s0)\<rparr> else s0);
          s2 = (if \<not> hasPorts (k_output k)
                then s1\<lparr>dst_kernels := keeper_add (k_id k) (dst_kernels s1)\<rparr> else s1);
          s3 = s2\<lparr>kernel_set := keeper_add (k_id k) (kernel_set s2)\<rparr>;
          s4 = (if k_internal_alloc k
                then s3\<lparr>internally_created_kernels := keeper_add (k_id k) (internally_created_kernels s3)\<rparr>
                else s3)
      in (s4, handleSchedule k (snd sh)))"

section \<open>The thread-per-kernel scheduler\<close>

record thread_info =
  ti_kernel :: nat
  ti_finished :: bool
  ti_term :: bool

definition simple_handleSchedule :: "'a sched_kernel \<Rightarrow> thread_info list \<Rightarrow> thread_info list" where
  "simple_handleSchedule k m = m @ [\<lparr>ti_kernel = k_id k, ti_finished = False, ti_term = False\<rparr>]"

text \<open>
  One pass of the loop in start: the flag that says whether to keep going, and the list with
  the threads that were joined marked.
\<close>

fun simple_start_pass :: "thread_info list \<Rightarrow> bool \<times> thread_info list" where
  "simple_start_pass [] = (False, [])"
| "simple_start_pass (t # ts) =
     (let (keep, ts') = simple_start_pass ts
      in if \<not> ti_term t then
           (if ti_finished t then (keep, t\<lparr>ti_term := True\<rparr> # ts')
            else (True, t # ts'))
         else (keep, t # ts'))"

section \<open>Memory in flight\<close>

text \<open>
  fifo_gc.  in_ptrs are the keys of the std::map of objects popped, out_ptrs the elements
  of the std::set of objects sent on, both in increasing order; the result is the list of
  pointers whose recycle function is called, in order.  None: the iterator of in is read
  at its end.
\<close>

fun fifo_gc :: "'p list \<Rightarrow> 'p list \<Rightarrow> 'p list option" where
  "fifo_gc ins [] = Some ins"
| "fifo_gc [] (out # outs) = None"
| "fifo_gc (i # ins) (out # outs) =
     (if out \<noteq> i then map_option (Cons i) (fifo_gc ins (out # outs))
      else fifo_gc ins outs)"

text \<open>
  setPtrSets: which containers the two ends of a stream report to (by number).  All the
  ports of one kernel share the three containers of its thread.
\<close>

record ptr_ends =
  consumer_in :: "nat option"
  consumer_in_peek :: "nat option"
  producer_out :: "nat option"
  producer_out_peek :: "nat option"

definition setPtrSets ::
  "nat list \<Rightarrow> nat list \<Rightarrow> nat \<Rightarrow> nat \<Rightarrow> nat \<Rightarrow> (nat \<Rightarrow> ptr_ends) \<Rightarrow> (nat \<Rightarrow> ptr_ends)" where
  "setPtrSets inputs outputs in_c out_c peekset e =
     fold (\<lambda>i e. e(i := (e i)\<lparr>producer_out := Some out_c, producer_out_peek := Some peekset\<rparr>)) outputs
       (fold (\<lambda>i e. e(i := (e i)\<lparr>consumer_in := Some in_c, consumer_in_peek := Some peekset\<rparr>)) inputs e)"

section \<open>The loops of the threads\<close>

text \<open>
  One pass of simple_run: the result says whether the kernel was scheduled (else the thread
  sleeps), with the finished flag.  The pointers in flight are collected after every pass;
  the containers are filled by the kernel and given here as arguments.
\<close>

definition simple_run_pass ::
  "'a sched_kernel \<Rightarrow> 'p list \<Rightarrow> 'p list \<Rightarrow> bool \<Rightarrow> 'a streams
     \<Rightarrow> (bool \<times> bool \<times> 'p list, 'a streams) outcome" where
  "simple_run_pass k ins outs finished w =
     bind_outcome (kernelRun k finished w) (\<lambda>(valid, fin) w1.
       case fifo_gc ins outs of
         None \<Rightarrow> Fault OutOfRange
       | Some freed \<Rightarrow> Returned (valid, fin, freed) w1)"

text \<open>The loop over at most n passes, for a kernel that has no pointers in flight.\<close>

fun simple_run :: "'a sched_kernel \<Rightarrow> nat \<Rightarrow> 'a streams \<Rightarrow> (bool, 'a streams) outcome" where
  "simple_run k 0 w = Returned False w"
| "simple_run k (Suc n) w =
     (case simple_run_pass k ([] :: nat list) [] False w of
        Returned (valid, fin, freed) w1 \<Rightarrow> if fin then Returned True w1 else simple_run k n w1
      | Spin w1 \<Rightarrow> Spin w1
      | Raised e w1 \<Rightarrow> Raised e w1
      | Fault f \<Rightarrow> Fault f)"

text \<open>
  pool_run: the byte run_count is incremented after each comparison; a collection happens
  when it was 20, or at the end.  The result of a pass is whether it collected, the new
  count and the done flag.
\<close>

definition pool_run_pass ::
  "'a sched_kernel \<Rightarrow> u8 \<Rightarrow> 'a streams \<Rightarrow> (bool \<times> u8 \<times> bool, 'a streams) outcome" where
  "pool_run_pass k run_count w =
     bind_outcome (kernelRun k False w) (\<lambda>(_, done_flag) w1.
       if run_count = 20 \<or> done_flag then Returned (True, 0, done_flag) w1
       else Returned (False, run_count + 1, done_flag) w1)"

text \<open>The pool keeps all threads, and apart those of kernels without outputs.\<close>

record pool_state =
  thread_data_pool :: "nat list"
  tail :: "nat list"

definition pool_handleSchedule :: "'a sched_kernel \<Rightarrow> pool_state \<Rightarrow> pool_state" where
  "pool_handleSchedule k p =
     (let p1 = p\<lparr>thread_data_pool := thread_data_pool p @ [k_id k]\<rparr>
      in if \<not> hasPorts (k_output k) then p1\<lparr>tail := tail p1 @ [k_id k]\<rparr> else p1)"

text \<open>One pass of start's wait: True when every thread of the tail has finished.\<close>

fun pool_start_pass :: "(nat \<Rightarrow> bool) \<Rightarrow> nat list \<Rightarrow> bool" where
  "pool_start_pass finished [] = True"
| "pool_start_pass finished (t # ts) = (if \<not> finished t then False else pool_start_pass finished ts)"

section \<open>Lemmas\<close>

text \<open>No stream is being resized, and all are well-formed.\<close>

definition quiet :: "'a streams \<Rightarrow> bool" where
  "quiet w \<longleftrightarrow> (\<forall>i. fifo_ok (w i) \<and> \<not> resizing (w i))"

lemma at_port_size:
  assumes "quiet w"
  obtains n where "at_port i fifo_size w = Returned n w" "unat n = length (queue (w i))"
proof -
  obtain n where "fifo_size (w i) = Returned n (w i)" "unat n = length (queue (w i))"
    using size_known [of "w i"] assms by (auto simp: quiet_def)
  then show thesis using that by (simp add: at_port_def)
qed

lemma any_port_has_data_eq:
  assumes "quiet w"
  shows "any_port_has_data is w = Returned (\<exists>i \<in> set is. queue (w i) \<noteq> []) w"
proof (induction "is")
  case (Cons i "is")
  obtain n where "at_port i fifo_size w = Returned n w" "unat n = length (queue (w i))"
    by (rule at_port_size [OF assms])
  then show ?case using Cons.IH by (auto simp: word_pos_iff)
qed simp

lemma all_ports_have_data_eq:
  assumes "quiet w"
  shows "all_ports_have_data is w = Returned (\<forall>i \<in> set is. queue (w i) \<noteq> []) w"
proof (induction "is")
  case (Cons i "is")
  obtain n where "at_port i fifo_size w = Returned n w" "unat n = length (queue (w i))"
    by (rule at_port_size [OF assms])
  then show ?case using Cons.IH by (auto simp: word_zero_iff)
qed simp

lemma fold_invalidate:
  "fold (\<lambda>i w. w(i := invalidate (w i))) is w j = (if j \<in> set is then invalidate (w j) else w j)"
  by (induction "is" arbitrary: w) (auto simp: invalidate_def upd_buffer_def)

lemma invalidateOutputPorts_at:
  "invalidateOutputPorts k w j = (if j \<in> set (k_output k) then invalidate (w j) else w j)"
  by (simp add: invalidateOutputPorts_def fold_invalidate)

lemma invalidate_invalid [simp]: "is_invalid (invalidate s)"
  by (simp add: is_invalid_def invalidate_def)

lemma invalidate_queue [simp]: "queue (invalidate s) = queue s"
  by (simp add: queue_def contents_def data_slot_def invalidate_def cong: map_cong)

lemma invalidate_resizing [simp]: "resizing (invalidate s) = resizing s"
  by (simp add: invalidate_def)

lemma invalidate_fifo_ok [simp]: "fifo_ok (invalidate s) = fifo_ok s"
  by (simp add: fifo_ok_def buf_ok_def signals_ok_def invalidate_def)

lemma invalidateOutputPorts_simps [simp]:
  "queue (invalidateOutputPorts k w j) = queue (w j)"
  "quiet (invalidateOutputPorts k w) = quiet w"
  "i \<in> set (k_output k) \<Longrightarrow> is_invalid (invalidateOutputPorts k w i)"
  "is_invalid (w j) \<Longrightarrow> is_invalid (invalidateOutputPorts k w j)"
  by (auto simp: invalidateOutputPorts_at quiet_def)

text \<open>The two scheduling behaviours.\<close>

definition wants_data :: "'a sched_kernel \<Rightarrow> 'a streams \<Rightarrow> bool" where
  "wants_data k w \<longleftrightarrow>
     k_input k = [] \<or>
     (if k_sched_behav k = any_port then \<exists>i \<in> set (k_input k). queue (w i) \<noteq> []
      else \<forall>i \<in> set (k_input k). queue (w i) \<noteq> [])"

lemma kernelHasInputData_eq:
  assumes "quiet w" and "k_sched_behav k = any_port \<or> k_sched_behav k = all_port"
  shows "kernelHasInputData k w = Returned (wants_data k w) w"
  using assms any_port_has_data_eq [OF assms(1)] all_ports_have_data_eq [OF assms(1)]
  by (auto simp: kernelHasInputData_def wants_data_def hasPorts_def any_port_def all_port_def)

lemma kernelHasNoInputPorts_eq: "kernelHasNoInputPorts k w = (\<forall>i \<in> set (k_input k). is_invalid (w i))"
  by (simp add: kernelHasNoInputPorts_def list_all_iff)

text \<open>
  What the rest of the program may do to the streams of a kernel: nothing to a stream once
  it is invalid (its producer is finished), anything orderly to the others.
\<close>

definition producer_contract :: "('a streams \<Rightarrow> 'a streams) \<Rightarrow> bool" where
  "producer_contract f \<longleftrightarrow> (\<forall>w i. quiet w \<longrightarrow> quiet (f w) \<and> (is_invalid (w i) \<longrightarrow> f w i = w i))"

definition behaved :: "'a sched_kernel \<Rightarrow> bool" where
  "behaved k \<longleftrightarrow>
     (k_sched_behav k = any_port \<or> k_sched_behav k = all_port) \<and>
     (\<forall>w r t. quiet w \<longrightarrow> k_run k w = Returned r t \<longrightarrow> quiet t)"

lemma kernelRun_first_cases:
  assumes q: "quiet w" and k: "behaved k" and run: "kernelRun_first k False w = Returned (rc, fin) t"
  obtains (ran_stop) w1 where "wants_data k w" "k_run k w = Returned stop w1"
      "t = invalidateOutputPorts k w1" "rc" "fin" "quiet t"
  | (ran) "wants_data k w" "k_run k w = Returned proceed t" "rc" "\<not> fin" "quiet t"
  | (idle) "\<not> wants_data k w" "t = w" "\<not> rc" "\<not> fin"
proof -
  have b: "k_sched_behav k = any_port \<or> k_sched_behav k = all_port" using k by (simp add: behaved_def)
  have keep: "k_run k w = Returned st w1 \<Longrightarrow> quiet w1" for st w1
    using k q by (auto simp: behaved_def)
  show thesis
  proof (cases "wants_data k w")
    case False
    then have "t = w" "\<not> rc" "\<not> fin"
      using run by (auto simp: kernelRun_first_def kernelHasInputData_eq [OF q b])
    with False show thesis by (rule idle)
  next
    case True
    then obtain st w1 where w1: "k_run k w = Returned st w1"
      using run by (cases "k_run k w") (auto simp: kernelRun_first_def kernelHasInputData_eq [OF q b])
    show thesis
    proof (cases st)
      case stop
      then have "t = invalidateOutputPorts k w1" "rc" "fin"
        using True w1 run by (auto simp: kernelRun_first_def kernelHasInputData_eq [OF q b])
      then show thesis using ran_stop [OF True] w1 stop keep [OF w1] by auto
    next
      case proceed
      then have t: "t = w1" "rc" "\<not> fin"
        using True w1 run by (auto simp: kernelRun_first_def kernelHasInputData_eq [OF q b])
      show thesis by (rule ran [OF True]) (use t w1 proceed keep [OF w1] in simp_all)
    qed
  qed
qed

lemma kernelRun_second_eq:
  assumes q: "quiet w" and b: "k_sched_behav k = any_port \<or> k_sched_behav k = all_port"
    and f: "producer_contract f"
  shows "kernelRun_second f k rc fin w =
    (if \<forall>i \<in> set (k_input k). is_invalid (w i) then
       (if \<not> wants_data k (f w) then Returned (rc, True) (invalidateOutputPorts k (f w))
        else Returned (rc, fin) (f w))
     else Returned (rc, fin) w)"
proof -
  have "quiet (f w)" using f q by (simp add: producer_contract_def)
  then show ?thesis
    by (simp add: kernelRun_second_def kernelHasNoInputPorts_eq kernelHasInputData_eq [OF _ b])
qed

lemma producer_contract_id [simp]: "producer_contract (\<lambda>w. w)"
  by (simp add: producer_contract_def)

lemma producer_contractD:
  assumes "producer_contract f" and "quiet w"
  shows "quiet (f w)" and "is_invalid (w i) \<Longrightarrow> f w i = w i"
  using assms by (auto simp: producer_contract_def)

lemma wants_data_inputs:
  assumes "\<And>i. i \<in> set (k_input k) \<Longrightarrow> queue (v i) = queue (w i)"
  shows "wants_data k v = wants_data k w"
  using assms by (simp add: wants_data_def)

end
