(* ===== verification/Scheduler_Props.thy ===== *)
theory Scheduler_Props
  imports Scheduler Ring_Props
begin

text \<open>
  The properties of the schedulers: when a kernel is finished and what it leaves, what
  the signal check does, the collection of pointers, and when a program ends.
\<close>

section \<open>Finishing a kernel\<close>

lemmas idle_stream_ok = fresh_ok [of 16, simplified]


text \<open>A sink that pops one element of stream 0 per run.\<close>

definition pop_run :: "nat \<Rightarrow> nat streams \<Rightarrow> (kstatus, nat streams) outcome" where
  "pop_run i w = bind_outcome (at_port i (pop_elem Inline_nonclass) w) (\<lambda>_ w1. Returned proceed w1)"

definition demo_sink :: "nat sched_kernel" where
  "demo_sink = \<lparr>k_id = 1, k_input = [0], k_output = [1], k_sched_behav = any_port,
     k_run = (\<lambda>w. Returned proceed w), k_internal_alloc = False\<rparr>"

definition closed_world :: "nat streams" where
  "closed_world = (\<lambda>i. invalidate (fresh 16))"

lemma closed_world_quiet [simp]: "quiet closed_world"
  using idle_stream_ok(2) by (simp add: quiet_def closed_world_def ring_inv_def)

lemma demo_sink_behaved [simp]: "behaved demo_sink"
  by (simp add: behaved_def demo_sink_def)

lemma closed_world_run:
  "kernelRun_between (\<lambda>w. w) demo_sink False closed_world =
    Returned (False, True) (invalidateOutputPorts demo_sink closed_world)"
proof -
  have e: "\<not> wants_data demo_sink closed_world"
    using idle_stream_ok(3) by (simp add: wants_data_def demo_sink_def closed_world_def elems_def)
  have "kernelHasInputData demo_sink closed_world = Returned False closed_world"
    using e kernelHasInputData_eq [of closed_world demo_sink] by (simp add: demo_sink_def)
  then have "kernelRun_first demo_sink False closed_world = Returned (False, False) closed_world"
    by (simp add: kernelRun_first_def)
  moreover have "\<forall>i \<in> set (k_input demo_sink). is_invalid (closed_world i)"
    by (simp add: closed_world_def)
  moreover have "k_sched_behav demo_sink = any_port" by (simp add: demo_sink_def)
  ultimately show ?thesis
    using e by (simp add: kernelRun_between_def kernelRun_second_eq)
qed


text \<open>
  C38: a kernel that runs only when all inputs have data is finished as soon as its inputs
  are closed and one of them is empty, whatever the others still hold: it is not run
  again, its outputs are closed and the elements stay in the streams.
\<close>

theorem all_port_kernel_drops_rest:
  assumes "quiet w" and "k_sched_behav k = all_port"
    and "i \<in> set (k_input k)" and "queue (w i) = []"
    and "\<forall>j \<in> set (k_input k). is_invalid (w j)"
  shows "kernelRun k False w = Returned (False, True) (invalidateOutputPorts k w) \<and>
    (\<forall>j. queue (invalidateOutputPorts k w j) = queue (w j))"
proof -
  have e: "\<not> wants_data k w"
    using assms(2,3,4) by (auto simp: wants_data_def any_port_def all_port_def)
  have "kernelHasInputData k w = Returned False w"
    using e kernelHasInputData_eq [OF assms(1)] assms(2) by simp
  then have "kernelRun_first k False w = Returned (False, False) w"
    by (simp add: kernelRun_first_def)
  then show ?thesis
    using e assms(2,5) kernelRun_second_eq [OF assms(1) _ producer_contract_id]
    by (simp add: kernelRun_def kernelRun_between_def)
qed

definition half_world :: "nat streams" where
  "half_world = (\<lambda>i. if i = 1 then
     invalidate (case push_elem (7, 0) (fresh 16) of Returned _ t \<Rightarrow> t | _ \<Rightarrow> (fresh 16))
     else invalidate (fresh 16))"

definition demo_join :: "nat sched_kernel" where
  "demo_join = demo_sink\<lparr>k_input := [0, 1], k_output := [2], k_sched_behav := all_port\<rparr>"

lemma half_world_quiet: "quiet half_world" "queue (half_world 0) = []" "elems (half_world 1) = [(7, 0)]"
proof -
  obtain t where t: "push_elem (7, 0) (fresh 16) = Returned () t" "ring_inv t" "elems t = [(7, 0)]"
    using push_elem_accepts [of "fresh 16" "(7, 0)"] idle_stream_ok by auto
  then show "quiet half_world" "queue (half_world 0) = []" "elems (half_world 1) = [(7, 0)]"
    using idle_stream_ok(2,3) by (simp_all add: half_world_def quiet_def ring_inv_def elems_def)
qed

theorem all_port_kernel_drops_rest_witness:
  "kernelRun demo_join False half_world = Returned (False, True) (invalidateOutputPorts demo_join half_world) \<and>
    (\<forall>j. queue (invalidateOutputPorts demo_join half_world j) = queue (half_world j))"
  by (rule all_port_kernel_drops_rest [of half_world demo_join 0])
    (use half_world_quiet in \<open>simp_all add: demo_join_def demo_sink_def half_world_def\<close>)

section \<open>The end of a thread\<close>

text \<open>
  Fact: the thread of a kernel with one closed input ends.  If every run takes one element
  from the input (and keeps what I says of the streams), n + 1 passes of the loop are
  enough for n elements, after which the input is empty and the outputs are closed.
\<close>

theorem closed_input_ends_thread:
  assumes "I w" and "k_sched_behav k = any_port" and "k_input k = [i]"
    and "\<And>w. I w \<Longrightarrow> quiet w \<and> is_invalid (w i)"
    and "\<And>w. I w \<Longrightarrow> queue (w i) \<noteq> [] \<Longrightarrow>
      \<exists>t. k_run k w = Returned proceed t \<and> I t \<and> queue (t i) = tl (queue (w i))"
  shows "\<exists>t. simple_run k (length (queue (w i)) + 1) w = Returned True t \<and>
    queue (t i) = [] \<and> (\<forall>j \<in> set (k_output k). is_invalid (t j))"
  using assms(1)
proof (induction "length (queue (w i))" arbitrary: w)
  case 0
  have b: "k_sched_behav k = any_port \<or> k_sched_behav k = all_port" using assms(2) by simp
  have q: "quiet w" "is_invalid (w i)" using assms(4) 0 by simp_all
  have e: "\<not> wants_data k w" using 0 assms(2,3) by (simp add: wants_data_def)
  have "kernelRun_first k False w = Returned (False, False) w"
    using e kernelHasInputData_eq [OF q(1) b] by (simp add: kernelRun_first_def)
  then have "kernelRun k False w = Returned (False, True) (invalidateOutputPorts k w)"
    using e q assms(3) kernelRun_second_eq [OF q(1) b producer_contract_id]
    by (simp add: kernelRun_def kernelRun_between_def)
  then show ?case using 0 by (simp add: simple_run_pass_def)
next
  case (Suc n)
  have b: "k_sched_behav k = any_port \<or> k_sched_behav k = all_port" using assms(2) by simp
  have q: "quiet w" using assms(4) Suc.prems by simp
  have ne: "queue (w i) \<noteq> []" using Suc(2) by auto
  have wd: "wants_data k w" using ne assms(2,3) by (simp add: wants_data_def)
  obtain t where t: "k_run k w = Returned proceed t" "I t" "queue (t i) = tl (queue (w i))"
    using assms(5) [OF Suc.prems ne] by blast
  have qt: "quiet t" "is_invalid (t i)" using assms(4) t(2) by simp_all
  have first: "kernelRun_first k False w = Returned (True, False) t"
    using wd t(1) kernelHasInputData_eq [OF q b] by (simp add: kernelRun_first_def)
  have len: "n = length (queue (t i))" using Suc(2) t(3) by simp
  have more: "length (queue (w i)) + 1 = Suc (n + 1)" using Suc(2) by simp
  note sec = kernelRun_second_eq [OF qt(1) b producer_contract_id, of True False]
  show ?case
  proof (cases "wants_data k t")
    case True
    then have "kernelRun k False w = Returned (True, False) t"
      using first sec by (simp add: kernelRun_def kernelRun_between_def)
    then have "simple_run k (length (queue (w i)) + 1) w = simple_run k (n + 1) t"
      unfolding more by (simp add: simple_run_pass_def)
    with Suc.hyps(1) [OF len t(2)] show ?thesis using len by simp
  next
    case False
    then have "kernelRun k False w = Returned (True, True) (invalidateOutputPorts k t)"
      using first sec qt(2) assms(3) by (simp add: kernelRun_def kernelRun_between_def)
    moreover have "queue (t i) = []" using False assms(2,3) by (simp add: wants_data_def)
    ultimately show ?thesis unfolding more by (simp add: simple_run_pass_def)
  qed
qed

definition demo_popper :: "nat sched_kernel" where
  "demo_popper = demo_sink\<lparr>k_run := pop_run 0\<rparr>"

definition popper_inv :: "nat streams \<Rightarrow> bool" where
  "popper_inv w \<longleftrightarrow> quiet w \<and> ring_inv (w 0) \<and> 0 < room (w 0) \<and> is_invalid (w 0)"

lemma popper_step:
  assumes "popper_inv w" and "queue (w 0) \<noteq> []"
  shows "\<exists>t. pop_run 0 w = Returned proceed t \<and> popper_inv t \<and> queue (t 0) = tl (queue (w 0))"
proof -
  have w: "quiet w" "ring_inv (w 0)" "0 < room (w 0)" "is_invalid (w 0)"
    using assms(1) by (simp_all add: popper_inv_def)
  obtain e q where e: "elems (w 0) = e # q"
    using assms(2) by (cases "queue (w 0)") (auto simp: elems_def)
  obtain u where u: "pop_elem Inline_nonclass (w 0) = Returned e u" "ring_inv u" "elems u = q"
    "room u = room (w 0)" "is_invalid u = is_invalid (w 0)"
    using pop_elem_takes [OF w(2) e w(3), of Inline_nonclass] by auto
  have "quiet (w(0 := u))" using w(1) u(2) by (simp add: quiet_def ring_inv_def)
  moreover have "queue u = tl (queue (w 0))"
    using live_queue_elems [of u] live_queue_elems [of "w 0"] u(2,3) w(2) e by (simp add: ring_inv_def)
  ultimately show ?thesis
    using u w by (simp add: pop_run_def at_port_def popper_inv_def)
qed

theorem closed_input_ends_thread_witness:
  "\<exists>t. simple_run demo_popper (length (queue (invalidate (two 16))) + 1) (\<lambda>i. invalidate (two 16)) = Returned True t \<and>
    queue (t 0) = [] \<and> (\<forall>j \<in> set (k_output demo_popper). is_invalid (t j))"
proof (rule closed_input_ends_thread [of popper_inv "\<lambda>i. invalidate (two 16)" demo_popper 0])
  show "popper_inv (\<lambda>i. invalidate (two 16))"
    using two_ok [of 16] ring_inv_def [of "two 16"] by (simp add: popper_inv_def quiet_def)
  show "\<And>w. popper_inv w \<Longrightarrow> queue (w 0) \<noteq> [] \<Longrightarrow>
      \<exists>t. k_run demo_popper w = Returned proceed t \<and> popper_inv t \<and> queue (t 0) = tl (queue (w 0))"
    using popper_step by (simp add: demo_popper_def demo_sink_def)
qed (simp_all add: demo_popper_def demo_sink_def popper_inv_def)

section \<open>Signals and memory\<close>

text \<open>The head of a stream carries a system signal.\<close>

definition pending :: "'a fifo \<Rightarrow> bool" where
  "pending s \<longleftrightarrow> (\<exists>v sg q. elems s = (v, sg) # q \<and> 0 < sg \<and> sg < MAX_SYSTEM_SIGNAL)"

lemma signal_peek_head:
  assumes "ring_inv s" and "elems s = (v, sg) # q"
  shows "signal_peek s = Returned sg s"
proof -
  have ok: "buf_ok (buffer s)" "signals_ok (buffer s)" using assms(1) by (simp_all add: ring_inv_def fifo_ok_def)
  have q: "queue s = (Some v, sg) # map (\<lambda>(v, sg). (Some v, sg)) q"
    using assms live_queue_elems [of s] by (simp add: ring_inv_def)
  show ?thesis
    using queue_head_slot(2) [OF ok(1) q] slot_bounds(4) [OF ok]
    by (simp add: signal_peek_def read_signal_def Signal_conv_def)
qed

lemma signal_pop_faults:
  assumes "ring_inv s" and "elems s \<noteq> []"
  shows "signal_pop kind s = Fault AssertionFailed"
proof -
  have ok: "fifo_ok s" "\<not> resizing s" using assms(1) by (simp_all add: ring_inv_def)
  have same: "same_queue s (enterBuffer dm_pop s)" by simp
  note s1 = same_queue_simps [OF same]
  obtain n where n: "fifo_size (enterBuffer dm_pop s) = Returned n (enterBuffer dm_pop s)"
    "unat n = length (queue (enterBuffer dm_pop s))"
    using size_known [of "enterBuffer dm_pop s"] ok s1 by auto
  have "0 < n" using n(2) s1 assms(2) by (cases "queue s") (auto simp: elems_def word_pos_iff)
  then show ?thesis
    using n ok s1 by (simp add: signal_pop_def local_pop_def Let_def notResizing_def pop_commit_def)
qed

lemma checkSystemSignal_loop_eq:
  assumes "\<forall>i. ring_inv (w i)"
  shows "checkSystemSignal_loop kinds hs is ret w =
    (if \<exists>i \<in> set is. pending (w i) then Fault AssertionFailed else Returned ret w)"
proof (induction "is")
  case (Cons i "is")
  have q: "quiet w" and r: "ring_inv (w i)" using assms by (simp_all add: quiet_def ring_inv_def)
  obtain n where n: "at_port i fifo_size w = Returned n w" "unat n = length (queue (w i))"
    by (rule at_port_size [OF q])
  show ?case
  proof (cases "elems (w i)")
    case Nil
    then have "n = 0" using n(2) by (simp add: elems_def word_zero_iff)
    then show ?thesis using n Nil Cons.IH by (simp add: pending_def)
  next
    case (Cons e es)
    obtain v sg where e: "e = (v, sg)" by (cases e)
    have "n \<noteq> 0" using n(2) Cons by (auto simp: elems_def word_zero_iff)
    moreover have "at_port i signal_peek w = Returned sg w"
      using signal_peek_head [OF r Cons [unfolded e]] by (simp add: at_port_def)
    moreover have "at_port i (signal_pop (kinds i)) w = Fault AssertionFailed"
      using signal_pop_faults [OF r] Cons by (simp add: at_port_def)
    moreover have "pending (w i) \<longleftrightarrow> 0 < sg \<and> sg < MAX_SYSTEM_SIGNAL"
      using Cons e by (simp add: pending_def)
    ultimately show ?thesis using n(1) Cons.IH by auto
  qed
qed simp

text \<open>
  Fact: the signal check cannot deliver a signal.  As soon as the element at the head of
  some input carries a system signal, consuming it fails the assertion in local_pop, and no
  handler is called; without one, and for end-of-file, which is not below
  MAX_SYSTEM_SIGNAL, the check does nothing.
\<close>

theorem checkSystemSignal_never_delivers:
  assumes "\<forall>i. ring_inv (w i)"
  shows "checkSystemSignal kinds hs k w =
    (if \<exists>i \<in> set (k_input k). pending (w i) then Fault AssertionFailed else Returned proceed w)"
  unfolding checkSystemSignal_def by (rule checkSystemSignal_loop_eq [OF assms])

theorem checkSystemSignal_never_delivers_witness:
  "checkSystemSignal (\<lambda>i. Inline_class) (addHandler sig_quit quitHandler (\<lambda>_. None)) demo_sink (\<lambda>i. two 16) =
    (if \<exists>i \<in> set (k_input demo_sink). pending (two 16) then Fault AssertionFailed else Returned proceed (\<lambda>i. two 16))"
  by (rule checkSystemSignal_never_delivers) (simp add: two_ok)

lemma fifo_gc_Some:
  assumes "sorted_wrt (<) ins" and "sorted_wrt (<) outs" and "set outs \<subseteq> set ins"
  shows "fifo_gc ins outs = Some (filter (\<lambda>p. p \<notin> set outs) (ins :: 'p :: linorder list))"
  using assms
proof (induction ins outs rule: fifo_gc.induct)
  case (3 i ins out outs)
  show ?case
  proof (cases "out = i")
    case True
    have "set outs \<subseteq> set ins" using "3.prems" True by auto
    moreover have "i \<notin> set ins" using "3.prems"(1) by auto
    ultimately show ?thesis using 3 True by (auto intro!: filter_cong)
  next
    case False
    then have o: "out \<in> set ins" using "3.prems"(3) by auto
    then have lt: "i < out" using "3.prems"(1) by auto
    then have "i \<notin> set (out # outs)" using "3.prems"(2) by auto
    moreover have "set (out # outs) \<subseteq> set ins" using "3.prems"(3) calculation by auto
    ultimately show ?thesis using 3 False by auto
  qed
qed auto

lemma fifo_gc_None:
  assumes "sorted_wrt (<) ins" and "sorted_wrt (<) outs" and "\<not> set outs \<subseteq> set (ins :: 'p :: linorder list)"
  shows "fifo_gc ins outs = None"
  using assms
proof (induction ins outs rule: fifo_gc.induct)
  case (3 i ins out outs)
  show ?case
  proof (cases "out = i")
    case True
    have "i \<notin> set outs" using "3.prems"(2) True by auto
    then have "\<not> set outs \<subseteq> set ins" using "3.prems"(3) True by auto
    then show ?thesis using 3 True by auto
  next
    case False
    have "\<not> set (out # outs) \<subseteq> set ins" using "3.prems"(3) by auto
    then show ?thesis using 3 False by auto
  qed
qed auto

text \<open>
  Fact: the collection of pointers frees each object that was taken and not sent on, once.
  It is exact when everything sent on had been taken, as for a kernel that only forwards;
  otherwise the iterator over the taken objects runs past its end.
\<close>

theorem fifo_gc_frees_the_rest:
  assumes "sorted_wrt (<) ins" and "sorted_wrt (<) (outs :: nat list)"
  shows "fifo_gc ins outs =
    (if set outs \<subseteq> set ins then Some (filter (\<lambda>p. p \<notin> set outs) ins) else None)"
  using fifo_gc_Some [OF assms] fifo_gc_None [OF assms] by simp

theorem fifo_gc_frees_the_rest_witness:
  "fifo_gc [10, 20, 30] [20 :: nat] =
    (if set [20] \<subseteq> set [10, 20, 30 :: nat] then Some (filter (\<lambda>p. p \<notin> set [20]) [10, 20, 30]) else None)"
  by (rule fifo_gc_frees_the_rest) simp_all

section \<open>The end of the program\<close>

lemma simple_start_pass_eq:
  "simple_start_pass ts =
    (\<exists>t \<in> set ts. \<not> ti_term t \<and> \<not> ti_finished t,
     map (\<lambda>t. if ti_finished t then t\<lparr>ti_term := True\<rparr> else t) ts)"
  by (induction ts) (auto simp: Let_def split: prod.splits)

text \<open>
  Fact: start of the thread-per-kernel scheduler returns exactly when every thread is done.
  Each pass joins all threads that have finished, and asks for another pass as long as one
  is neither finished nor joined before.
\<close>

theorem simple_start_waits_for_all:
  "simple_start_pass ts =
    (\<exists>t \<in> set ts. \<not> ti_term t \<and> \<not> ti_finished t,
     map (\<lambda>t. if ti_finished t then t\<lparr>ti_term := True\<rparr> else t) ts)"
  by (rule simple_start_pass_eq)

lemma pool_start_pass_eq: "pool_start_pass finished ts = (\<forall>t \<in> set ts. finished t)"
  by (induction ts) auto

lemma pool_handleSchedule_tail:
  "tail (fold pool_handleSchedule ks p) = tail p @ map k_id (filter (\<lambda>k. k_output k = []) ks)"
  by (induction ks arbitrary: p) (auto simp: pool_handleSchedule_def hasPorts_def Let_def)

text \<open>
  Fact: start of the pool scheduler waits for the sinks only: it returns when the threads of
  the kernels without outputs have finished, whether or not the others have.
\<close>

theorem pool_start_waits_for_sinks:
  "pool_start_pass finished (tail (fold pool_handleSchedule ks \<lparr>thread_data_pool = [], tail = []\<rparr>)) =
    list_all (\<lambda>k. finished (k_id k)) (filter (\<lambda>k. k_output k = []) ks)"
  by (auto simp: pool_start_pass_eq pool_handleSchedule_tail list_all_iff)

lemma scheduleKernel_step:
  "scheduleKernel h k (s, x) =
    (\<lparr>source_kernels = source_kernels s \<union> (if k_input k = [] then {k_id k} else {}),
      dst_kernels = dst_kernels s \<union> (if k_output k = [] then {k_id k} else {}),
      kernel_set = kernel_set s \<union> {k_id k},
      internally_created_kernels = internally_created_kernels s \<union> (if k_internal_alloc k then {k_id k} else {})\<rparr>,
     h k x)"
  by (simp add: scheduleKernel_def Let_def keeper_add_def hasPorts_def)

lemma scheduleKernel_fold:
  "fst (fold (scheduleKernel h) ks (s, x)) =
    \<lparr>source_kernels = source_kernels s \<union> k_id ` {k \<in> set ks. k_input k = []},
     dst_kernels = dst_kernels s \<union> k_id ` {k \<in> set ks. k_output k = []},
     kernel_set = kernel_set s \<union> k_id ` set ks,
     internally_created_kernels = internally_created_kernels s \<union> k_id ` {k \<in> set ks. k_internal_alloc k}\<rparr>"
proof (induction ks arbitrary: s x)
  case (Cons k ks)
  show ?case unfolding fold_Cons comp_def scheduleKernel_step Cons.IH by auto
qed simp

text \<open>
  Fact: scheduling kernels classifies them.  After any sequence of scheduleKernel calls the
  sets hold exactly the kernels scheduled: the sources those without inputs, the
  destinations those without outputs, and the internally created ones apart; handleSchedule
  has been called for each, in order.
\<close>

theorem scheduleKernel_classifies:
  "fst (fold (scheduleKernel h) ks (\<lparr>source_kernels = {}, dst_kernels = {}, kernel_set = {},
      internally_created_kernels = {}\<rparr>, x)) =
    \<lparr>source_kernels = k_id ` {k \<in> set ks. k_input k = []},
     dst_kernels = k_id ` {k \<in> set ks. k_output k = []},
     kernel_set = k_id ` set ks,
     internally_created_kernels = k_id ` {k \<in> set ks. k_internal_alloc k}\<rparr>"
  by (simp add: scheduleKernel_fold)

end
