(* ===== verification/Ports.thy ===== *)
theory Ports
  imports Signals
begin

text \<open>
  Ports and kernels as the map builds them: src/port_info.cpp, src/port.cpp with
  raftinc/port.hpp, src/kernel.cpp with raftinc/kernel.hpp, src/kernel_wrapper.cpp and
  src/kernel_pair_t.cpp.  The key of a port is a type variable with a linear order (the
  build with string names keeps ports in a std::map) and null_key is null_port_value; the
  type of a port (std::type_index) is a type variable.  Kernels and FIFOs are numbers, a
  null pointer is None.
\<close>

section \<open>PortInfo\<close>

record ('k, 't) PortInfo =
  fifo_a :: "nat option"
  fifo_b :: "nat option"
  pi_type :: 't
  pi_factories :: bool
  my_kernel :: "nat option"
  my_name :: 'k
  other_kernel :: "nat option"
  other_name :: 'k
  use_my_allocator :: bool
  out_of_order :: bool
  existing_buffer :: "u64 option"
  nitems :: u64
  start_index :: u64
  fixed_buffer_size :: u64

definition PortInfo_new :: "'k \<Rightarrow> 't \<Rightarrow> ('k, 't) PortInfo" where
  "PortInfo_new null_key t =
     \<lparr>fifo_a = None, fifo_b = None, pi_type = t, pi_factories = False, my_kernel = None,
      my_name = null_key, other_kernel = None, other_name = null_key, use_my_allocator = False,
      out_of_order = False, existing_buffer = None, nitems = 0, start_index = 0,
      fixed_buffer_size = 0\<rparr>"

definition PortInfo_existing :: "'k \<Rightarrow> 't \<Rightarrow> u64 \<Rightarrow> u64 \<Rightarrow> u64 \<Rightarrow> ('k, 't) PortInfo" where
  "PortInfo_existing null_key t ptr n start =
     (PortInfo_new null_key t)\<lparr>existing_buffer := Some ptr, nitems := n, start_index := start\<rparr>"

text \<open>The copy constructor leaves use_my_allocator at its default.\<close>

definition PortInfo_copy :: "('k, 't) PortInfo \<Rightarrow> ('k, 't) PortInfo" where
  "PortInfo_copy other = other\<lparr>use_my_allocator := False\<rparr>"

text \<open>getFIFO reads both pointers until they agree (None: once more).\<close>

definition getFIFO :: "('k, 't) PortInfo \<Rightarrow> nat option option" where
  "getFIFO pi = (if fifo_a pi = fifo_b pi then Some (fifo_a pi) else None)"

definition setFIFO :: "nat \<Rightarrow> ('k, 't) PortInfo \<Rightarrow> ('k, 't) PortInfo" where
  "setFIFO f pi = pi\<lparr>fifo_a := Some f, fifo_b := Some f\<rparr>"

section \<open>Port\<close>

record ('k, 't) Port =
  portmap :: "('k \<times> ('k, 't) PortInfo) list"
  port_kernel :: nat
  alloc_ptr :: u64
  alloc_ptr_length :: u64

definition Port_new :: "nat \<Rightarrow> ('k, 't) Port" where
  "Port_new k = \<lparr>portmap = [], port_kernel = k, alloc_ptr = 0, alloc_ptr_length = 0\<rparr>"

definition Port_new_existing :: "nat \<Rightarrow> u64 \<Rightarrow> u64 \<Rightarrow> ('k, 't) Port" where
  "Port_new_existing k ptr nbytes =
     \<lparr>portmap = [], port_kernel = k, alloc_ptr = ptr, alloc_ptr_length = nbytes\<rparr>"

definition initializeFactories :: "('k, 't) PortInfo \<Rightarrow> ('k, 't) PortInfo" where
  "initializeFactories pi = pi\<lparr>pi_factories := True\<rparr>"

text \<open>
  add_port for one name; the map's insert does not replace an entry, and a name that is
  there already is an error.
\<close>

definition add_port :: "'k :: linorder \<Rightarrow> 't \<Rightarrow> 'k \<Rightarrow> ('k, 't) Port \<Rightarrow> (unit, ('k, 't) Port) outcome" where
  "add_port null_key t name p =
     (let pi = initializeFactories
                 ((PortInfo_new null_key t)\<lparr>my_kernel := Some (port_kernel p), my_name := name\<rparr>);
          p' = p\<lparr>portmap := smap_insert name (PortInfo_copy pi) (portmap p)\<rparr>
      in if smap_find (portmap p) name \<noteq> None then Raised PortAlreadyExists p
         else Returned () p')"

text \<open>addPort: the recursion over the names of one call.\<close>

fun addPort :: "'k :: linorder \<Rightarrow> 't \<Rightarrow> 'k list \<Rightarrow> ('k, 't) Port \<Rightarrow> (unit, ('k, 't) Port) outcome" where
  "addPort null_key t [] p = Returned () p"
| "addPort null_key t (n # ns) p =
     bind_outcome (add_port null_key t n p) (\<lambda>_ p'. addPort null_key t ns p')"

text \<open>
  addInPlacePorts: n ports over one array of elements of sizeof_T bytes; name is the
  conversion of an index to a key.
\<close>

definition in_place_info ::
  "'k \<Rightarrow> 't \<Rightarrow> u64 \<Rightarrow> (u64 \<Rightarrow> 'k) \<Rightarrow> u64 \<Rightarrow> u64 \<Rightarrow> ('k, 't) Port \<Rightarrow> ('k, 't) PortInfo" where
  "in_place_info null_key t sizeof_T name n_ports ix p =
     (let len = alloc_ptr_length p div sizeof_T;
          inc = len div n_ports;
          adder = len mod n_ports;
          start = ix * inc
      in initializeFactories
           ((PortInfo_existing null_key t (alloc_ptr p + start * sizeof_T)
               (inc + (if ix = n_ports - 1 then adder else 0)) start)
             \<lparr>my_kernel := Some (port_kernel p), my_name := name ix\<rparr>))"

fun in_place_loop ::
  "'k :: linorder \<Rightarrow> 't \<Rightarrow> u64 \<Rightarrow> (u64 \<Rightarrow> 'k) \<Rightarrow> u64 \<Rightarrow> nat \<Rightarrow> ('k, 't) Port \<Rightarrow> ('k, 't) Port" where
  "in_place_loop null_key t sizeof_T name n_ports 0 p = p"
| "in_place_loop null_key t sizeof_T name n_ports (Suc m) p =
     (let ix = n_ports - of_nat (Suc m);
          pi = in_place_info null_key t sizeof_T name n_ports ix p
      in in_place_loop null_key t sizeof_T name n_ports m
           (p\<lparr>portmap := smap_insert (name ix) (PortInfo_copy pi) (portmap p)\<rparr>))"

definition addInPlacePorts ::
  "'k :: linorder \<Rightarrow> 't \<Rightarrow> u64 \<Rightarrow> (u64 \<Rightarrow> 'k) \<Rightarrow> u64 \<Rightarrow> ('k, 't) Port \<Rightarrow> (bool, ('k, 't) Port) outcome" where
  "addInPlacePorts null_key t sizeof_T name n_ports p =
     (if n_ports = 0 then Fault DivisionByZero
      else Returned True (in_place_loop null_key t sizeof_T name n_ports (unat n_ports) p))"

definition hasPorts_of :: "('k, 't) Port \<Rightarrow> bool" where
  "hasPorts_of p = (0 < length (portmap p))"

definition count_of :: "('k, 't) Port \<Rightarrow> nat" where
  "count_of p = length (portmap p)"

definition getPortInfoFor :: "'k \<Rightarrow> ('k, 't) Port \<Rightarrow> exn + ('k, 't) PortInfo" where
  "getPortInfoFor name p =
     (case smap_find (portmap p) name of None \<Rightarrow> Inl PortNotFound | Some pi \<Rightarrow> Inr pi)"

definition getPortType :: "'k \<Rightarrow> ('k, 't) Port \<Rightarrow> exn + 't" where
  "getPortType name p =
     (case smap_find (portmap p) name of None \<Rightarrow> Inl PortNotFound | Some pi \<Rightarrow> Inr (pi_type pi))"

text \<open>getPortInfo: the only port there is.\<close>

definition getPortInfo :: "('k, 't) Port \<Rightarrow> exn + ('k, 't) PortInfo" where
  "getPortInfo p =
     (if length (portmap p) > 1 then Inl AmbiguousPortAssignment
      else case portmap p of
             [] \<Rightarrow> Inl PortNotFound
           | e # _ \<Rightarrow> Inr (snd e))"

text \<open>operator []: the FIFO of a port; a port without a FIFO is a null dereference.\<close>

definition port_index :: "'k \<Rightarrow> ('k, 't) Port \<Rightarrow> (nat, unit) outcome" where
  "port_index name p =
     (case smap_find (portmap p) name of
        None \<Rightarrow> Raised PortNotFound ()
      | Some pi \<Rightarrow>
          (case getFIFO pi of
             None \<Rightarrow> Spin ()
           | Some None \<Rightarrow> Fault NullDereference
           | Some (Some f) \<Rightarrow> Returned f ()))"

section \<open>Kernels\<close>

record ('k, 't) kernel =
  kin :: "('k, 't) Port"
  kout :: "('k, 't) Port"
  internal_alloc :: bool
  core_assign :: u64
  affinity_group :: u64
  sched_behav :: u8
  dup_enabled :: bool
  dup_candidate :: bool
  kernel_id :: nat
  execution_done :: bool
  enabled_port :: "'k list"

text \<open>
  The two constructors, with the static counter: the one over existing memory reads it
  without advancing it.
\<close>

definition kernel_new :: "nat \<Rightarrow> nat \<Rightarrow> ('k, 't) kernel \<times> nat" where
  "kernel_new this kernel_count =
     (\<lparr>kin = Port_new this, kout = Port_new this, internal_alloc = False, core_assign = - 1,
       affinity_group = - 1, sched_behav = 0, dup_enabled = False, dup_candidate = False,
       kernel_id = kernel_count, execution_done = False, enabled_port = []\<rparr>, kernel_count + 1)"

definition kernel_new_existing :: "nat \<Rightarrow> u64 \<Rightarrow> u64 \<Rightarrow> nat \<Rightarrow> ('k, 't) kernel \<times> nat" where
  "kernel_new_existing this ptr nbytes kernel_count =
     ((fst (kernel_new this kernel_count))
        \<lparr>kin := Port_new_existing this ptr nbytes, kout := Port_new_existing this ptr nbytes\<rparr>,
      kernel_count)"

definition get_id :: "('k, 't) kernel \<Rightarrow> nat" where
  "get_id k = kernel_id k"

definition getCoreAssignment :: "('k, 't) kernel \<Rightarrow> u64" where
  "getCoreAssignment k = core_assign k"

definition setCore :: "u64 \<Rightarrow> ('k, 't) kernel \<Rightarrow> ('k, 't) kernel" where
  "setCore c k = k\<lparr>core_assign := c\<rparr>"

definition retire :: "('k, 't) kernel \<Rightarrow> ('k, 't) kernel" where
  "retire k = k\<lparr>execution_done := True\<rparr>"

definition isRetired :: "('k, 't) kernel \<Rightarrow> bool" where
  "isRetired k = execution_done k"

text \<open>operator [] of a kernel notes a port name for the next link; two can be waiting.\<close>

definition kernel_select :: "'k \<Rightarrow> ('k, 't) kernel \<Rightarrow> exn + ('k, 't) kernel" where
  "kernel_select name k =
     (if length (enabled_port k) < 2 then Inr (k\<lparr>enabled_port := enabled_port k @ [name]\<rparr>)
      else Inl AmbiguousPortAssignment)"

definition getEnabledPort :: "'k \<Rightarrow> ('k, 't) kernel \<Rightarrow> 'k \<times> ('k, 't) kernel" where
  "getEnabledPort null_key k =
     (case enabled_port k of
        [] \<Rightarrow> (null_key, k)
      | n # ns \<Rightarrow> (n, k\<lparr>enabled_port := ns\<rparr>))"

text \<open>allConnected: each port, inputs first, is looked up under its name.\<close>

fun ports_connected :: "'k list \<Rightarrow> ('k, 't) Port \<Rightarrow> exn + unit" where
  "ports_connected [] p = Inr ()"
| "ports_connected (n # ns) p =
     (case getPortInfoFor n p of
        Inl e \<Rightarrow> Inl e
      | Inr pi \<Rightarrow> if other_kernel pi = None then Inl PortUnconnected else ports_connected ns p)"

definition allConnected :: "('k, 't) kernel \<Rightarrow> exn + unit" where
  "allConnected k =
     (case ports_connected (map fst (portmap (kin k))) (kin k) of
        Inl e \<Rightarrow> Inl e
      | Inr _ \<Rightarrow> ports_connected (map fst (portmap (kout k))) (kout k))"

section \<open>Ownership of kernels\<close>

text \<open>
  kernel_wrapper: the kernel it owns, None for the sentinel.  Copying moves the kernel out
  of the other wrapper; the dereference gives the kernel away; the destructor says which
  kernel it deletes.
\<close>

type_synonym kernel_wrapper = "nat option"

definition kernel_wrapper_copy :: "kernel_wrapper \<Rightarrow> kernel_wrapper \<times> kernel_wrapper" where
  "kernel_wrapper_copy other = (other, None)"

definition kernel_wrapper_deref :: "kernel_wrapper \<Rightarrow> nat option \<times> kernel_wrapper" where
  "kernel_wrapper_deref w = (w, None)"

definition kernel_wrapper_destroy :: "kernel_wrapper \<Rightarrow> nat list \<times> kernel_wrapper" where
  "kernel_wrapper_destroy w = (case w of None \<Rightarrow> ([], None) | Some k \<Rightarrow> ([k], None))"

record kernel_pair_t =
  kp_source :: "nat list"
  kp_destination :: "nat list"

definition kernel_pair_new :: kernel_pair_t where
  "kernel_pair_new = \<lparr>kp_source = [], kp_destination = []\<rparr>"

definition kernel_pair_of :: "nat \<Rightarrow> nat \<Rightarrow> kernel_pair_t" where
  "kernel_pair_of src dst = \<lparr>kp_source = [src], kp_destination = [dst]\<rparr>"

definition addSrc :: "nat \<Rightarrow> kernel_pair_t \<Rightarrow> kernel_pair_t" where
  "addSrc k p = p\<lparr>kp_source := kp_source p @ [k]\<rparr>"

definition addDst :: "nat \<Rightarrow> kernel_pair_t \<Rightarrow> kernel_pair_t" where
  "addDst k p = p\<lparr>kp_destination := kp_destination p @ [k]\<rparr>"

definition clearSrc :: "kernel_pair_t \<Rightarrow> kernel_pair_t" where
  "clearSrc p = p\<lparr>kp_source := []\<rparr>"

definition clearDst :: "kernel_pair_t \<Rightarrow> kernel_pair_t" where
  "clearDst p = p\<lparr>kp_destination := []\<rparr>"

definition getSrc :: "kernel_pair_t \<Rightarrow> nat list" where
  "getSrc p = kp_source p"

definition getDst :: "kernel_pair_t \<Rightarrow> nat list" where
  "getDst p = kp_destination p"

section \<open>What the operations promise\<close>

text \<open>The entry that add_port makes.\<close>

definition fresh_info :: "'k \<Rightarrow> 't \<Rightarrow> nat \<Rightarrow> 'k \<Rightarrow> ('k, 't) PortInfo" where
  "fresh_info null_key t k name =
     (PortInfo_new null_key t)\<lparr>pi_factories := True, my_kernel := Some k, my_name := name\<rparr>"

lemma add_port_new:
  assumes "name \<notin> fst ` set (portmap p)"
  shows "add_port null_key t name p =
     Returned () (p\<lparr>portmap := smap_insert name (fresh_info null_key t (port_kernel p) name) (portmap p)\<rparr>)"
  using assms
  by (simp add: add_port_def smap_find_None fresh_info_def PortInfo_copy_def initializeFactories_def
      PortInfo_new_def)

lemma add_port_duplicate:
  assumes "name \<in> fst ` set (portmap p)"
  shows "add_port null_key t name p = Raised PortAlreadyExists p"
proof -
  have "smap_find (portmap p) name \<noteq> None" using assms by (simp add: smap_find_None)
  then show ?thesis by (simp add: add_port_def Let_def)
qed

lemma smap_find_ne_in: "smap_find m k \<noteq> None \<longleftrightarrow> k \<in> fst ` set m"
  by (simp add: smap_find_None)

text \<open>
  Fact: addPort with names that are distinct and new succeeds, the new ports are found under their
  names with their own kernel, no other end and no FIFO, and the ports that were there are
  untouched.
\<close>

theorem addPort_adds_every_name:
  fixes p :: "('k :: linorder, 't) Port"
  assumes "smap_ok (portmap p)" and "distinct ns" and "set ns \<inter> fst ` set (portmap p) = {}"
  shows "\<exists>p'. addPort null_key t ns p = Returned () p' \<and> smap_ok (portmap p')
     \<and> count_of p' = count_of p + length ns
     \<and> (\<forall>n. smap_find (portmap p') n =
              (if n \<in> set ns then Some (fresh_info null_key t (port_kernel p) n)
               else smap_find (portmap p) n))"
  using assms
proof (induction ns arbitrary: p)
  case (Cons a ns)
  let ?i = "fresh_info null_key t (port_kernel p) a"
  let ?q = "p\<lparr>portmap := smap_insert a ?i (portmap p)\<rparr>"
  have a: "a \<notin> fst ` set (portmap p)" using Cons.prems by auto
  then have fa: "smap_find (portmap p) a = None" by (simp add: smap_find_None)
  have "smap_ok (portmap ?q)" using Cons.prems by (simp add: smap_insert_ok)
  moreover have "set ns \<inter> fst ` set (portmap ?q) = {}"
    using Cons.prems by (auto simp: smap_insert_keys)
  ultimately obtain p' where p': "addPort null_key t ns ?q = Returned () p'" "smap_ok (portmap p')"
      "count_of p' = count_of ?q + length ns"
      "\<forall>n. smap_find (portmap p') n =
         (if n \<in> set ns then Some (fresh_info null_key t (port_kernel ?q) n)
          else smap_find (portmap ?q) n)"
    using Cons.IH [of ?q] Cons.prems by auto
  have len: "length (smap_insert a ?i m) = length m + 1" if "a \<notin> fst ` set m" for m
    using that by (induction m) auto
  have "sorted (map fst (portmap p))" using Cons.prems by (simp add: smap_ok_def)
  then have "\<forall>n. smap_find (portmap p') n =
              (if n \<in> set (a # ns) then Some (fresh_info null_key t (port_kernel p) n)
               else smap_find (portmap p) n)"
    using p'(4) Cons.prems fa by (auto simp: smap_find_insert)
  moreover have "addPort null_key t (a # ns) p = Returned () p'"
    using a p' by (simp add: add_port_new)
  moreover have "count_of p' = count_of p + length (a # ns)"
    using p'(3) len [OF a] by (simp add: count_of_def)
  ultimately show ?case using p' by blast
qed simp

theorem addPort_adds_every_name_witness:
  "\<exists>p'. addPort (0 :: nat) ''int'' [2, 1] (Port_new 7) = Returned () p' \<and> smap_ok (portmap p')
     \<and> count_of p' = count_of (Port_new 7 :: (nat, string) Port) + length [2 :: nat, 1]
     \<and> (\<forall>n. smap_find (portmap p') n =
              (if n \<in> set [2, 1] then Some (fresh_info 0 ''int'' (port_kernel (Port_new 7 :: (nat, string) Port)) n)
               else smap_find (portmap (Port_new 7)) n))"
  by (rule addPort_adds_every_name) (simp_all add: Port_new_def smap_ok_def)

text \<open>
  Fact: addPort stops at the first name that is there already, whether from before or from
  earlier in the same call: it raises PortAlreadyExists and the ports of the names before
  it stay.
\<close>

theorem addPort_stops_at_duplicate:
  fixes p :: "('k :: linorder, 't) Port"
  assumes "smap_ok (portmap p)" and "distinct ns" and "set ns \<inter> fst ` set (portmap p) = {}"
    and "d \<in> set ns \<union> fst ` set (portmap p)"
  shows "\<exists>p'. addPort null_key t (ns @ d # rest) p = Raised PortAlreadyExists p'
     \<and> addPort null_key t ns p = Returned () p'
     \<and> fst ` set (portmap p') = set ns \<union> fst ` set (portmap p)"
  using assms
proof (induction ns arbitrary: p)
  case Nil
  then show ?case by (simp add: add_port_duplicate)
next
  case (Cons a ns)
  let ?q = "p\<lparr>portmap := smap_insert a (fresh_info null_key t (port_kernel p) a) (portmap p)\<rparr>"
  have a: "a \<notin> fst ` set (portmap p)" using Cons.prems by auto
  have "smap_ok (portmap ?q)" "set ns \<inter> fst ` set (portmap ?q) = {}"
    "d \<in> set ns \<union> fst ` set (portmap ?q)"
    using Cons.prems by (auto simp: smap_insert_ok smap_insert_keys)
  then obtain p' where "addPort null_key t (ns @ d # rest) ?q = Raised PortAlreadyExists p'"
      "addPort null_key t ns ?q = Returned () p'"
      "fst ` set (portmap p') = set ns \<union> fst ` set (portmap ?q)"
    using Cons.IH [of ?q] Cons.prems by auto
  then show ?case using a by (auto simp: add_port_new smap_insert_keys)
qed

theorem addPort_stops_at_duplicate_witness:
  "\<exists>p'. addPort (0 :: nat) ''int'' ([2] @ 2 # [3]) (Port_new 7) = Raised PortAlreadyExists p'
     \<and> addPort 0 ''int'' [2] (Port_new 7) = Returned () p'
     \<and> fst ` set (portmap p') = set [2] \<union> fst ` set (portmap (Port_new 7 :: (nat, string) Port))"
  by (rule addPort_stops_at_duplicate) (simp_all add: Port_new_def smap_ok_def)

lemma in_place_loop_find:
  fixes p :: "('k :: linorder, 't) Port"
  assumes "smap_ok (portmap p)" and "m \<le> unat n"
    and "inj_on name {i. i < n}"
    and "\<forall>i < n. unat i \<ge> unat n - m \<longrightarrow> name i \<notin> fst ` set (portmap p)"
    and "i < n"
  shows "smap_find (portmap (in_place_loop null_key t sz name n m p)) (name i) =
     (if unat i \<ge> unat n - m then Some (in_place_info null_key t sz name n i p)
      else smap_find (portmap p) (name i))"
  using assms
proof (induction m arbitrary: p)
  case 0
  then show ?case by (simp add: word_less_nat_alt)
next
  case (Suc m)
  let ?ix = "n - of_nat (Suc m)"
  let ?q = "p\<lparr>portmap := smap_insert (name ?ix)
              (PortInfo_copy (in_place_info null_key t sz name n ?ix p)) (portmap p)\<rparr>"
  have b: "unat n < 2 ^ 64" using unsigned_less [of n] by simp
  have os: "unat (of_nat (Suc m) :: u64) = Suc m"
    using Suc.prems(2) b by (simp only: unat_of_nat) simp
  then have le: "(of_nat (Suc m) :: u64) \<le> n" using Suc.prems(2) by (simp only: word_le_nat_alt)
  have uix: "unat ?ix = unat n - Suc m"
    using os by (simp only: unat_sub [OF le])
  have ixn: "?ix < n" using uix Suc.prems(2) by (simp only: word_less_nat_alt)
  have ip: "in_place_info null_key t sz name n i ?q = in_place_info null_key t sz name n i p"
    by (simp add: in_place_info_def)
  have cp: "PortInfo_copy (in_place_info null_key t sz name n j p) = in_place_info null_key t sz name n j p" for j
    by (simp add: in_place_info_def PortInfo_copy_def initializeFactories_def PortInfo_existing_def
        PortInfo_new_def Let_def)
  have nin: "name ?ix \<notin> fst ` set (portmap p)"
    using Suc.prems(4) ixn uix by (simp only: order_refl simp_thms)
  have IH: "smap_find (portmap (in_place_loop null_key t sz name n m ?q)) (name i) =
     (if unat i \<ge> unat n - m then Some (in_place_info null_key t sz name n i ?q)
      else smap_find (portmap ?q) (name i))"
  proof (rule Suc.IH)
    show "smap_ok (portmap ?q)" using Suc.prems(1) by (simp add: smap_insert_ok)
    show "m \<le> unat n" "inj_on name {i. i < n}" "i < n" using Suc.prems by simp_all
    show "\<forall>i < n. unat i \<ge> unat n - m \<longrightarrow> name i \<notin> fst ` set (portmap ?q)"
    proof (intro allI impI)
      fix j assume j: "j < n" "unat n - m \<le> unat j"
      have "unat j \<noteq> unat ?ix" using j uix Suc.prems(2) by linarith
      then have "j \<noteq> ?ix" by blast
      then have "name j \<noteq> name ?ix" using Suc.prems(3) j(1) ixn by (auto dest: inj_onD)
      moreover have "name j \<notin> fst ` set (portmap p)" using Suc.prems(4) j by auto
      ultimately show "name j \<notin> fst ` set (portmap ?q)" by (simp add: smap_insert_keys)
    qed
  qed
  have srt: "sorted (map fst (portmap p))" using Suc.prems(1) by (simp add: smap_ok_def)
  have step: "in_place_loop null_key t sz name n (Suc m) p = in_place_loop null_key t sz name n m ?q"
    by (simp only: in_place_loop.simps Let_def)
  have nf: "smap_find (portmap p) (name ?ix) = None" using nin by (simp add: smap_find_None)
  consider "unat i \<ge> unat n - m" | "i = ?ix" | "unat i < unat n - Suc m"
    using uix by (metis le_less_linear less_Suc_eq_le word_unat_eq_iff Suc_diff_Suc
        Suc.prems(2) Suc_le_lessD nat_less_le)
  then show ?case
  proof cases
    case 1
    then show ?thesis using IH ip unfolding step by auto
  next
    case 2
    have "smap_find (portmap ?q) (name i) = Some (in_place_info null_key t sz name n i p)"
      unfolding 2 using nf by (simp add: smap_find_insert [OF srt] cp)
    moreover have "unat i \<ge> unat n - Suc m" using 2 uix by simp
    ultimately show ?thesis using IH ip unfolding step by simp
  next
    case 3
    then have "i \<noteq> ?ix" using uix by auto
    then have "name i \<noteq> name ?ix" using Suc.prems(3,5) ixn by (auto dest: inj_onD)
    then have "smap_find (portmap ?q) (name i) = smap_find (portmap p) (name i)"
      by (simp add: smap_find_insert [OF srt])
    moreover have "\<not> unat n - m \<le> unat i" "\<not> unat n - Suc m \<le> unat i" using 3 by simp_all
    ultimately show ?thesis using IH unfolding step by (simp only: if_False)
  qed
qed

text \<open>Where the i-th in-place port starts and how many items it has, without wrap-around.\<close>

lemma in_place_info_tile:
  fixes p :: "('k, 't) Port"
  assumes i: "i < n"
  shows "unat (start_index (in_place_info null_key t sz name n i p)) = unat i * (unat (alloc_ptr_length p div sz) div unat n)"
    and "unat i * (unat (alloc_ptr_length p div sz) div unat n) + unat (nitems (in_place_info null_key t sz name n i p))
      = (if i = n - 1 then unat (alloc_ptr_length p div sz)
         else unat (i + 1) * (unat (alloc_ptr_length p div sz) div unat n))"
proof -
  let ?L = "alloc_ptr_length p div sz"
  let ?pi = "in_place_info null_key t sz name n i p"
  have n0: "n \<noteq> 0" using i by auto
  have start: "start_index ?pi = i * (?L div n)"
    by (simp add: in_place_info_def initializeFactories_def PortInfo_existing_def Let_def)
  have items: "nitems ?pi = ?L div n + (if i = n - 1 then ?L mod n else 0)"
    by (simp add: in_place_info_def initializeFactories_def PortInfo_existing_def Let_def)
  have ui: "unat i < unat n" using i by (simp add: word_less_nat_alt)
  have "unat i * (unat ?L div unat n) \<le> unat n * (unat ?L div unat n)"
    using ui by simp
  also have "\<dots> \<le> unat ?L" by simp
  finally have le: "unat i * (unat ?L div unat n) \<le> unat ?L" .
  have us: "unat (start_index ?pi) = unat i * (unat ?L div unat n)"
  proof -
    have "unat i * unat (?L div n) < 2 ^ LENGTH(64)"
      by (subst unat_div_distrib) (rule le_less_trans [OF le unsigned_less])
    then show ?thesis
      unfolding start unat_word_ariths(2) by (subst mod_less) (simp_all add: unat_div_distrib)
  qed
  have last: "i = n - 1 \<longleftrightarrow> unat i = unat n - 1"
    using n0 by (metis add_diff_cancel_right' less_one not_less unat_minus_one word_unat_eq_iff)
  have un: "unat (nitems ?pi) = unat ?L div unat n + (if i = n - 1 then unat ?L mod unat n else 0)"
  proof -
    have "unat ?L div unat n + unat ?L mod unat n \<le> unat ?L"
      using ui by (metis div_mult_mod_eq add_le_mono1 mult_le_mono2 mult.right_neutral
          not_less less_one gr_implies_not0)
    then have "unat (?L div n) + unat (?L mod n) \<le> unat ?L"
      by (simp add: unat_div_distrib unat_mod_distrib)
    then have "unat (?L div n) + unat (?L mod n) < 2 ^ LENGTH(64)"
      by (rule le_less_trans [OF _ unsigned_less])
    then show ?thesis unfolding items
      by (simp add: unat_word_ariths(1) unat_div_distrib unat_mod_distrib)
  qed
  have "unat i * (unat ?L div unat n) + unat (nitems ?pi)
      = (if i = n - 1 then unat ?L else unat (i + 1) * (unat ?L div unat n))"
  proof (cases "i = n - 1")
    case True
    then have "unat n = Suc (unat i)" using last ui by auto
    then have "unat i * (unat ?L div unat n) + unat ?L div unat n = unat n * (unat ?L div unat n)"
      by (simp only: mult_Suc)
    moreover have "unat n * (unat ?L div unat n) + unat ?L mod unat n = unat ?L" by simp
    moreover have "unat (nitems ?pi) = unat ?L div unat n + unat ?L mod unat n"
      unfolding un by (simp add: True)
    ultimately have "unat i * (unat ?L div unat n) + unat (nitems ?pi) = unat ?L"
      by (simp only: add.assoc [symmetric])
    then show ?thesis using True by simp
  next
    case False
    have "unat n < 2 ^ LENGTH(64)" by (rule unsigned_less)
    then have "unat (i + 1) = unat i + 1"
      using ui by (intro unat_inc) linarith
    then show ?thesis unfolding un using False by (simp add: algebra_simps)
  qed
  then show "unat i * (unat ?L div unat n) + unat (nitems ?pi)
      = (if i = n - 1 then unat ?L else unat (i + 1) * (unat ?L div unat n))" .
  show "unat (start_index ?pi) = unat i * (unat ?L div unat n)" by (rule us)
qed

text \<open>
  C37: the in-place ports of one array tile it: with n ports over an array of len elements
  port i starts at element i * (len div n), ends where port i + 1 starts, and the last one ends
  at len; its buffer is the address of its first element.
\<close>

theorem addInPlacePorts_tiles:
  fixes p :: "('k :: linorder, 't) Port"
  assumes "0 < n" and "smap_ok (portmap p)" and "inj_on name {i. i < n}"
    and "\<forall>i < n. name i \<notin> fst ` set (portmap p)"
  shows "\<exists>p'. addInPlacePorts null_key t sz name n p = Returned True p'
     \<and> (\<forall>i < n. \<exists>pi. smap_find (portmap p') (name i) = Some pi
           \<and> existing_buffer pi = Some (alloc_ptr p + start_index pi * sz)
           \<and> unat (start_index pi) = unat i * (unat (alloc_ptr_length p div sz) div unat n)
           \<and> unat (start_index pi) + unat (nitems pi)
              = (if i = n - 1 then unat (alloc_ptr_length p div sz)
                 else unat (i + 1) * (unat (alloc_ptr_length p div sz) div unat n)))"
proof -
  let ?L = "alloc_ptr_length p div sz"
  let ?p' = "in_place_loop null_key t sz name n (unat n) p"
  have n0: "n \<noteq> 0" using assms(1) by auto
  have "\<exists>pi. smap_find (portmap ?p') (name i) = Some pi
           \<and> existing_buffer pi = Some (alloc_ptr p + start_index pi * sz)
           \<and> unat (start_index pi) = unat i * (unat ?L div unat n)
           \<and> unat (start_index pi) + unat (nitems pi)
              = (if i = n - 1 then unat ?L else unat (i + 1) * (unat ?L div unat n))"
    if i: "i < n" for i
  proof -
    let ?pi = "in_place_info null_key t sz name n i p"
    have f: "smap_find (portmap ?p') (name i) = Some ?pi"
      using in_place_loop_find [of p "unat n" n name i] assms i by simp
    have buf: "existing_buffer ?pi = Some (alloc_ptr p + start_index ?pi * sz)"
      by (simp add: in_place_info_def initializeFactories_def PortInfo_existing_def Let_def)
    note tile = in_place_info_tile [OF i, where null_key = null_key and t = t and sz = sz and name = name and p = p]
    show ?thesis using f buf tile by (intro exI [of _ ?pi]) simp
  qed
  then show ?thesis using n0 by (simp add: addInPlacePorts_def)
qed

theorem addInPlacePorts_tiles_witness:
  "\<exists>p'. addInPlacePorts 9 ''int'' 4 unat 3 (Port_new_existing 0 4096 40) = Returned True p'
     \<and> (\<forall>i < (3 :: u64). \<exists>pi. smap_find (portmap p') (unat i) = Some pi
           \<and> existing_buffer pi = Some (alloc_ptr (Port_new_existing 0 4096 40 :: (nat, string) Port) + start_index pi * 4)
           \<and> unat (start_index pi) = unat i * (unat (alloc_ptr_length (Port_new_existing 0 4096 40 :: (nat, string) Port) div 4) div unat (3 :: u64))
           \<and> unat (start_index pi) + unat (nitems pi)
              = (if i = 3 - 1 then unat (alloc_ptr_length (Port_new_existing 0 4096 40 :: (nat, string) Port) div 4)
                 else unat (i + 1) * (unat (alloc_ptr_length (Port_new_existing 0 4096 40 :: (nat, string) Port) div 4) div unat (3 :: u64))))"
  by (rule addInPlacePorts_tiles) (simp_all add: Port_new_existing_def smap_ok_def inj_on_def word_unat_eq_iff)

text \<open>With no ports the division of the length is by zero.\<close>

lemma addInPlacePorts_none: "addInPlacePorts null_key t sz name 0 p = Fault DivisionByZero"
  by (simp add: addInPlacePorts_def)

lemma ports_connected_iff:
  assumes "distinct (map fst m)" and "portmap p = m0 @ m" and "distinct (map fst (m0 @ m))"
  shows "ports_connected (map fst m) p =
     (if \<forall>e \<in> set m. other_kernel (snd e) \<noteq> None then Inr () else Inl PortUnconnected)"
  using assms
proof (induction m arbitrary: m0)
  case (Cons e m)
  have "smap_find (portmap p) (fst e) = Some (snd e)"
    using Cons.prems smap_find_in [of "m0 @ e # m" "fst e" "snd e"] by simp
  then show ?case using Cons.IH [of "m0 @ [e]"] Cons.prems by (simp add: getPortInfoFor_def)
qed simp

text \<open>
  Fact: allConnected passes exactly when every input and every output port has a kernel at its other
  end, and otherwise raises PortUnconnected and no other exception.
\<close>

theorem allConnected_iff:
  assumes "smap_ok (portmap (kin k))" and "smap_ok (portmap (kout k))"
  shows "allConnected k =
     (if (\<forall>e \<in> set (portmap (kin k)) \<union> set (portmap (kout k)). other_kernel (snd e) \<noteq> None)
      then Inr () else Inl PortUnconnected)"
  using assms ports_connected_iff [of "portmap (kin k)" "kin k" "[]"]
    ports_connected_iff [of "portmap (kout k)" "kout k" "[]"]
  by (auto simp: allConnected_def smap_ok_def)

theorem allConnected_iff_witness:
  "allConnected ((fst (kernel_new 3 0))\<lparr>kout := Port_new 3\<lparr>portmap := [(1, fresh_info 0 ''int'' 3 1)]\<rparr>\<rparr>
     :: (nat, string) kernel) = Inl PortUnconnected"
  by (subst allConnected_iff)
    (simp_all add: kernel_new_def Port_new_def smap_ok_def fresh_info_def PortInfo_new_def)

end
