(* ===== verification/Map_Base.thy ===== *)
theory Map_Base
  imports Ports
begin

text \<open>
  The kernel graph a map builds: src/mapbase.cpp, raftinc/mapbase.hpp and
  raft::map::checkEdges of src/map.cpp.  The heap gives the kernel at an address; the
  four keepers are sets of addresses.  A reference to a PortInfo is the kernel's address,
  the direction of the port and its key.
\<close>

datatype port_dir = In | Out

fun opposite :: "port_dir \<Rightarrow> port_dir" where
  "opposite In = Out"
| "opposite Out = In"

record ('k, 't) map_state =
  heap :: "nat \<Rightarrow> ('k, 't) kernel option"
  next_addr :: nat
  source_set :: "nat set"
  dst_set :: "nat set"
  all_set :: "nat set"
  internal_set :: "nat set"
  sub_maps :: "nat set list"

type_synonym 'k port_ref = "nat \<times> port_dir \<times> 'k"

definition map_new :: "(nat \<Rightarrow> ('k, 't) kernel option) \<Rightarrow> nat \<Rightarrow> ('k, 't) map_state" where
  "map_new h n =
     \<lparr>heap = h, next_addr = n, source_set = {}, dst_set = {}, all_set = {}, internal_set = {},
      sub_maps = []\<rparr>"

section \<open>References to ports\<close>

fun ports_of :: "port_dir \<Rightarrow> ('k, 't) kernel \<Rightarrow> ('k, 't) Port" where
  "ports_of In k = kin k"
| "ports_of Out k = kout k"

fun update_port :: "port_dir \<Rightarrow> (('k, 't) Port \<Rightarrow> ('k, 't) Port) \<Rightarrow> ('k, 't) kernel \<Rightarrow> ('k, 't) kernel" where
  "update_port In f k = k\<lparr>kin := f (kin k)\<rparr>"
| "update_port Out f k = k\<lparr>kout := f (kout k)\<rparr>"

fun get_info :: "'k port_ref \<Rightarrow> ('k, 't) map_state \<Rightarrow> ('k, 't) PortInfo option" where
  "get_info (a, d, n) g =
     (case heap g a of None \<Rightarrow> None | Some k \<Rightarrow> smap_find (portmap (ports_of d k)) n)"

fun set_info ::
  "'k port_ref \<Rightarrow> (('k, 't) PortInfo \<Rightarrow> ('k, 't) PortInfo) \<Rightarrow> ('k, 't) map_state \<Rightarrow> ('k, 't) map_state" where
  "set_info (a, d, n) f g =
     (case heap g a of
        None \<Rightarrow> g
      | Some k \<Rightarrow>
          g\<lparr>heap := (heap g)(a \<mapsto>
               update_port d (\<lambda>p. p\<lparr>portmap := smap_update (portmap p) n f\<rparr>) k)\<rparr>)"

section \<open>Linking two kernels\<close>

definition join ::
  "nat \<Rightarrow> 'k \<Rightarrow> 'k port_ref \<Rightarrow> nat \<Rightarrow> 'k \<Rightarrow> 'k port_ref \<Rightarrow> ('k, 't) map_state \<Rightarrow> (unit, ('k, 't) map_state) outcome" where
  "join a name_a a_ref b name_b b_ref g =
     (case (get_info a_ref g, get_info b_ref g) of
        (Some a_info, Some b_info) \<Rightarrow>
          if pi_type a_info \<noteq> pi_type b_info then Raised PortTypeMismatch g
          else if other_kernel a_info \<noteq> None then Raised PortDoubleInitialize g
          else if other_kernel b_info \<noteq> None then Raised PortDoubleInitialize g
          else
            Returned ()
              (set_info b_ref (\<lambda>pi. pi\<lparr>other_kernel := Some a, other_name := name_a\<rparr>)
                (set_info a_ref (\<lambda>pi. pi\<lparr>other_kernel := Some b, other_name := name_b\<rparr>) g))
      | _ \<Rightarrow> Fault NullDereference)"

text \<open>insert puts kernel i, with its ports named zero, between two ports.\<close>

definition insert_between ::
  "'k \<Rightarrow> nat \<Rightarrow> 'k port_ref \<Rightarrow> nat \<Rightarrow> 'k port_ref \<Rightarrow> nat \<Rightarrow> ('k, 't) map_state \<Rightarrow> (unit, ('k, 't) map_state) outcome" where
  "insert_between zero a a_out b b_in i g =
     (case heap g i of
        None \<Rightarrow> Fault UseAfterFree
      | Some ki \<Rightarrow>
          (case (getPortInfoFor zero (kin ki), getPortInfoFor zero (kout ki)) of
             (Inr i_in, Inr i_out) \<Rightarrow>
               (case (get_info a_out g, get_info b_in g) of
                  (Some ia, Some ib) \<Rightarrow>
                    bind_outcome (join a (my_name ia) a_out i (my_name i_in) (i, In, zero) g)
                      (\<lambda>_ g1. join i (my_name i_out) (i, Out, zero) b (my_name ib) b_in g1)
                | _ \<Rightarrow> Fault NullDereference)
           | (Inl e, _) \<Rightarrow> Raised e g
           | (_, Inl e) \<Rightarrow> Raised e g))"

definition set_order :: "bool \<Rightarrow> 'k port_ref \<Rightarrow> 'k port_ref \<Rightarrow> ('k, 't) map_state \<Rightarrow> ('k, 't) map_state" where
  "set_order ooo a_ref b_ref g =
     set_info b_ref (\<lambda>pi. pi\<lparr>out_of_order := ooo\<rparr>) (set_info a_ref (\<lambda>pi. pi\<lparr>out_of_order := ooo\<rparr>) g)"

definition updateKernels ::
  "nat \<Rightarrow> ('k, 't) kernel \<Rightarrow> nat \<Rightarrow> ('k, 't) kernel \<Rightarrow> ('k, 't) map_state \<Rightarrow> ('k, 't) map_state" where
  "updateKernels a ka b kb g =
     (let g1 = (if \<not> hasPorts_of (kin ka) then g\<lparr>source_set := keeper_add a (source_set g)\<rparr> else g);
          g2 = (if \<not> hasPorts_of (kout kb) then g1\<lparr>dst_set := keeper_add b (dst_set g1)\<rparr> else g1);
          g3 = g2\<lparr>all_set := keeper_add b (keeper_add a (all_set g2))\<rparr>;
          g4 = (if internal_alloc ka then g3\<lparr>internal_set := keeper_add a (internal_set g3)\<rparr> else g3)
      in if internal_alloc kb then g4\<lparr>internal_set := keeper_add b (internal_set g4)\<rparr> else g4)"

text \<open>
  The port of one side of a link: the key of its entry and the name the link goes on with.
  portNotFound rethrows an ambiguous assignment with a longer text.
\<close>

definition find_port :: "'k \<Rightarrow> 'k \<Rightarrow> ('k, 't) Port \<Rightarrow> exn + 'k \<times> 'k" where
  "find_port null_key name p =
     (if name = null_key
      then (case getPortInfo p of Inl e \<Rightarrow> Inl e | Inr pi \<Rightarrow> Inr (fst (hd (portmap p)), my_name pi))
      else (case getPortInfoFor name p of Inl e \<Rightarrow> Inl e | Inr _ \<Rightarrow> Inr (name, name)))"

definition link ::
  "'k \<Rightarrow> bool \<Rightarrow> nat \<Rightarrow> 'k \<Rightarrow> nat \<Rightarrow> 'k \<Rightarrow> u64 \<Rightarrow> ('k, 't) map_state \<Rightarrow> (kernel_pair_t, ('k, 't) map_state) outcome" where
  "link null_key ooo a a_port b b_port buffer g =
     (case (heap g a, heap g b) of
        (Some ka, Some kb) \<Rightarrow>
          (let g1 = updateKernels a ka b kb g
           in case find_port null_key a_port (kout ka) of
                Inl e \<Rightarrow> Raised e g1
              | Inr (key_a, name_a) \<Rightarrow>
                  (let g2 = set_info (a, Out, key_a) (\<lambda>pi. pi\<lparr>fixed_buffer_size := buffer\<rparr>) g1
                   in case find_port null_key b_port (kin kb) of
                        Inl e \<Rightarrow> Raised e g2
                      | Inr (key_b, name_b) \<Rightarrow>
                          (let g3 = set_info (b, In, key_b) (\<lambda>pi. pi\<lparr>fixed_buffer_size := buffer\<rparr>) g2
                           in bind_outcome
                                (join a name_a (a, Out, key_a) b name_b (b, In, key_b) g3)
                                (\<lambda>_ g4. Returned (kernel_pair_of a b)
                                   (set_order ooo (a, Out, key_a) (b, In, key_b) g4)))))
      | _ \<Rightarrow> Fault UseAfterFree)"

text \<open>The destructor deletes the kernels the runtime created.\<close>

fun delete_kernels :: "nat list \<Rightarrow> ('k, 't) map_state \<Rightarrow> (unit, ('k, 't) map_state) outcome" where
  "delete_kernels [] g = Returned () g"
| "delete_kernels (a # as) g =
     (if heap g a = None then Fault UseAfterFree
      else delete_kernels as (g\<lparr>heap := (heap g)(a := None)\<rparr>))"

definition map_destroy :: "('k, 't) map_state \<Rightarrow> (unit, ('k, 't) map_state) outcome" where
  "map_destroy g =
     bind_outcome (delete_kernels (keeper_list (internal_set g)) g)
       (\<lambda>_ g'. Returned () (g'\<lparr>internal_set := {}\<rparr>))"

section \<open>Checks before the graph runs\<close>

fun check_edges_loop :: "nat list \<Rightarrow> ('k, 't) map_state \<Rightarrow> (unit, ('k, 't) map_state) outcome" where
  "check_edges_loop [] g = Returned () g"
| "check_edges_loop (a # as) g =
     (case heap g a of
        None \<Rightarrow> Fault UseAfterFree
      | Some k \<Rightarrow>
          (case allConnected k of
             Inl e \<Rightarrow> Raised e g
           | Inr _ \<Rightarrow> check_edges_loop as g))"

definition checkEdges :: "('k, 't) map_state \<Rightarrow> (unit, ('k, 't) map_state) outcome" where
  "checkEdges g = check_edges_loop (keeper_list (all_set g)) g"

text \<open>exe takes the kernels of the submaps in before it checks the edges.\<close>

definition flatten_sub_maps :: "('k, 't) map_state \<Rightarrow> ('k, 't) map_state" where
  "flatten_sub_maps g = g\<lparr>all_set := fold (\<lambda>sub all. all \<union> sub) (sub_maps g) (all_set g)\<rparr>"

end
