(* ===== verification/Map_Props.thy ===== *)
theory Map_Props
  imports Map_Base
begin

text \<open>
  What linking kernels promises: the graph stays symmetric and typed whatever a link
  returns or raises, a successful link connects exactly the two ports it names, and a graph
  that passed checkEdges has a peer of the same type behind every port.
\<close>

section \<open>References\<close>

lemma ports_of_update_port:
  "ports_of d' (update_port d f k) = (if d' = d then f (ports_of d k) else ports_of d' k)"
  by (cases d; cases d') auto

lemma get_info_set_info [simp]:
  "get_info r' (set_info r f g) = (if r' = r then map_option f (get_info r g) else get_info r' g)"
  by (cases r; cases r') (auto simp: ports_of_update_port smap_find_update split: option.splits)

lemma set_info_fields [simp]:
  "all_set (set_info r f g) = all_set g" "source_set (set_info r f g) = source_set g"
  "dst_set (set_info r f g) = dst_set g" "internal_set (set_info r f g) = internal_set g"
  "next_addr (set_info r f g) = next_addr g"
  by (cases r; simp split: option.splits)+

lemma dom_set_info [simp]: "dom (heap (set_info r f g)) = dom (heap g)"
  by (cases r) (auto split: option.splits if_splits)

definition heap_sorted :: "('k :: linorder, 't) map_state \<Rightarrow> bool" where
  "heap_sorted g \<longleftrightarrow>
     (\<forall>a k. heap g a = Some k \<longrightarrow> smap_ok (portmap (kin k)) \<and> smap_ok (portmap (kout k)))"

lemma heap_sorted_port: "heap_sorted g \<Longrightarrow> heap g a = Some k \<Longrightarrow> smap_ok (portmap (ports_of d k))"
  by (cases d) (auto simp: heap_sorted_def)

lemma heap_sorted_set_info [simp]: "heap_sorted g \<Longrightarrow> heap_sorted (set_info r f g)"
proof (cases r)
  case (fields a d n)
  assume "heap_sorted g"
  then show ?thesis unfolding fields
    by (cases d) (auto simp: heap_sorted_def split: option.splits if_splits)
qed

lemma heap_sorted_cong: "heap g' = heap g \<Longrightarrow> heap_sorted g' = heap_sorted g"
  by (simp add: heap_sorted_def)

lemma get_info_cong: "heap g' = heap g \<Longrightarrow> get_info r g' = get_info r g"
  by (cases r) simp

lemma updateKernels_fields [simp]:
  "heap (updateKernels a ka b kb g) = heap g"
  "all_set (updateKernels a ka b kb g) = insert b (insert a (all_set g))"
  "source_set (updateKernels a ka b kb g) =
     (if hasPorts_of (kin ka) then source_set g else insert a (source_set g))"
  "dst_set (updateKernels a ka b kb g) =
     (if hasPorts_of (kout kb) then dst_set g else insert b (dst_set g))"
  "internal_set (updateKernels a ka b kb g) =
     (if internal_alloc kb then {b} else {}) \<union> (if internal_alloc ka then {a} else {}) \<union> internal_set g"
  "next_addr (updateKernels a ka b kb g) = next_addr g"
  by (simp_all add: updateKernels_def keeper_add_def Let_def)

lemma get_info_updateKernels [simp]: "get_info r (updateKernels a ka b kb g) = get_info r g"
  by (rule get_info_cong) simp

declare get_info.simps [simp del] set_info.simps [simp del]

section \<open>The invariant\<close>

text \<open>
  Every entry knows its own key; a port with another end has a peer in the opposite
  direction, of the same type and ordering, that has this port as its other end, and both
  kernels are in all_kernels.
\<close>

definition named :: "('k, 't) map_state \<Rightarrow> bool" where
  "named g \<longleftrightarrow> (\<forall>a d n pi. get_info (a, d, n) g = Some pi \<longrightarrow> my_name pi = n)"

definition peer_ok :: "'k port_ref \<Rightarrow> ('k, 't) PortInfo \<Rightarrow> ('k, 't) map_state \<Rightarrow> bool" where
  "peer_ok r pi g \<longleftrightarrow>
     (case r of (a, d, n) \<Rightarrow>
       (\<forall>b. other_kernel pi = Some b \<longrightarrow>
          a \<in> all_set g \<and> b \<in> all_set g
          \<and> (\<exists>pj. get_info (b, opposite d, other_name pi) g = Some pj
                \<and> other_kernel pj = Some a \<and> other_name pj = n
                \<and> pi_type pj = pi_type pi \<and> out_of_order pj = out_of_order pi)))"

definition wired :: "('k, 't) map_state \<Rightarrow> bool" where
  "wired g \<longleftrightarrow> (\<forall>r pi. get_info r g = Some pi \<longrightarrow> peer_ok r pi g)"

definition map_ok :: "('k :: linorder, 't) map_state \<Rightarrow> bool" where
  "map_ok g \<longleftrightarrow> heap_sorted g \<and> named g \<and> wired g
     \<and> finite (all_set g) \<and> all_set g \<subseteq> dom (heap g)
     \<and> source_set g \<subseteq> all_set g \<and> dst_set g \<subseteq> all_set g \<and> internal_set g \<subseteq> all_set g"

text \<open>Setting a buffer size and adding kernels to the keepers keep it.\<close>

lemma map_ok_buffer:
  assumes "map_ok g"
  shows "map_ok (set_info r (\<lambda>pi. pi\<lparr>fixed_buffer_size := s\<rparr>) g)"
proof -
  let ?g' = "set_info r (\<lambda>pi. pi\<lparr>fixed_buffer_size := s\<rparr>) g"
  have "named ?g'" using assms by (auto simp: map_ok_def named_def)
  moreover have "peer_ok q pi ?g'" if q: "get_info q ?g' = Some pi" for q pi
  proof -
    obtain pi0 where pi0: "get_info q g = Some pi0"
      "other_kernel pi0 = other_kernel pi" "other_name pi0 = other_name pi"
      "pi_type pi0 = pi_type pi" "out_of_order pi0 = out_of_order pi"
      using q by (auto split: if_splits)
    then have "peer_ok q pi0 g" using assms unfolding map_ok_def wired_def by blast
    then show ?thesis using pi0(2-) by (cases q) (fastforce simp: peer_ok_def)
  qed
  ultimately have "named ?g' \<and> wired ?g'" unfolding wired_def by blast
  then show ?thesis using assms by (simp add: map_ok_def)
qed

lemma map_ok_updateKernels:
  assumes "map_ok g" and "heap g a = Some ka" and "heap g b = Some kb"
  shows "map_ok (updateKernels a ka b kb g)"
proof -
  have "wired (updateKernels a ka b kb g)"
    using assms(1) by (fastforce simp: map_ok_def wired_def peer_ok_def)
  then show ?thesis using assms
    by (auto simp: map_ok_def named_def heap_sorted_cong [of "updateKernels a ka b kb g" g])
qed

lemma find_port_names:
  assumes "find_port nk name (ports_of d k) = Inr (key, nm)" and "heap g a = Some k" and "named g"
  shows "nm = key \<and> (\<exists>pi. get_info (a, d, key) g = Some pi)"
proof (cases "name = nk")
  case True
  then obtain e m where m: "portmap (ports_of d k) = e # m" "m = []"
      "key = fst e" "nm = my_name (snd e)"
    using assms(1) by (auto simp: find_port_def getPortInfo_def split: if_splits list.splits)
  then have "get_info (a, d, key) g = Some (snd e)"
    using assms(2) by (cases e) (auto simp: get_info.simps)
  then show ?thesis using assms(3) m(4) unfolding named_def by auto
next
  case False
  then show ?thesis using assms(1,2)
    by (auto simp: find_port_def getPortInfoFor_def get_info.simps split: option.splits)
qed

lemma join_cases:
  assumes "get_info ra g = Some pa" and "get_info rb g = Some pb"
  obtains (bad) e where "join a na ra b nb rb g = Raised e g"
      "pi_type pa \<noteq> pi_type pb \<or> other_kernel pa \<noteq> None \<or> other_kernel pb \<noteq> None"
    | (good) "join a na ra b nb rb g = Returned ()
          (set_info rb (\<lambda>pi. pi\<lparr>other_kernel := Some a, other_name := na\<rparr>)
            (set_info ra (\<lambda>pi. pi\<lparr>other_kernel := Some b, other_name := nb\<rparr>) g))"
      "pi_type pa = pi_type pb" "other_kernel pa = None" "other_kernel pb = None"
proof (cases "pi_type pa = pi_type pb \<and> other_kernel pa = None \<and> other_kernel pb = None")
  case True
  then show ?thesis using assms by (intro good) (simp_all add: join_def)
next
  case False
  then show ?thesis using assms by (cases "pi_type pa = pi_type pb") (auto intro: bad simp: join_def)
qed

text \<open>Joining two free ports of the same type and ordering them keeps the graph wired.\<close>

lemma map_ok_connect:
  assumes ok: "map_ok g" and pa: "get_info (a, Out, na) g = Some pa"
    and pb: "get_info (b, In, nb) g = Some pb"
    and free: "pi_type pa = pi_type pb" "other_kernel pa = None" "other_kernel pb = None"
    and ab: "a \<in> all_set g" "b \<in> all_set g"
  shows "map_ok (set_order ooo (a, Out, na) (b, In, nb)
     (set_info (b, In, nb) (\<lambda>pi. pi\<lparr>other_kernel := Some a, other_name := na\<rparr>)
       (set_info (a, Out, na) (\<lambda>pi. pi\<lparr>other_kernel := Some b, other_name := nb\<rparr>) g)))"
    (is "map_ok ?g'")
proof -
  let ?pa = "pa\<lparr>other_kernel := Some b, other_name := nb, out_of_order := ooo\<rparr>"
  let ?pb = "pb\<lparr>other_kernel := Some a, other_name := na, out_of_order := ooo\<rparr>"
  have gi: "get_info r ?g' =
     (if r = (a, Out, na) then Some ?pa else if r = (b, In, nb) then Some ?pb else get_info r g)" for r
    using pa pb by (simp add: set_order_def)
  have fields: "all_set ?g' = all_set g" "source_set ?g' = source_set g" "dst_set ?g' = dst_set g"
    "internal_set ?g' = internal_set g" "dom (heap ?g') = dom (heap g)"
    by (simp_all add: set_order_def)
  have srt: "heap_sorted ?g'" using ok by (simp add: set_order_def map_ok_def)
  have "my_name pa = na" "my_name pb = nb" using ok pa pb by (auto simp: map_ok_def named_def)
  then have nm: "named ?g'" using ok unfolding named_def gi by (auto simp: map_ok_def named_def)
  have "peer_ok r pi ?g'" if r: "get_info r ?g' = Some pi" for r pi
  proof -
    consider "r = (a, Out, na)" | "r = (b, In, nb)" | "r \<noteq> (a, Out, na)" "r \<noteq> (b, In, nb)" by blast
    then show ?thesis
    proof cases
      case 1
      then have "pi = ?pa" using r unfolding gi by simp
      then show ?thesis unfolding 1 peer_ok_def fields gi using ab free by simp
    next
      case 2
      then have "pi = ?pb" using r unfolding gi by simp
      then show ?thesis unfolding 2 peer_ok_def fields gi using ab free by simp
    next
      case 3
      then have old: "get_info r g = Some pi" using r unfolding gi by simp
      then have peer: "peer_ok r pi g" using ok unfolding map_ok_def wired_def by blast
      obtain x d n where xdn: "r = (x, d, n)" by (cases r)
      show ?thesis unfolding peer_ok_def xdn fields gi
      proof (simp only: prod.case, intro allI impI conjI)
        fix y assume y: "other_kernel pi = Some y"
        then show "x \<in> all_set g" "y \<in> all_set g"
          using peer unfolding xdn peer_ok_def by auto
        obtain pj where pj: "get_info (y, opposite d, other_name pi) g = Some pj"
            "other_kernel pj = Some x" "other_name pj = n" "pi_type pj = pi_type pi"
            "out_of_order pj = out_of_order pi"
          using peer y unfolding xdn peer_ok_def by auto
        have "(y, opposite d, other_name pi) \<noteq> (a, Out, na)"
          using pj(1,2) pa free by auto
        moreover have "(y, opposite d, other_name pi) \<noteq> (b, In, nb)"
          using pj(1,2) pb free by auto
        ultimately show "\<exists>pj. (if (y, opposite d, other_name pi) = (a, Out, na) then Some ?pa
             else if (y, opposite d, other_name pi) = (b, In, nb) then Some ?pb
             else get_info (y, opposite d, other_name pi) g) = Some pj
            \<and> other_kernel pj = Some x \<and> other_name pj = n
            \<and> pi_type pj = pi_type pi \<and> out_of_order pj = out_of_order pi"
          using pj by auto
      qed
    qed
  qed
  then show ?thesis using ok srt nm unfolding map_ok_def wired_def fields by blast
qed

section \<open>Links\<close>

lemma link_step:
  assumes ok: "map_ok g" and ka: "heap g a = Some ka" and kb: "heap g b = Some kb"
  shows "\<exists>g'. map_ok g' \<and> dom (heap g') = dom (heap g) \<and> next_addr g' = next_addr g
     \<and> (link nk ooo a na b nb s g = Returned (kernel_pair_of a b) g'
        \<or> (\<exists>e. link nk ooo a na b nb s g = Raised e g'))"
proof -
  let ?g1 = "updateKernels a ka b kb g"
  have ok1: "map_ok ?g1" by (rule map_ok_updateKernels [OF ok ka kb])
  have ka1: "heap ?g1 a = Some ka" using ka by simp
  show ?thesis
  proof (cases "find_port nk na (kout ka)")
    case (Inl e)
    then show ?thesis using ka kb ok1 by (intro exI [of _ ?g1]) (simp add: link_def)
  next
    case (Inr p)
    obtain key_a name_a where p: "p = (key_a, name_a)" by (cases p)
    let ?g2 = "set_info (a, Out, key_a) (\<lambda>pi. pi\<lparr>fixed_buffer_size := s\<rparr>) ?g1"
    have ok2: "map_ok ?g2" by (rule map_ok_buffer [OF ok1])
    have a: "name_a = key_a" "\<exists>pi. get_info (a, Out, key_a) ?g1 = Some pi"
      using find_port_names [of nk na Out ka key_a name_a ?g1 a] Inr p ka1 ok1
      by (simp_all add: map_ok_def)
    show ?thesis
    proof (cases "find_port nk nb (kin kb)")
      case (Inl e)
      then show ?thesis using ka kb ok2 Inr p by (intro exI [of _ ?g2]) (simp add: link_def)
    next
      fix q assume q: "find_port nk nb (kin kb) = Inr q"
      obtain key_b name_b where q': "q = (key_b, name_b)" by (cases q)
      let ?g3 = "set_info (b, In, key_b) (\<lambda>pi. pi\<lparr>fixed_buffer_size := s\<rparr>) ?g2"
      have ok3: "map_ok ?g3" by (rule map_ok_buffer [OF ok2])
      have b: "name_b = key_b" "\<exists>pi. get_info (b, In, key_b) ?g1 = Some pi"
        using find_port_names [of nk nb In kb key_b name_b ?g1 b] q q' kb ok1
        by (simp_all add: map_ok_def)
      obtain pa pb where pab: "get_info (a, Out, key_a) ?g3 = Some pa"
          "get_info (b, In, key_b) ?g3 = Some pb" using a b by auto
      have unfold: "link nk ooo a na b nb s g =
          bind_outcome (join a key_a (a, Out, key_a) b key_b (b, In, key_b) ?g3)
            (\<lambda>_ g4. Returned (kernel_pair_of a b) (set_order ooo (a, Out, key_a) (b, In, key_b) g4))"
        using ka kb Inr p q q' a(1) b(1) by (simp add: link_def)
      from pab show ?thesis
      proof (cases rule: join_cases [where a = a and b = b and na = key_a and nb = key_b])
        case (bad e)
        then show ?thesis using ok3 unfolding unfold by (intro exI [of _ ?g3]) simp
      next
        case good
        have ab: "a \<in> all_set ?g3" "b \<in> all_set ?g3" by simp_all
        show ?thesis unfolding unfold good(1) bind_outcome.simps
          using map_ok_connect [OF ok3 pab good(2-4) ab, of ooo]
          by (intro exI conjI disjI1 refl) (simp_all add: set_order_def)
      qed
    qed
  qed
qed

text \<open>
  Fact: link never corrupts the graph: on two existing kernels it returns the pair or raises an
  exception (it has no undefined behaviour), and in either case the graph it leaves is
  well formed: the connections stay symmetric and typed, and their kernels are known to the map.
\<close>

theorem link_keeps_graph_wired:
  assumes "map_ok g" and "heap g a \<noteq> None" and "heap g b \<noteq> None"
  shows "\<not> is_fault (link nk ooo a na b nb s g)
     \<and> (\<forall>g' \<in> outcome_states (link nk ooo a na b nb s g). map_ok g')"
  using link_step [OF assms(1), of a _ b _ nk ooo na nb s] assms(2,3) by force

text \<open>Two kernels with a port each, for the examples.\<close>

definition two_kernels :: "nat \<Rightarrow> (nat, nat) kernel option" where
  "two_kernels = [1 \<mapsto> (fst (kernel_new 1 0))\<lparr>kout := (Port_new 1)\<lparr>portmap := [(5, fresh_info 0 8 1 5)]\<rparr>\<rparr>,
                  2 \<mapsto> (fst (kernel_new 2 1))\<lparr>kin := (Port_new 2)\<lparr>portmap := [(6, fresh_info 0 8 2 6)]\<rparr>\<rparr>]"

lemmas two_kernels_simps =
  two_kernels_def kernel_new_def Port_new_def fresh_info_def PortInfo_new_def map_new_def

text \<open>Kernels as their constructors leave them: ports under their names, none linked.\<close>

definition unlinked_port :: "('k :: linorder, 't) Port \<Rightarrow> bool" where
  "unlinked_port p \<longleftrightarrow> smap_ok (portmap p)
     \<and> (\<forall>e \<in> set (portmap p). my_name (snd e) = fst e \<and> other_kernel (snd e) = None)"

definition unlinked :: "(nat \<Rightarrow> ('k :: linorder, 't) kernel option) \<Rightarrow> bool" where
  "unlinked h \<longleftrightarrow> (\<forall>k \<in> ran h. unlinked_port (kin k) \<and> unlinked_port (kout k))"

lemma unlinked_info:
  assumes "unlinked h" and "get_info (a, d, n) (map_new h m) = Some pi"
  shows "my_name pi = n \<and> other_kernel pi = None"
proof -
  obtain k where k: "h a = Some k" "smap_find (portmap (ports_of d k)) n = Some pi"
    using assms(2) by (auto simp: get_info.simps map_new_def split: option.splits)
  then have "unlinked_port (ports_of d k)"
    using assms(1) by (cases d) (auto simp: unlinked_def ran_def)
  then show ?thesis using smap_find_Some_in [OF k(2)] by (auto simp: unlinked_port_def)
qed

lemma map_new_ok:
  assumes "unlinked h"
  shows "map_ok (map_new h m)"
proof -
  have "named (map_new h m)" unfolding named_def using unlinked_info [OF assms] by blast
  moreover have "wired (map_new h m)"
    unfolding wired_def peer_ok_def using unlinked_info [OF assms] by (auto split: prod.splits)
  moreover have "heap_sorted (map_new h m)"
    using assms by (auto simp: heap_sorted_def map_new_def unlinked_def unlinked_port_def ran_def)
  ultimately show ?thesis unfolding map_ok_def by (simp add: map_new_def)
qed

lemma two_kernels_unlinked: "unlinked two_kernels"
  by (auto simp: unlinked_def unlinked_port_def ran_def two_kernels_simps smap_ok_def)

lemmas two_kernels_ok = map_new_ok [OF two_kernels_unlinked]

theorem link_keeps_graph_wired_witness:
  "\<not> is_fault (link 0 False 1 0 2 0 64 (map_new two_kernels 3))
     \<and> map_ok (map_new two_kernels 3)"
  using link_keeps_graph_wired [OF two_kernels_ok [of 3], of 1 2 0 False 0 0 64] two_kernels_ok
  by (simp add: two_kernels_def map_new_def)

lemma join_free:
  assumes "get_info ra g = Some pa" and "get_info rb g = Some pb"
    and "pi_type pa = pi_type pb" and "other_kernel pa = None" and "other_kernel pb = None"
  shows "join a na ra b nb rb g = Returned ()
     (set_info rb (\<lambda>pi. pi\<lparr>other_kernel := Some a, other_name := na\<rparr>)
       (set_info ra (\<lambda>pi. pi\<lparr>other_kernel := Some b, other_name := nb\<rparr>) g))"
  using assms by (simp add: join_def)

lemma join_taken:
  assumes "get_info ra g = Some pa" and "get_info rb g = Some pb"
    and "pi_type pa = pi_type pb" and "other_kernel pa \<noteq> None"
  shows "join a na ra b nb rb g = Raised PortDoubleInitialize g"
  using assms by (auto simp: join_def)

lemma link_named:
  assumes "heap g a = Some ka" and "heap g b = Some kb" and "na \<noteq> nk" and "nb \<noteq> nk"
    and "get_info (a, Out, na) g = Some pa" and "get_info (b, In, nb) g = Some pb"
  shows "link nk ooo a na b nb s g =
     bind_outcome (join a na (a, Out, na) b nb (b, In, nb)
        (set_info (b, In, nb) (\<lambda>pi. pi\<lparr>fixed_buffer_size := s\<rparr>)
          (set_info (a, Out, na) (\<lambda>pi. pi\<lparr>fixed_buffer_size := s\<rparr>) (updateKernels a ka b kb g))))
       (\<lambda>_ g4. Returned (kernel_pair_of a b) (set_order ooo (a, Out, na) (b, In, nb) g4))"
proof -
  have "find_port nk na (kout ka) = Inr (na, na)" "find_port nk nb (kin kb) = Inr (nb, nb)"
    using assms by (auto simp: find_port_def getPortInfoFor_def get_info.simps)
  then show ?thesis using assms(1,2) by (simp add: link_def)
qed

text \<open>
  C25: A link of two named free ports of one type succeeds and changes exactly those two: each
  gets the other kernel, the other name, the order and the buffer size of the link, every other
  port is as it was, and both kernels are in the map, with a kernel without inputs among the
  sources and one without outputs among the destinations.
\<close>

theorem link_connects_exactly:
  assumes "heap g a = Some ka" and "heap g b = Some kb" and "na \<noteq> nk" and "nb \<noteq> nk"
    and "get_info (a, Out, na) g = Some pa" and "get_info (b, In, nb) g = Some pb"
    and "pi_type pa = pi_type pb" and "other_kernel pa = None" and "other_kernel pb = None"
  shows "\<exists>g'. link nk ooo a na b nb s g = Returned (kernel_pair_of a b) g'
     \<and> (\<forall>r. get_info r g' =
            (if r = (a, Out, na)
             then Some (pa\<lparr>other_kernel := Some b, other_name := nb, out_of_order := ooo, fixed_buffer_size := s\<rparr>)
             else if r = (b, In, nb)
             then Some (pb\<lparr>other_kernel := Some a, other_name := na, out_of_order := ooo, fixed_buffer_size := s\<rparr>)
             else get_info r g))
     \<and> all_set g' = {a, b} \<union> all_set g
     \<and> source_set g' = (if hasPorts_of (kin ka) then {} else {a}) \<union> source_set g
     \<and> dst_set g' = (if hasPorts_of (kout kb) then {} else {b}) \<union> dst_set g"
proof -
  let ?g3 = "set_info (b, In, nb) (\<lambda>pi. pi\<lparr>fixed_buffer_size := s\<rparr>)
      (set_info (a, Out, na) (\<lambda>pi. pi\<lparr>fixed_buffer_size := s\<rparr>) (updateKernels a ka b kb g))"
  let ?g4 = "set_info (b, In, nb) (\<lambda>pi. pi\<lparr>other_kernel := Some a, other_name := na\<rparr>)
      (set_info (a, Out, na) (\<lambda>pi. pi\<lparr>other_kernel := Some b, other_name := nb\<rparr>) ?g3)"
  let ?g' = "set_order ooo (a, Out, na) (b, In, nb) ?g4"
  have i: "get_info (a, Out, na) ?g3 = Some (pa\<lparr>fixed_buffer_size := s\<rparr>)"
    "get_info (b, In, nb) ?g3 = Some (pb\<lparr>fixed_buffer_size := s\<rparr>)" using assms(5,6) by simp_all
  have "join a na (a, Out, na) b nb (b, In, nb) ?g3 = Returned () ?g4"
    by (rule join_free [OF i]) (simp_all add: assms(7-9))
  then have "link nk ooo a na b nb s g = Returned (kernel_pair_of a b) ?g'"
    unfolding link_named [OF assms(1-6)] by simp
  moreover have "get_info r ?g' =
            (if r = (a, Out, na)
             then Some (pa\<lparr>other_kernel := Some b, other_name := nb, out_of_order := ooo, fixed_buffer_size := s\<rparr>)
             else if r = (b, In, nb)
             then Some (pb\<lparr>other_kernel := Some a, other_name := na, out_of_order := ooo, fixed_buffer_size := s\<rparr>)
             else get_info r g)" for r
    using assms(5,6) by (cases "r = (a, Out, na)"; cases "r = (b, In, nb)") (simp_all add: set_order_def)
  moreover have "all_set ?g' = {a, b} \<union> all_set g"
    "source_set ?g' = (if hasPorts_of (kin ka) then {} else {a}) \<union> source_set g"
    "dst_set ?g' = (if hasPorts_of (kout kb) then {} else {b}) \<union> dst_set g"
    by (auto simp: set_order_def)
  ultimately show ?thesis by blast
qed

theorem link_connects_exactly_witness:
  "\<exists>g'. link 0 True 1 5 2 6 64 (map_new two_kernels 3) = Returned (kernel_pair_of 1 2) g'
     \<and> source_set g' = {1} \<and> dst_set g' = {2}
     \<and> map_option other_kernel (get_info (2, In, 6) g') = Some (Some 1)"
proof -
  let ?g = "map_new two_kernels 3"
  define ka where "ka = (fst (kernel_new 1 0) :: (nat, nat) kernel)\<lparr>kout := (Port_new 1)\<lparr>portmap := [(5, fresh_info 0 8 1 5)]\<rparr>\<rparr>"
  define kb where "kb = (fst (kernel_new 2 1) :: (nat, nat) kernel)\<lparr>kin := (Port_new 2)\<lparr>portmap := [(6, fresh_info 0 8 2 6)]\<rparr>\<rparr>"
  have k: "heap ?g 1 = Some ka" "heap ?g 2 = Some kb"
    by (simp_all add: map_new_def two_kernels_def ka_def kb_def)
  have i: "get_info (1, Out, 5) ?g = Some (fresh_info 0 8 1 5)"
    "get_info (2, In, 6) ?g = Some (fresh_info 0 8 2 6)"
    using k by (simp_all add: get_info.simps ka_def kb_def)
  have p: "\<not> hasPorts_of (kin ka)" "\<not> hasPorts_of (kout kb)"
    by (simp_all add: ka_def kb_def kernel_new_def Port_new_def hasPorts_of_def)
  show ?thesis
    using link_connects_exactly [OF k _ _ i, of 0 True 64] p
    by (auto simp: fresh_info_def PortInfo_new_def map_new_def)
qed

text \<open>
  Fact: Leaving the port name out is the same as naming the only port there is, on both sides of
  a link.
\<close>

theorem link_without_names:
  assumes "heap g a = Some ka" and "heap g b = Some kb"
    and "portmap (kout ka) = [(n, pa)]" and "my_name pa = n" and "n \<noteq> nk"
    and "portmap (kin kb) = [(m, pb)]" and "my_name pb = m" and "m \<noteq> nk"
  shows "link nk ooo a nk b nk s g = link nk ooo a n b m s g"
proof -
  have "find_port nk nk (kout ka) = Inr (n, n)" "find_port nk n (kout ka) = Inr (n, n)"
    using assms(3-5) by (simp_all add: find_port_def getPortInfo_def getPortInfoFor_def)
  moreover have "find_port nk nk (kin kb) = Inr (m, m)" "find_port nk m (kin kb) = Inr (m, m)"
    using assms(6-8) by (simp_all add: find_port_def getPortInfo_def getPortInfoFor_def)
  ultimately show ?thesis using assms(1,2) by (simp add: link_def)
qed

theorem link_without_names_witness:
  "link 0 False 1 0 2 0 64 (map_new two_kernels 3) = link 0 False 1 5 2 6 64 (map_new two_kernels 3)"
proof -
  obtain ka kb where k: "heap (map_new two_kernels 3) 1 = Some ka" "heap (map_new two_kernels 3) 2 = Some kb"
    unfolding map_new_def two_kernels_def by fastforce
  have p: "portmap (kout ka) = [(5, fresh_info 0 8 1 5)]" "portmap (kin kb) = [(6, fresh_info 0 8 2 6)]"
    using k by (auto simp: map_new_def two_kernels_def)
  show ?thesis
    by (rule link_without_names [OF k p(1) _ _ p(2)]) (simp_all add: fresh_info_def)
qed

text \<open>
  Fact: A link that fails still has effects: naming a port that is connected already raises
  PortDoubleInitialize, but by then the buffer size of the existing connection has been
  overwritten on this end, while its other end keeps the old size.
\<close>

theorem failed_link_overwrites_buffer_size:
  assumes "heap g a = Some ka" and "heap g b = Some kb" and "na \<noteq> nk" and "nb \<noteq> nk"
    and "get_info (a, Out, na) g = Some pa" and "get_info (b, In, nb) g = Some pb"
    and "pi_type pa = pi_type pb" and "other_kernel pa = Some c" and "c \<noteq> b"
    and "get_info (c, In, other_name pa) g = Some pc"
  shows "\<exists>g'. link nk ooo a na b nb s g = Raised PortDoubleInitialize g'
     \<and> get_info (a, Out, na) g' = Some (pa\<lparr>fixed_buffer_size := s\<rparr>)
     \<and> get_info (c, In, other_name pa) g' = Some pc"
proof -
  let ?g3 = "set_info (b, In, nb) (\<lambda>pi. pi\<lparr>fixed_buffer_size := s\<rparr>)
      (set_info (a, Out, na) (\<lambda>pi. pi\<lparr>fixed_buffer_size := s\<rparr>) (updateKernels a ka b kb g))"
  have i: "get_info (a, Out, na) ?g3 = Some (pa\<lparr>fixed_buffer_size := s\<rparr>)"
    "get_info (b, In, nb) ?g3 = Some (pb\<lparr>fixed_buffer_size := s\<rparr>)" using assms(5,6) by simp_all
  have "join a na (a, Out, na) b nb (b, In, nb) ?g3 = Raised PortDoubleInitialize ?g3"
    by (rule join_taken [OF i]) (simp_all add: assms(7,8))
  then have "link nk ooo a na b nb s g = Raised PortDoubleInitialize ?g3"
    unfolding link_named [OF assms(1-6)] by simp
  then show ?thesis using assms(5,9,10) by (intro exI [of _ ?g3]) simp
qed

definition linked_pair :: "nat \<Rightarrow> (nat, nat) kernel option" where
  "linked_pair = [1 \<mapsto> (fst (kernel_new 1 0))\<lparr>kout := (Port_new 1)\<lparr>portmap :=
                         [(5, (fresh_info 0 8 1 5)\<lparr>other_kernel := Some 2, other_name := 6\<rparr>)]\<rparr>\<rparr>,
                  2 \<mapsto> (fst (kernel_new 2 1))\<lparr>kin := (Port_new 2)\<lparr>portmap :=
                         [(6, (fresh_info 0 8 2 6)\<lparr>other_kernel := Some 1, other_name := 5\<rparr>)]\<rparr>\<rparr>,
                  3 \<mapsto> (fst (kernel_new 3 2))\<lparr>kin := (Port_new 3)\<lparr>portmap := [(7, fresh_info 0 8 3 7)]\<rparr>\<rparr>]"

theorem failed_link_overwrites_buffer_size_witness:
  "\<exists>g'. link 0 False 1 5 3 7 64 (map_new linked_pair 4) = Raised PortDoubleInitialize g'
     \<and> map_option fixed_buffer_size (get_info (1, Out, 5) g') = Some 64
     \<and> map_option fixed_buffer_size (get_info (2, In, 6) g') = Some 0"
proof -
  let ?g = "map_new linked_pair 4"
  let ?pa = "(fresh_info 0 8 1 5)\<lparr>other_kernel := Some 2, other_name := 6\<rparr> :: (nat, nat) PortInfo"
  let ?pc = "(fresh_info 0 8 2 6)\<lparr>other_kernel := Some 1, other_name := 5\<rparr> :: (nat, nat) PortInfo"
  obtain ka kb where k: "heap ?g 1 = Some ka" "heap ?g 3 = Some kb"
    unfolding map_new_def linked_pair_def by fastforce
  have i: "get_info (1, Out, 5) ?g = Some ?pa" "get_info (3, In, 7) ?g = Some (fresh_info 0 8 3 7)"
    "get_info (2, In, other_name ?pa) ?g = Some ?pc"
    by (simp_all add: get_info.simps map_new_def linked_pair_def)
  have t: "pi_type ?pa = pi_type (fresh_info 0 8 3 7 :: (nat, nat) PortInfo)"
    "other_kernel ?pa = Some 2" "fixed_buffer_size ?pc = 0" "other_name ?pa = 6"
    by (simp_all add: fresh_info_def PortInfo_new_def)
  show ?thesis
    using failed_link_overwrites_buffer_size [OF k _ _ i(1,2) t(1,2) _ i(3), of 0 False 64] t(3,4) by auto
qed

text \<open>
  Fact: insert cannot put a kernel between two ports that are connected: the port it starts from
  is taken, so the first join raises, whatever the types are, and the graph is unchanged.  This
  is the only way enableDuplication calls it.
\<close>

theorem insert_between_connected_raises:
  assumes "heap g i = Some ki" and "get_info (i, In, zero) g = Some pin"
    and "get_info (i, Out, zero) g = Some pout"
    and "get_info ra g = Some pa" and "get_info rb g = Some pb" and "other_kernel pa \<noteq> None"
  shows "insert_between zero a ra b rb i g =
     Raised (if pi_type pa = pi_type pin then PortDoubleInitialize else PortTypeMismatch) g"
  using assms by (auto simp: insert_between_def getPortInfoFor_def join_def get_info.simps)

theorem insert_between_connected_raises_witness:
  "insert_between 9 1 (1, Out, 5) 2 (2, In, 6) 3 (map_new (linked_pair(3 \<mapsto>
      (fst (kernel_new 3 2))\<lparr>kin := (Port_new 3)\<lparr>portmap := [(9, fresh_info 0 8 3 9)]\<rparr>,
                             kout := (Port_new 3)\<lparr>portmap := [(9, fresh_info 0 8 3 9)]\<rparr>\<rparr>)) 4)
   = Raised PortDoubleInitialize (map_new (linked_pair(3 \<mapsto>
      (fst (kernel_new 3 2))\<lparr>kin := (Port_new 3)\<lparr>portmap := [(9, fresh_info 0 8 3 9)]\<rparr>,
                             kout := (Port_new 3)\<lparr>portmap := [(9, fresh_info 0 8 3 9)]\<rparr>\<rparr>)) 4)"
  (is "insert_between 9 1 _ 2 _ 3 ?g = _")
proof -
  let ?pa = "(fresh_info 0 8 1 5)\<lparr>other_kernel := Some 2, other_name := 6\<rparr> :: (nat, nat) PortInfo"
  let ?pc = "(fresh_info 0 8 2 6)\<lparr>other_kernel := Some 1, other_name := 5\<rparr> :: (nat, nat) PortInfo"
  obtain ki where k: "heap ?g 3 = Some ki" by (simp add: map_new_def)
  have i: "get_info (3, In, 9) ?g = Some (fresh_info 0 8 3 9)"
    "get_info (3, Out, 9) ?g = Some (fresh_info 0 8 3 9)"
    "get_info (1, Out, 5) ?g = Some ?pa" "get_info (2, In, 6) ?g = Some ?pc"
    by (simp_all add: get_info.simps map_new_def linked_pair_def)
  show ?thesis
    using insert_between_connected_raises [OF k i, of 1 2]
    by (simp add: fresh_info_def PortInfo_new_def)
qed

end
