(* ===== verification/Map_Run.thy ===== *)
theory Map_Run
  imports Map_Props
begin

text \<open>
  Whole runs of the map's interface: any sequence of links from freshly constructed
  kernels, the check of the edges before execution, the submaps, and the destructor.
\<close>

section \<open>Sequences of links\<close>

record 'k link_call =
  l_src :: nat
  l_src_port :: 'k
  l_dst :: nat
  l_dst_port :: 'k
  l_out_of_order :: bool
  l_buffer :: u64

text \<open>The caller catches an exception and goes on, or stops; both are runs.\<close>

fun run_links :: "'k \<Rightarrow> 'k link_call list \<Rightarrow> ('k, 't) map_state \<Rightarrow> (unit, ('k, 't) map_state) outcome" where
  "run_links nk [] g = Returned () g"
| "run_links nk (c # cs) g =
     (case link nk (l_out_of_order c) (l_src c) (l_src_port c) (l_dst c) (l_dst_port c) (l_buffer c) g of
        Returned _ g' \<Rightarrow> run_links nk cs g'
      | Raised e g' \<Rightarrow> run_links nk cs g'
      | Spin g' \<Rightarrow> Spin g'
      | Fault f \<Rightarrow> Fault f)"

definition calls_in :: "'k link_call list \<Rightarrow> nat set \<Rightarrow> bool" where
  "calls_in cs A \<longleftrightarrow> (\<forall>c \<in> set cs. l_src c \<in> A \<and> l_dst c \<in> A)"

lemma run_links_ok:
  assumes "map_ok g" and "calls_in cs (dom (heap g))"
  shows "\<exists>g'. run_links nk cs g = Returned () g' \<and> map_ok g' \<and> dom (heap g') = dom (heap g)"
  using assms
proof (induction cs arbitrary: g)
  case (Cons c cs)
  obtain ka kb where k: "heap g (l_src c) = Some ka" "heap g (l_dst c) = Some kb"
    using Cons.prems(2) by (auto simp: calls_in_def)
  obtain g1 where g1: "map_ok g1" "dom (heap g1) = dom (heap g)"
      "link nk (l_out_of_order c) (l_src c) (l_src_port c) (l_dst c) (l_dst_port c) (l_buffer c) g
         = Returned (kernel_pair_of (l_src c) (l_dst c)) g1
       \<or> (\<exists>e. link nk (l_out_of_order c) (l_src c) (l_src_port c) (l_dst c) (l_dst_port c) (l_buffer c) g
         = Raised e g1)"
    using link_step [OF Cons.prems(1) k] by blast
  moreover have "calls_in cs (dom (heap g1))" using Cons.prems(2) g1(2) by (simp add: calls_in_def)
  ultimately obtain g' where "run_links nk cs g1 = Returned () g'" "map_ok g'"
      "dom (heap g') = dom (heap g1)"
    using Cons.IH [of g1] by blast
  then show ?case using g1 by auto
qed simp

lemma check_edges_loop_cases:
  assumes "set as \<subseteq> dom (heap g)" and "heap_sorted g"
  shows "check_edges_loop as g =
     (if \<forall>a \<in> set as. \<forall>d n pi. get_info (a, d, n) g = Some pi \<longrightarrow> other_kernel pi \<noteq> None
      then Returned () g else Raised PortUnconnected g)"
  using assms
proof (induction as)
  case (Cons a as)
  obtain k where k: "heap g a = Some k" using Cons.prems by auto
  have s: "smap_ok (portmap (kin k))" "smap_ok (portmap (kout k))"
    using Cons.prems k by (auto simp: heap_sorted_def)
  have find: "smap_find (portmap (ports_of d k)) n = Some pi \<longleftrightarrow> (n, pi) \<in> set (portmap (ports_of d k))"
    for d n pi
    using smap_find_in smap_find_Some_in s by (cases d) (auto simp: smap_ok_def)
  have "(\<forall>d n pi. get_info (a, d, n) g = Some pi \<longrightarrow> other_kernel pi \<noteq> None) \<longleftrightarrow>
    (\<forall>e \<in> set (portmap (kin k)) \<union> set (portmap (kout k)). other_kernel (snd e) \<noteq> None)"
    (is "?L \<longleftrightarrow> ?R")
  proof
    assume L: ?L
    have *: "other_kernel pi \<noteq> None" if "(n, pi) \<in> set (portmap (ports_of d k))" for d n pi
      using L find k that by (simp add: get_info.simps)
    show ?R
    proof
      fix e assume "e \<in> set (portmap (kin k)) \<union> set (portmap (kout k))"
      then show "other_kernel (snd e) \<noteq> None"
        using * [of "fst e" "snd e" In] * [of "fst e" "snd e" Out] by auto
    qed
  next
    assume R: ?R
    show ?L
    proof (intro allI impI)
      fix d n pi assume "get_info (a, d, n) g = Some pi"
      then have "(n, pi) \<in> set (portmap (ports_of d k))" using k find by (simp add: get_info.simps)
      then show "other_kernel pi \<noteq> None" using R by (cases d) force+
    qed
  qed
  then show ?case using Cons.IH Cons.prems k s by (simp add: allConnected_iff)
qed simp

text \<open>
  C9: A graph that passes checkEdges is completely and consistently connected, however the links
  were made and whichever of them failed: behind every port of every kernel of the map is a
  port of the opposite direction and the same type, of a kernel of the map, whose other end is
  this port.  And checkEdges raises nothing but PortUnconnected.
\<close>

theorem checked_graph_is_connected:
  assumes "unlinked h" and "calls_in cs (dom h)"
  shows "\<exists>g. run_links nk cs (map_new h m) = Returned () g
     \<and> (checkEdges g = Raised PortUnconnected g
        \<or> checkEdges g = Returned () g
          \<and> (\<forall>a \<in> all_set g. \<forall>d n pi. get_info (a, d, n) g = Some pi \<longrightarrow>
               (\<exists>b pj. other_kernel pi = Some b \<and> b \<in> all_set g
                  \<and> get_info (b, opposite d, other_name pi) g = Some pj
                  \<and> other_kernel pj = Some a \<and> other_name pj = n
                  \<and> pi_type pj = pi_type pi \<and> out_of_order pj = out_of_order pi)))"
proof -
  have "calls_in cs (dom (heap (map_new h m)))" using assms(2) by (simp add: map_new_def)
  then obtain g where g: "run_links nk cs (map_new h m) = Returned () g" "map_ok g"
    using run_links_ok [OF map_new_ok [OF assms(1)]] by blast
  then have fin: "set (keeper_list (all_set g)) = all_set g"
    by (simp add: keeper_list_def map_ok_def)
  have "checkEdges g =
     (if \<forall>a \<in> all_set g. \<forall>d n pi. get_info (a, d, n) g = Some pi \<longrightarrow> other_kernel pi \<noteq> None
      then Returned () g else Raised PortUnconnected g)"
    unfolding checkEdges_def
    by (subst check_edges_loop_cases) (use g(2) fin in \<open>auto simp: map_ok_def\<close>)
  moreover have "peer_ok (a, d, n) pi g" if "get_info (a, d, n) g = Some pi" for a d n pi
    using g(2) that unfolding map_ok_def wired_def by blast
  ultimately have "checkEdges g = Raised PortUnconnected g
     \<or> checkEdges g = Returned () g
       \<and> (\<forall>a \<in> all_set g. \<forall>d n pi. get_info (a, d, n) g = Some pi \<longrightarrow>
            other_kernel pi \<noteq> None \<and> peer_ok (a, d, n) pi g)"
    by (auto split: if_splits)
  then show ?thesis
  proof
    assume "checkEdges g = Raised PortUnconnected g"
    then show ?thesis using g(1) by blast
  next
    assume *: "checkEdges g = Returned () g
       \<and> (\<forall>a \<in> all_set g. \<forall>d n pi. get_info (a, d, n) g = Some pi \<longrightarrow>
            other_kernel pi \<noteq> None \<and> peer_ok (a, d, n) pi g)"
    have "\<exists>b pj. other_kernel pi = Some b \<and> b \<in> all_set g
                  \<and> get_info (b, opposite d, other_name pi) g = Some pj
                  \<and> other_kernel pj = Some a \<and> other_name pj = n
                  \<and> pi_type pj = pi_type pi \<and> out_of_order pj = out_of_order pi"
      if "a \<in> all_set g" "get_info (a, d, n) g = Some pi" for a d n pi
      using * that unfolding peer_ok_def prod.case by blast
    then show ?thesis using g(1) * by blast
  qed
qed

definition one_call :: "nat link_call" where
  "one_call = \<lparr>l_src = 1, l_src_port = 5, l_dst = 2, l_dst_port = 0, l_out_of_order = True, l_buffer = 0\<rparr>"

theorem checked_graph_is_connected_witness:
  "\<exists>g. run_links 0 [one_call, one_call] (map_new two_kernels 3) = Returned () g
     \<and> (checkEdges g = Raised PortUnconnected g \<or> checkEdges g = Returned () g)"
proof -
  have "calls_in [one_call, one_call] (dom two_kernels)"
    by (simp add: calls_in_def one_call_def two_kernels_def)
  then show ?thesis
    using checked_graph_is_connected [OF two_kernels_unlinked, of "[one_call, one_call]" 0 3] by blast
qed

section \<open>The destructor\<close>

lemma delete_kernels_ok:
  assumes "distinct as" and "set as \<subseteq> dom (heap g)"
  shows "delete_kernels as g =
     Returned () (g\<lparr>heap := (\<lambda>a. if a \<in> set as then None else heap g a)\<rparr>)"
  using assms
proof (induction as arbitrary: g)
  case (Cons a as)
  have d: "set as \<subseteq> dom (heap (g\<lparr>heap := (heap g)(a := None)\<rparr>))" using Cons.prems by auto
  have "delete_kernels as (g\<lparr>heap := (heap g)(a := None)\<rparr>) =
      Returned () (g\<lparr>heap := (\<lambda>x. if x \<in> set as then None else ((heap g)(a := None)) x)\<rparr>)"
    using Cons.IH [OF _ d] Cons.prems(1) by (simp cong: if_cong)
  moreover have "(\<lambda>x. if x \<in> set as then None else ((heap g)(a := None)) x) =
      (\<lambda>x. if x \<in> set (a # as) then None else heap g x)" by (auto simp: fun_eq_iff)
  moreover have "heap g a \<noteq> None" using Cons.prems by auto
  ultimately show ?case by simp
qed simp



end
