(* ===== verification/Kpair.thy ===== *)
theory Kpair
  imports Map_Run
begin

text \<open>
  The expressions that describe a topology: src/kpair.cpp with raftinc/kpair.hpp.  An
  expression such as g <= s >> print builds kpair objects on the heap, each linked to the
  next one and to the head of its chain; the operators return the last kpair they made.
  A kernel_wrapper gives its kernel away when it is dereferenced.
\<close>

record 'k kpair =
  p_next :: "nat option"
  p_head :: nat
  p_src :: nat
  has_src_name :: bool
  src_name :: 'k
  p_dst :: nat
  has_dst_name :: bool
  dst_name :: 'k
  buffer_size :: u64
  split_to :: bool
  src_out_count :: nat
  join_from :: bool
  dst_in_count :: nat
  p_out_of_order :: bool

record ('k, 't) topology =
  graph :: "('k, 't) map_state"
  pairs :: "nat \<Rightarrow> 'k kpair option"
  next_pair :: nat

definition topology_new :: "('k, 't) map_state \<Rightarrow> ('k, 't) topology" where
  "topology_new g = \<lparr>graph = g, pairs = (\<lambda>_. None), next_pair = 0\<rparr>"

definition update_pair :: "nat \<Rightarrow> ('k kpair \<Rightarrow> 'k kpair) \<Rightarrow> ('k, 't) topology \<Rightarrow> ('k, 't) topology" where
  "update_pair p f w =
     (case pairs w p of None \<Rightarrow> w | Some P \<Rightarrow> w\<lparr>pairs := (pairs w)(p \<mapsto> f P)\<rparr>)"

definition put_kernel :: "nat \<Rightarrow> ('k, 't) kernel \<Rightarrow> ('k, 't) topology \<Rightarrow> ('k, 't) topology" where
  "put_kernel a k w = w\<lparr>graph := (graph w)\<lparr>heap := (heap (graph w))(a \<mapsto> k)\<rparr>\<rparr>"

section \<open>Constructors\<close>

text \<open>The constructor of two kernels takes the port names that operator [] left with them.\<close>

definition kpair_new :: "'k \<Rightarrow> nat \<Rightarrow> nat \<Rightarrow> ('k, 't) topology \<Rightarrow> (nat, ('k, 't) topology) outcome" where
  "kpair_new nk a b w =
     (case heap (graph w) a of
        None \<Rightarrow> Fault UseAfterFree
      | Some ka \<Rightarrow>
          (let (na, ka') = getEnabledPort nk ka;
               w1 = put_kernel a ka' w
           in case heap (graph w1) b of
                None \<Rightarrow> Fault UseAfterFree
              | Some kb \<Rightarrow>
                  (let (nb, kb') = getEnabledPort nk kb;
                       w2 = put_kernel b kb' w1;
                       this = next_pair w2;
                       P = \<lparr>p_next = None, p_head = this, p_src = a, has_src_name = (na \<noteq> nk),
                            src_name = na, p_dst = b, has_dst_name = (nb \<noteq> nk), dst_name = nb,
                            buffer_size = 0, split_to = False, src_out_count = count_of (kout ka'),
                            join_from = False, dst_in_count = count_of (kin kb'),
                            p_out_of_order = False\<rparr>
                   in Returned this (w2\<lparr>pairs := (pairs w2)(this \<mapsto> P), next_pair := this + 1\<rparr>))))"

definition set_flags :: "bool \<Rightarrow> bool \<Rightarrow> 'k kpair \<Rightarrow> 'k kpair" where
  "set_flags sp jo P = P\<lparr>split_to := sp, join_from := jo\<rparr>"

definition kpair_kernels ::
  "'k \<Rightarrow> nat \<Rightarrow> nat \<Rightarrow> bool \<Rightarrow> bool \<Rightarrow> ('k, 't) topology \<Rightarrow> (nat, ('k, 't) topology) outcome" where
  "kpair_kernels nk a b sp jo w =
     bind_outcome (kpair_new nk a b w)
       (\<lambda>this w1. Returned this (update_pair this (set_flags sp jo) w1))"

definition kpair_after ::
  "'k \<Rightarrow> nat \<Rightarrow> nat \<Rightarrow> bool \<Rightarrow> bool \<Rightarrow> ('k, 't) topology \<Rightarrow> (nat, ('k, 't) topology) outcome" where
  "kpair_after nk pa b sp jo w =
     (case pairs w pa of
        None \<Rightarrow> Fault UseAfterFree
      | Some A \<Rightarrow>
          bind_outcome (kpair_new nk (p_dst A) b w)
            (\<lambda>this w1. Returned this
               (update_pair this (set_flags sp jo)
                 (update_pair pa (\<lambda>P. P\<lparr>p_next := Some this\<rparr>)
                   (update_pair this (\<lambda>P. P\<lparr>p_head := p_head A\<rparr>) w1)))))"

definition kpair_before ::
  "'k \<Rightarrow> nat \<Rightarrow> nat \<Rightarrow> bool \<Rightarrow> bool \<Rightarrow> ('k, 't) topology \<Rightarrow> (nat, ('k, 't) topology) outcome" where
  "kpair_before nk a pn sp jo w =
     (case pairs w pn of
        None \<Rightarrow> Fault UseAfterFree
      | Some N \<Rightarrow>
          bind_outcome (kpair_new nk a (p_src N) w)
            (\<lambda>this w1. Returned this
               (update_pair this (set_flags sp jo)
                 (update_pair this (\<lambda>P. P\<lparr>p_head := this, p_next := Some pn\<rparr>) w1))))"

definition kpair_both ::
  "'k \<Rightarrow> nat \<Rightarrow> nat \<Rightarrow> bool \<Rightarrow> bool \<Rightarrow> ('k, 't) topology \<Rightarrow> (nat, ('k, 't) topology) outcome" where
  "kpair_both nk pa pb sp jo w =
     (case (pairs w pa, pairs w pb) of
        (Some A, Some B) \<Rightarrow>
          bind_outcome (kpair_new nk (p_dst A) (p_src B) w)
            (\<lambda>this w1. Returned this
               (update_pair this (set_flags sp jo)
                 (update_pair this (\<lambda>P. P\<lparr>p_next := Some pb\<rparr>)
                   (update_pair pb (\<lambda>P. P\<lparr>p_head := p_head A\<rparr>)
                     (update_pair pa (\<lambda>P. P\<lparr>p_next := Some this\<rparr>)
                       (update_pair this (\<lambda>P. P\<lparr>p_head := p_head A\<rparr>) w1))))))
      | _ \<Rightarrow> Fault UseAfterFree)"

definition setOoO :: "nat \<Rightarrow> ('k, 't) topology \<Rightarrow> ('k, 't) topology" where
  "setOoO p w = update_pair p (\<lambda>P. P\<lparr>p_out_of_order := True\<rparr>) w"

text \<open>A wrapper stands for the kernel it gives away; the sentinel for a wild pointer.\<close>

definition with_wrapper ::
  "kernel_wrapper \<Rightarrow> (nat \<Rightarrow> ('k, 't) topology \<Rightarrow> (nat, ('k, 't) topology) outcome) \<Rightarrow>
   ('k, 't) topology \<Rightarrow> (nat, ('k, 't) topology) outcome" where
  "with_wrapper x f w =
     (case fst (kernel_wrapper_deref x) of None \<Rightarrow> Fault UseAfterFree | Some a \<Rightarrow> f a w)"

section \<open>Operators\<close>

text \<open>The operator >>: k a kernel, w a wrapper, p a chain, O an ordering in between.\<close>

definition shift_kk :: "'k \<Rightarrow> nat \<Rightarrow> nat \<Rightarrow> ('k, 't) topology \<Rightarrow> (nat, ('k, 't) topology) outcome" where
  "shift_kk nk a b = kpair_new nk a b"

definition shift_ww :: "'k \<Rightarrow> kernel_wrapper \<Rightarrow> kernel_wrapper \<Rightarrow> ('k, 't) topology \<Rightarrow> (nat, ('k, 't) topology) outcome" where
  "shift_ww nk x y = with_wrapper x (\<lambda>a. with_wrapper y (\<lambda>b. kpair_new nk a b))"

definition shift_kw :: "'k \<Rightarrow> nat \<Rightarrow> kernel_wrapper \<Rightarrow> ('k, 't) topology \<Rightarrow> (nat, ('k, 't) topology) outcome" where
  "shift_kw nk a y = with_wrapper y (\<lambda>b. kpair_new nk a b)"

definition shift_pk :: "'k \<Rightarrow> nat \<Rightarrow> nat \<Rightarrow> ('k, 't) topology \<Rightarrow> (nat, ('k, 't) topology) outcome" where
  "shift_pk nk p b = kpair_after nk p b False False"

definition shift_pw :: "'k \<Rightarrow> nat \<Rightarrow> kernel_wrapper \<Rightarrow> ('k, 't) topology \<Rightarrow> (nat, ('k, 't) topology) outcome" where
  "shift_pw nk p y = with_wrapper y (\<lambda>b. kpair_after nk p b False False)"

definition shift_kOk :: "'k \<Rightarrow> nat \<Rightarrow> nat \<Rightarrow> ('k, 't) topology \<Rightarrow> (nat, ('k, 't) topology) outcome" where
  "shift_kOk nk a b w =
     bind_outcome (kpair_kernels nk a b False False w) (\<lambda>p w'. Returned p (setOoO p w'))"

definition shift_kOw :: "'k \<Rightarrow> nat \<Rightarrow> kernel_wrapper \<Rightarrow> ('k, 't) topology \<Rightarrow> (nat, ('k, 't) topology) outcome" where
  "shift_kOw nk a y = with_wrapper y (\<lambda>b. shift_kOk nk a b)"

definition shift_pOk :: "'k \<Rightarrow> nat \<Rightarrow> nat \<Rightarrow> ('k, 't) topology \<Rightarrow> (nat, ('k, 't) topology) outcome" where
  "shift_pOk nk p b w =
     bind_outcome (kpair_after nk p b False False w) (\<lambda>q w'. Returned q (setOoO q w'))"

definition shift_pOw :: "'k \<Rightarrow> nat \<Rightarrow> kernel_wrapper \<Rightarrow> ('k, 't) topology \<Rightarrow> (nat, ('k, 't) topology) outcome" where
  "shift_pOw nk p y = with_wrapper y (\<lambda>b. shift_pOk nk p b)"

text \<open>The operator <=: split the ports of the source over copies of what follows.\<close>

definition split_kk :: "'k \<Rightarrow> nat \<Rightarrow> nat \<Rightarrow> ('k, 't) topology \<Rightarrow> (nat, ('k, 't) topology) outcome" where
  "split_kk nk a b = kpair_kernels nk a b True False"

definition split_ww :: "'k \<Rightarrow> kernel_wrapper \<Rightarrow> kernel_wrapper \<Rightarrow> ('k, 't) topology \<Rightarrow> (nat, ('k, 't) topology) outcome" where
  "split_ww nk x y = with_wrapper x (\<lambda>a. with_wrapper y (\<lambda>b. kpair_kernels nk a b True False))"

definition split_kp :: "'k \<Rightarrow> nat \<Rightarrow> nat \<Rightarrow> ('k, 't) topology \<Rightarrow> (nat, ('k, 't) topology) outcome" where
  "split_kp nk a p = kpair_before nk a p True False"

definition split_wp :: "'k \<Rightarrow> kernel_wrapper \<Rightarrow> nat \<Rightarrow> ('k, 't) topology \<Rightarrow> (nat, ('k, 't) topology) outcome" where
  "split_wp nk x p = with_wrapper x (\<lambda>a. kpair_before nk a p True False)"

text \<open>The operator >=: join what came before in the ports of the destination.\<close>

definition join_kk :: "'k \<Rightarrow> nat \<Rightarrow> nat \<Rightarrow> ('k, 't) topology \<Rightarrow> (nat, ('k, 't) topology) outcome" where
  "join_kk nk a b = kpair_kernels nk a b False True"

definition join_ww :: "'k \<Rightarrow> kernel_wrapper \<Rightarrow> kernel_wrapper \<Rightarrow> ('k, 't) topology \<Rightarrow> (nat, ('k, 't) topology) outcome" where
  "join_ww nk x y = with_wrapper x (\<lambda>a. with_wrapper y (\<lambda>b. kpair_kernels nk a b False True))"

definition join_pw :: "'k \<Rightarrow> nat \<Rightarrow> kernel_wrapper \<Rightarrow> ('k, 't) topology \<Rightarrow> (nat, ('k, 't) topology) outcome" where
  "join_pw nk p y = with_wrapper y (\<lambda>b. kpair_after nk p b False True)"

definition join_pk :: "'k \<Rightarrow> nat \<Rightarrow> nat \<Rightarrow> ('k, 't) topology \<Rightarrow> (nat, ('k, 't) topology) outcome" where
  "join_pk nk p b = kpair_after nk p b False True"

definition join_pp :: "'k \<Rightarrow> nat \<Rightarrow> nat \<Rightarrow> ('k, 't) topology \<Rightarrow> (nat, ('k, 't) topology) outcome" where
  "join_pp nk p q = kpair_both nk p q False True"

definition join_kp :: "'k \<Rightarrow> nat \<Rightarrow> nat \<Rightarrow> ('k, 't) topology \<Rightarrow> (nat, ('k, 't) topology) outcome" where
  "join_kp nk a p = kpair_before nk a p False True"

definition join_wp :: "'k \<Rightarrow> kernel_wrapper \<Rightarrow> nat \<Rightarrow> ('k, 't) topology \<Rightarrow> (nat, ('k, 't) topology) outcome" where
  "join_wp nk x p = with_wrapper x (\<lambda>a. kpair_before nk a p False True)"

end
