(* ===== verification/Map_Ops.thy ===== *)
theory Map_Ops
  imports Kpair
begin

text \<open>
  raft::map::operator += and its helpers, src/map.cpp: the walk along a chain of kpair
  objects that links the kernels of a topology, cloning the ones a split or a join needs
  more than once.  The clone function is the user's copy constructor (a parameter, given
  the address of the new kernel and the old one); the assertions are on, as in a debug
  build.
\<close>

type_synonym ('k, 't) cloner = "nat \<Rightarrow> ('k, 't) kernel \<Rightarrow> exn + ('k, 't) kernel"

text \<open>What the CLONE macro makes of the copy constructor; without it clone throws.\<close>

definition clone_kernel :: "('k, 't) cloner \<Rightarrow> nat \<Rightarrow> ('k, 't) topology \<Rightarrow> (nat, ('k, 't) topology) outcome" where
  "clone_kernel cl a w =
     (case heap (graph w) a of
        None \<Rightarrow> Fault UseAfterFree
      | Some k \<Rightarrow>
          (let c = next_addr (graph w)
           in case cl c k of
                Inl e \<Rightarrow> Raised e w
              | Inr k' \<Rightarrow>
                  Returned c (w\<lparr>graph := (graph w)\<lparr>heap := (heap (graph w))(c \<mapsto> k'\<lparr>internal_alloc := True\<rparr>),
                                                   next_addr := c + 1\<rparr>\<rparr>)))"

definition clone_default :: "('k, 't) cloner" where
  "clone_default c k = Inl CloneNotImplemented"

definition with_pair ::
  "nat \<Rightarrow> ('k kpair \<Rightarrow> ('k, 't) topology \<Rightarrow> ('r, ('k, 't) topology) outcome) \<Rightarrow>
   ('k, 't) topology \<Rightarrow> ('r, ('k, 't) topology) outcome" where
  "with_pair p f w = (case pairs w p of None \<Rightarrow> Fault UseAfterFree | Some P \<Rightarrow> f P w)"

fun lift_graph :: "('r, ('k, 't) map_state) outcome \<Rightarrow> ('k, 't) topology \<Rightarrow> ('r, ('k, 't) topology) outcome" where
  "lift_graph (Returned r g) w = Returned r (w\<lparr>graph := g\<rparr>)"
| "lift_graph (Spin g) w = Spin (w\<lparr>graph := g\<rparr>)"
| "lift_graph (Raised e g) w = Raised e (w\<lparr>graph := g\<rparr>)"
| "lift_graph (Fault f) w = Fault f"

definition joink :: "'k \<Rightarrow> nat \<Rightarrow> ('k, 't) topology \<Rightarrow> (kernel_pair_t, ('k, 't) topology) outcome" where
  "joink nk p w =
     with_pair p (\<lambda>P w. lift_graph
       (if p_out_of_order P
        then link nk True (p_src P) (src_name P) (p_dst P) (dst_name P) (buffer_size P) (graph w)
        else link nk False (p_src P) (src_name P) (p_dst P) (dst_name P) (buffer_size P) (graph w)) w) w"

text \<open>Appending to the last group of a list of groups.\<close>

definition add_back :: "nat \<Rightarrow> nat list list \<Rightarrow> nat list list" where
  "add_back k temp = butlast temp @ [last temp @ [k]]"

definition add_front :: "nat \<Rightarrow> nat list list \<Rightarrow> nat list list" where
  "add_front k temp = (hd temp @ [k]) # tl temp"

section \<open>inline_cont\<close>

fun cont_kernels ::
  "'k \<Rightarrow> ('k, 't) cloner \<Rightarrow> nat \<Rightarrow> nat list \<Rightarrow> nat list list \<Rightarrow> ('k, 't) topology \<Rightarrow>
   (nat list list, ('k, 't) topology) outcome" where
  "cont_kernels nk cl p [] temp w = Returned temp w"
| "cont_kernels nk cl p (k # ks) temp w =
     with_pair p (\<lambda>P w.
       if hd temp = []
       then bind_outcome (joink nk p w)
              (\<lambda>_ w1. cont_kernels nk cl p ks (add_front (p_dst P) temp) w1)
       else bind_outcome (clone_kernel cl (p_dst P) w)
              (\<lambda>c w1. bind_outcome (joink nk p (update_pair p (\<lambda>P. P\<lparr>p_src := k, p_dst := c\<rparr>) w1))
                 (\<lambda>_ w2. cont_kernels nk cl p ks (add_back c temp) w2))) w"

fun inline_cont ::
  "'k \<Rightarrow> ('k, 't) cloner \<Rightarrow> nat \<Rightarrow> nat list list \<Rightarrow> nat list list \<Rightarrow> ('k, 't) topology \<Rightarrow>
   (nat list list, ('k, 't) topology) outcome" where
  "inline_cont nk cl p [] temp w = Returned temp w"
| "inline_cont nk cl p (grp # groups) temp w =
     bind_outcome (cont_kernels nk cl p grp (temp @ [[]]) w)
       (\<lambda>temp1 w1. inline_cont nk cl p groups temp1 w1)"

section \<open>inline_split\<close>

text \<open>
  The two loops over the output ports of a kernel: with reuse the first port gets the
  destination itself, all others a clone of the destination before.
\<close>

fun split_ports ::
  "'k \<Rightarrow> ('k, 't) cloner \<Rightarrow> nat \<Rightarrow> nat \<Rightarrow> bool \<Rightarrow> 'k list \<Rightarrow> nat list list \<Rightarrow> ('k, 't) topology \<Rightarrow>
   (nat list list, ('k, 't) topology) outcome" where
  "split_ports nk cl p k reuse [] temp w = Returned temp w"
| "split_ports nk cl p k reuse (n # ns) temp w =
     (let w1 = update_pair p (\<lambda>P. P\<lparr>p_src := k, src_name := n, has_src_name := True\<rparr>) w
      in with_pair p (\<lambda>P w1.
           if reuse
           then bind_outcome (joink nk p w1)
                  (\<lambda>_ w2. split_ports nk cl p k False ns (add_back (p_dst P) temp) w2)
           else bind_outcome (clone_kernel cl (p_dst P) w1)
                  (\<lambda>c w2. bind_outcome (joink nk p (update_pair p (\<lambda>P. P\<lparr>p_dst := c\<rparr>) w2))
                     (\<lambda>_ w3. split_ports nk cl p k False ns (add_back c temp) w3))) w1)"

fun split_kernels ::
  "'k \<Rightarrow> ('k, 't) cloner \<Rightarrow> nat \<Rightarrow> nat list \<Rightarrow> nat list list \<Rightarrow> ('k, 't) topology \<Rightarrow>
   (nat list list, ('k, 't) topology) outcome" where
  "split_kernels nk cl p [] temp w = Returned temp w"
| "split_kernels nk cl p (k # ks) temp w =
     (case heap (graph w) k of
        None \<Rightarrow> Fault UseAfterFree
      | Some K \<Rightarrow>
          bind_outcome
            (split_ports nk cl p k (hd (temp @ [[]]) = []) (map fst (portmap (kout K))) (temp @ [[]]) w)
            (\<lambda>temp1 w1. split_kernels nk cl p ks temp1 w1))"

fun split_groups ::
  "'k \<Rightarrow> ('k, 't) cloner \<Rightarrow> nat \<Rightarrow> nat list list \<Rightarrow> nat list list \<Rightarrow> ('k, 't) topology \<Rightarrow>
   (nat list list, ('k, 't) topology) outcome" where
  "split_groups nk cl p [] temp w = Returned temp w"
| "split_groups nk cl p (grp # groups) temp w =
     bind_outcome (split_kernels nk cl p grp temp w)
       (\<lambda>temp1 w1. split_groups nk cl p groups temp1 w1)"

definition inline_split ::
  "'k \<Rightarrow> ('k, 't) cloner \<Rightarrow> nat list \<Rightarrow> nat list list \<Rightarrow> nat list list \<Rightarrow> nat \<Rightarrow> ('k, 't) topology \<Rightarrow>
   (nat list \<times> nat list list, ('k, 't) topology) outcome" where
  "inline_split nk cl split_stack groups temp p w =
     with_pair p (\<lambda>P w.
       bind_outcome (split_groups nk cl p groups temp w)
         (\<lambda>temp1 w1. Returned (src_out_count P # split_stack, temp1) w1)) w"

section \<open>inline_join\<close>

text \<open>One kernel of the group per input port; the group's iterator is not checked.\<close>

fun joinfunc ::
  "'k \<Rightarrow> nat \<Rightarrow> 'k list \<Rightarrow> nat list \<Rightarrow> ('k, 't) topology \<Rightarrow> (unit, ('k, 't) topology) outcome" where
  "joinfunc nk p [] grp w = Returned () w"
| "joinfunc nk p (n # ns) [] w = Fault OutOfRange"
| "joinfunc nk p (n # ns) (k # grp) w =
     bind_outcome
       (joink nk p (update_pair p (\<lambda>P. P\<lparr>p_src := k, dst_name := n, has_dst_name := True\<rparr>) w))
       (\<lambda>_ w1. joinfunc nk p ns grp w1)"

definition input_names :: "nat \<Rightarrow> ('k, 't) topology \<Rightarrow> 'k list" where
  "input_names a w =
     (case heap (graph w) a of None \<Rightarrow> [] | Some k \<Rightarrow> map fst (portmap (kin k)))"

fun join_groups ::
  "'k \<Rightarrow> ('k, 't) cloner \<Rightarrow> nat \<Rightarrow> nat \<Rightarrow> nat list list \<Rightarrow> u64 \<Rightarrow> nat list list \<Rightarrow> ('k, 't) topology \<Rightarrow>
   (nat list list, ('k, 't) topology) outcome" where
  "join_groups nk cl edges p [] cnt temp w = Returned temp w"
| "join_groups nk cl edges p (grp # groups) cnt temp w =
     (let temp1 = (if cnt \<le> 0 then temp @ [[]] else temp);
          cnt1 = (if cnt \<le> 0 then of_nat edges else cnt)
      in with_pair p (\<lambda>P w.
           if hd temp1 = []
           then bind_outcome (joinfunc nk p (input_names (p_dst P) w) grp w)
                  (\<lambda>_ w1. join_groups nk cl edges p groups (cnt1 - 1) (add_back (p_dst P) temp1) w1)
           else bind_outcome (clone_kernel cl (p_dst P) w)
                  (\<lambda>c w1. bind_outcome
                     (joinfunc nk p (input_names c w1) grp (update_pair p (\<lambda>P. P\<lparr>p_dst := c\<rparr>) w1))
                     (\<lambda>_ w2. join_groups nk cl edges p groups (cnt1 - 1) (add_back c temp1) w2))) w)"

definition inline_join ::
  "'k \<Rightarrow> ('k, 't) cloner \<Rightarrow> nat list \<Rightarrow> nat list list \<Rightarrow> nat list list \<Rightarrow> nat \<Rightarrow> ('k, 't) topology \<Rightarrow>
   (nat list \<times> nat list list, ('k, 't) topology) outcome" where
  "inline_join nk cl split_stack groups temp p w =
     (case split_stack of
        [] \<Rightarrow> Fault OutOfRange
      | edges # stack \<Rightarrow>
          bind_outcome (join_groups nk cl edges p groups 0 temp w)
            (\<lambda>temp1 w1. Returned (stack, temp1) w1))"

section \<open>inline_dup_join\<close>

text \<open>
  The source of one more input port of the join.  When the pair is not the head of its
  chain the loop from the head clones the head's two kernels and then sets head_next to
  the pair of the join, so its body runs once.
\<close>

definition dup_source ::
  "'k \<Rightarrow> ('k, 't) cloner \<Rightarrow> nat \<Rightarrow> nat list \<Rightarrow> ('k, 't) topology \<Rightarrow> (nat \<times> nat list, ('k, 't) topology) outcome" where
  "dup_source nk cl p gp w =
     with_pair p (\<lambda>P w.
       if p_head P \<noteq> p
       then with_pair (p_head P) (\<lambda>H w.
              bind_outcome (clone_kernel cl (p_src H) w)
                (\<lambda>s w1. bind_outcome (clone_kernel cl (p_dst H) w1)
                   (\<lambda>d w2. bind_outcome
                      (joink nk (p_head P) (update_pair (p_head P) (\<lambda>H. H\<lparr>p_src := s, p_dst := d\<rparr>) w2))
                      (\<lambda>_ w3. Returned (d, gp @ [s]) w3)))) w
       else bind_outcome (clone_kernel cl (p_src P) w) (\<lambda>s w1. Returned (s, gp @ [s]) w1)) w"

fun dup_ports ::
  "'k \<Rightarrow> ('k, 't) cloner \<Rightarrow> nat \<Rightarrow> 'k list \<Rightarrow> nat list \<Rightarrow> ('k, 't) topology \<Rightarrow> (nat list, ('k, 't) topology) outcome" where
  "dup_ports nk cl p [] gp w = Returned gp w"
| "dup_ports nk cl p (n # ns) gp w =
     bind_outcome (dup_source nk cl p gp w)
       (\<lambda>(s, gp1) w1. bind_outcome
          (joink nk p (update_pair p (\<lambda>P. P\<lparr>p_src := s, dst_name := n, has_dst_name := True\<rparr>) w1))
          (\<lambda>_ w2. dup_ports nk cl p ns gp1 w2))"

definition inline_dup_join ::
  "'k \<Rightarrow> ('k, 't) cloner \<Rightarrow> nat list list \<Rightarrow> nat list list \<Rightarrow> nat \<Rightarrow> ('k, 't) topology \<Rightarrow>
   (nat list list \<times> nat list list, ('k, 't) topology) outcome" where
  "inline_dup_join nk cl groups temp p w =
     (if length groups \<noteq> 1 \<or> length (hd groups) \<noteq> 1 then Fault AssertionFailed
      else with_pair p (\<lambda>P w.
        (let temp1 = temp @ [[]];
             names = input_names (p_dst P) w;
             finish = (\<lambda>gp temp w. if length gp = length names then Returned ([gp], temp) w
                                   else Fault AssertionFailed)
         in case names of
              [] \<Rightarrow> finish (hd groups) temp1 w
            | n # ns \<Rightarrow>
                bind_outcome
                  (joink nk p (update_pair p (\<lambda>P. P\<lparr>dst_name := n, has_dst_name := True\<rparr>) w))
                  (\<lambda>_ w1. bind_outcome (dup_ports nk cl p ns (hd groups) w1)
                     (\<lambda>gp w2. finish gp (add_back (p_dst P) temp1) w2)))) w)"

section \<open>operator +=\<close>

datatype sj_t = Split | Join | Cont

definition next_link_type :: "'k kpair \<Rightarrow> exn + sj_t" where
  "next_link_type k =
     (if split_to k \<and> \<not> join_from k then Inr Split
      else if \<not> split_to k \<and> join_from k then Inr Join
      else if \<not> split_to k \<and> \<not> join_from k then Inr Cont
      else Inl InvalidTopologyOperation)"

record add_state =
  stack :: "sj_t list"
  groups :: "nat list list"
  split_out_edges :: "nat list"
  ret_pair :: kernel_pair_t
  initialized :: bool
  kpair_store :: "nat list"

text \<open>One pass of the loop over the chain, up to the move to the next pair.\<close>

definition add_step ::
  "'k \<Rightarrow> ('k, 't) cloner \<Rightarrow> nat \<Rightarrow> sj_t \<Rightarrow> add_state \<Rightarrow> ('k, 't) topology \<Rightarrow>
   (add_state \<times> nat list list, ('k, 't) topology) outcome" where
  "add_step nk cl p t s w =
     (case t of
        Cont \<Rightarrow>
          bind_outcome (inline_cont nk cl p (groups s) [] w) (\<lambda>temp w1. Returned (s, temp) w1)
      | Split \<Rightarrow>
          bind_outcome (inline_split nk cl (split_out_edges s) (groups s) [] p w)
            (\<lambda>(ss, temp) w1. Returned (s\<lparr>stack := Split # stack s, split_out_edges := ss\<rparr>, temp) w1)
      | Join \<Rightarrow>
          (case stack s of
             [] \<Rightarrow>
               bind_outcome (inline_dup_join nk cl (groups s) [] p w)
                 (\<lambda>(gs, temp) w1. Returned
                    (s\<lparr>groups := gs, ret_pair := clearSrc (ret_pair s), initialized := False\<rparr>, temp) w1)
           | Split # rest \<Rightarrow>
               bind_outcome (inline_join nk cl (split_out_edges s) (groups s) [] p w)
                 (\<lambda>(ss, temp) w1. Returned (s\<lparr>stack := rest, split_out_edges := ss\<rparr>, temp) w1)
           | _ \<Rightarrow> Fault AssertionFailed))"

definition note_sources :: "add_state \<Rightarrow> add_state" where
  "note_sources s =
     (if initialized s then s
      else s\<lparr>ret_pair := fold addSrc (concat (groups s)) (ret_pair s), initialized := True\<rparr>)"

fun delete_pairs :: "nat list \<Rightarrow> ('k, 't) topology \<Rightarrow> ('k, 't) topology" where
  "delete_pairs [] w = w"
| "delete_pairs (p # ps) w = delete_pairs ps (w\<lparr>pairs := (pairs w)(p := None)\<rparr>)"

text \<open>The loop takes a bound on its passes; a chain without cycles ends before it.\<close>

fun add_loop ::
  "'k \<Rightarrow> ('k, 't) cloner \<Rightarrow> nat \<Rightarrow> nat option \<Rightarrow> add_state \<Rightarrow> ('k, 't) topology \<Rightarrow>
   (kernel_pair_t, ('k, 't) topology) outcome" where
  "add_loop nk cl fuel None s w =
     Returned (fold addDst (concat (groups s)) (ret_pair s)) (delete_pairs (kpair_store s) w)"
| "add_loop nk cl 0 (Some p) s w = Spin w"
| "add_loop nk cl (Suc fuel) (Some p) s w =
     with_pair p (\<lambda>P w.
       case next_link_type P of
         Inl e \<Rightarrow> Raised e w
       | Inr t \<Rightarrow>
           bind_outcome (add_step nk cl p t s w)
             (\<lambda>(s1, temp) w1. with_pair p (\<lambda>P1 w1.
                add_loop nk cl fuel (p_next P1)
                  ((note_sources s1)\<lparr>groups := temp, kpair_store := kpair_store s1 @ [p]\<rparr>) w1) w1)) w"

definition add_start :: "nat \<Rightarrow> add_state" where
  "add_start src =
     \<lparr>stack = [], groups = [[src]], split_out_edges = [], ret_pair = kernel_pair_new,
      initialized = False, kpair_store = []\<rparr>"

definition map_add :: "'k \<Rightarrow> ('k, 't) cloner \<Rightarrow> nat \<Rightarrow> ('k, 't) topology \<Rightarrow> (kernel_pair_t, ('k, 't) topology) outcome" where
  "map_add nk cl p w =
     with_pair p (\<lambda>P w. with_pair (p_head P) (\<lambda>H w.
       add_loop nk cl (next_pair w) (Some (p_head P)) (add_start (p_src H)) w) w) w"

end
