(* ===== verification/Map_Ops_Props.thy ===== *)
theory Map_Ops_Props
  imports Map_Ops
begin

text \<open>
  What operator += keeps: whatever the chain of kpair objects is and however the walk
  ends, the graph stays well formed and no kernel that was there goes away.
\<close>

section \<open>A calculus for topologies\<close>

definition topo_ok :: "('k :: linorder, 't) topology \<Rightarrow> bool" where
  "topo_ok w \<longleftrightarrow> map_ok (graph w) \<and> dom (heap (graph w)) \<subseteq> {..<next_addr (graph w)}
     \<and> (\<forall>p P. pairs w p = Some P \<longrightarrow>
          p_src P \<in> dom (heap (graph w)) \<and> p_dst P \<in> dom (heap (graph w)))"

definition grows :: "('k :: linorder, 't) topology \<Rightarrow> ('k, 't) topology \<Rightarrow> bool" where
  "grows w w' \<longleftrightarrow> topo_ok w' \<and> dom (heap (graph w)) \<subseteq> dom (heap (graph w'))"

text \<open>m keeps the topology and, if it returns, establishes Q.\<close>

definition keeps ::
  "('k :: linorder, 't) topology \<Rightarrow> ('r, ('k, 't) topology) outcome \<Rightarrow> ('r \<Rightarrow> ('k, 't) topology \<Rightarrow> bool) \<Rightarrow> bool" where
  "keeps w m Q \<longleftrightarrow>
     (case m of
        Returned r w' \<Rightarrow> grows w w' \<and> Q r w'
      | Spin w' \<Rightarrow> grows w w'
      | Raised e w' \<Rightarrow> grows w w'
      | Fault f \<Rightarrow> True)"

lemma grows_refl: "topo_ok w \<Longrightarrow> grows w w"
  by (simp add: grows_def)

lemma grows_trans: "grows w w1 \<Longrightarrow> grows w1 w2 \<Longrightarrow> grows w w2"
  by (auto simp: grows_def)

lemma grows_topo: "grows w w' \<Longrightarrow> topo_ok w'"
  by (simp add: grows_def)

lemma grows_dom: "grows w w' \<Longrightarrow> a \<in> dom (heap (graph w)) \<Longrightarrow> a \<in> dom (heap (graph w'))"
  by (auto simp: grows_def)

lemma keeps_states: "keeps w m Q \<Longrightarrow> w' \<in> outcome_states m \<Longrightarrow> grows w w'"
  by (cases m) (auto simp: keeps_def)

lemma keeps_Returned [simp]: "keeps w (Returned r w') Q \<longleftrightarrow> grows w w' \<and> Q r w'"
  and keeps_Spin [simp]: "keeps w (Spin w') Q \<longleftrightarrow> grows w w'"
  and keeps_Raised [simp]: "keeps w (Raised e w') Q \<longleftrightarrow> grows w w'"
  and keeps_Fault [simp]: "keeps w (Fault f) Q"
  by (simp_all add: keeps_def)

lemma keeps_grows: "grows w w1 \<Longrightarrow> keeps w1 m Q \<Longrightarrow> keeps w m Q"
  by (cases m) (auto intro: grows_trans)

lemma keeps_bind:
  assumes "keeps w m Q" and "\<And>r w'. grows w w' \<Longrightarrow> Q r w' \<Longrightarrow> keeps w' (k r w') R"
  shows "keeps w (bind_outcome m k) R"
  using assms by (cases m) (auto intro: keeps_grows)

lemma keeps_bind_pair:
  assumes "keeps w m (\<lambda>(a, b) w'. Q a b w')"
    and "\<And>a b w'. grows w w' \<Longrightarrow> Q a b w' \<Longrightarrow> keeps w' (k a b w') R"
  shows "keeps w (bind_outcome m (\<lambda>(a, b) w'. k a b w')) R"
  using assms by (cases m) (auto intro: keeps_grows)

lemma keeps_with_pair:
  assumes "topo_ok w"
    and "\<And>P. pairs w p = Some P \<Longrightarrow> p_src P \<in> dom (heap (graph w)) \<Longrightarrow> p_dst P \<in> dom (heap (graph w))
      \<Longrightarrow> keeps w (f P w) Q"
  shows "keeps w (with_pair p f w) Q"
  using assms by (auto simp: with_pair_def topo_ok_def split: option.splits)

lemma keeps_weaken: "keeps w m Q \<Longrightarrow> (\<And>r w'. grows w w' \<Longrightarrow> Q r w' \<Longrightarrow> R r w') \<Longrightarrow> keeps w m R"
  by (cases m) auto

lemma grows_update_pair:
  assumes "topo_ok w"
    and "\<And>P. pairs w p = Some P \<Longrightarrow> p_src P \<in> dom (heap (graph w)) \<Longrightarrow> p_dst P \<in> dom (heap (graph w))
      \<Longrightarrow> p_src (f P) \<in> dom (heap (graph w)) \<and> p_dst (f P) \<in> dom (heap (graph w))"
  shows "grows w (update_pair p f w)"
proof -
  have g: "graph (update_pair p f w) = graph w"
    by (simp add: update_pair_def split: option.splits)
  have "p_src Q \<in> dom (heap (graph w)) \<and> p_dst Q \<in> dom (heap (graph w))"
    if "pairs (update_pair p f w) q = Some Q" for q Q
    using that assms by (auto simp: update_pair_def topo_ok_def split: option.splits if_splits)
  then show ?thesis using assms(1) by (simp add: grows_def topo_ok_def g)
qed

lemma update_pair_graph [simp]: "graph (update_pair p f w) = graph w"
  by (simp add: update_pair_def split: option.splits)

section \<open>The steps\<close>

text \<open>The contract of clone: the copy's ports are named and not linked.\<close>

definition cloner_ok :: "('k :: linorder, 't) cloner \<Rightarrow> bool" where
  "cloner_ok cl \<longleftrightarrow>
     (\<forall>c k k'. cl c k = Inr k' \<longrightarrow> unlinked_port (kin k') \<and> unlinked_port (kout k'))"

lemma keeps_joink:
  fixes w :: "('k :: linorder, 't) topology"
  assumes "topo_ok w"
  shows "keeps w (joink nk p w) (\<lambda>r w'. pairs w' = pairs w)"
  unfolding joink_def
proof (rule keeps_with_pair [OF assms])
  fix P :: "'k kpair" assume P: "p_src P \<in> dom (heap (graph w))" "p_dst P \<in> dom (heap (graph w))"
  let ?l = "link nk (p_out_of_order P) (p_src P) (src_name P) (p_dst P) (dst_name P) (buffer_size P) (graph w)"
  obtain ka kb where k: "heap (graph w) (p_src P) = Some ka" "heap (graph w) (p_dst P) = Some kb"
    using P by auto
  obtain g' where g': "map_ok g'" "dom (heap g') = dom (heap (graph w))" "next_addr g' = next_addr (graph w)"
      "?l = Returned (kernel_pair_of (p_src P) (p_dst P)) g' \<or> (\<exists>e. ?l = Raised e g')"
    using link_step [OF _ k, where nk = nk and ooo = "p_out_of_order P" and na = "src_name P"
        and nb = "dst_name P" and s = "buffer_size P"] assms unfolding topo_ok_def by blast
  then have "grows w (w\<lparr>graph := g'\<rparr>)" using assms by (simp add: grows_def topo_ok_def)
  then show "keeps w (lift_graph
       (if p_out_of_order P
        then link nk True (p_src P) (src_name P) (p_dst P) (dst_name P) (buffer_size P) (graph w)
        else link nk False (p_src P) (src_name P) (p_dst P) (dst_name P) (buffer_size P) (graph w)) w)
     (\<lambda>r w'. pairs w' = pairs w)"
    using g'(4) by (cases "p_out_of_order P") auto
qed

lemma map_ok_new_kernel:
  assumes ok: "map_ok g" and fresh: "heap g c = None"
    and ports: "unlinked_port (kin k)" "unlinked_port (kout k)"
  shows "map_ok (g\<lparr>heap := (heap g)(c \<mapsto> k), next_addr := n\<rparr>)" (is "map_ok ?g'")
proof -
  have new: "my_name pi = m \<and> other_kernel pi = None" if "get_info (c, d, m) ?g' = Some pi" for d m pi
    using that ports smap_find_Some_in [of "portmap (ports_of d k)" m pi]
    by (cases d) (auto simp: get_info.simps unlinked_port_def)
  have old: "get_info (a, d, m) ?g' = get_info (a, d, m) g" if "a \<noteq> c" for a d m
    using that by (simp add: get_info.simps)
  have gone: "get_info (c, d, m) g = None" for d m using fresh by (simp add: get_info.simps)
  have "heap_sorted ?g'"
    using ok ports by (auto simp: map_ok_def heap_sorted_def unlinked_port_def)
  moreover have "named ?g'"
    unfolding named_def
  proof (intro allI impI)
    fix a d m pi assume "get_info (a, d, m) ?g' = Some pi"
    then show "my_name pi = m"
      using new old ok by (cases "a = c") (auto simp: map_ok_def named_def)
  qed
  moreover have "peer_ok r pi ?g'" if r: "get_info r ?g' = Some pi" for r pi
  proof -
    obtain a d m where adm: "r = (a, d, m)" by (cases r)
    show ?thesis
    proof (cases "a = c")
      case True
      then show ?thesis using new r by (simp add: adm peer_ok_def)
    next
      case False
      then have "peer_ok r pi g"
        using r ok old unfolding adm map_ok_def wired_def by metis
      moreover have "b \<noteq> c" if "get_info (b, d', m') g = Some pj" for b d' m' pj
        using that gone by auto
      ultimately show ?thesis unfolding adm peer_ok_def prod.case
        by (auto simp: old)
    qed
  qed
  ultimately show ?thesis using ok unfolding map_ok_def wired_def by auto
qed

lemma keeps_clone:
  assumes "topo_ok w" and "cloner_ok cl"
  shows "keeps w (clone_kernel cl a w) (\<lambda>c w'. c \<in> dom (heap (graph w')) \<and> pairs w' = pairs w)"
proof (cases "heap (graph w) a")
  case None
  then show ?thesis by (simp add: clone_kernel_def)
next
  case (Some k)
  let ?c = "next_addr (graph w)"
  show ?thesis
  proof (cases "cl ?c k")
    case (Inl e)
    then show ?thesis using Some assms(1) by (simp add: clone_kernel_def grows_refl)
  next
    case (Inr k')
    let ?w' = "w\<lparr>graph := (graph w)\<lparr>heap := (heap (graph w))(?c \<mapsto> k'\<lparr>internal_alloc := True\<rparr>),
                                    next_addr := ?c + 1\<rparr>\<rparr>"
    have "heap (graph w) ?c = None" using assms(1) by (auto simp: topo_ok_def)
    moreover have "unlinked_port (kin k')" "unlinked_port (kout k')"
      using Inr assms(2) by (auto simp: cloner_ok_def)
    ultimately have "map_ok (graph ?w')"
      using assms(1) by (simp add: map_ok_new_kernel topo_ok_def)
    then have "grows w ?w'" using assms(1) by (force simp: grows_def topo_ok_def)
    then show ?thesis using Some Inr by (simp add: clone_kernel_def Let_def)
  qed
qed

section \<open>The walk\<close>

text \<open>All kernels of the groups exist.\<close>

definition live :: "nat list list \<Rightarrow> ('k, 't) topology \<Rightarrow> bool" where
  "live gs w \<longleftrightarrow> \<Union> (set ` set gs) \<subseteq> dom (heap (graph w))"

lemma live_grows: "live gs w \<Longrightarrow> grows w w' \<Longrightarrow> live gs w'"
  by (auto simp: live_def grows_def)

lemma live_new_group: "live temp w \<Longrightarrow> live (temp @ [[]]) w"
  by (auto simp: live_def)

lemma live_Cons: "live (g # gs) w \<longleftrightarrow> set g \<subseteq> dom (heap (graph w)) \<and> live gs w"
  by (auto simp: live_def)

lemma live_append: "live (gs @ hs) w \<longleftrightarrow> live gs w \<and> live hs w"
  by (auto simp: live_def)

lemma live_add_back:
  assumes "live temp w" and "temp \<noteq> []" and "k \<in> dom (heap (graph w))"
  shows "live (add_back k temp) w \<and> add_back k temp \<noteq> []"
proof -
  have "live (butlast temp @ [last temp]) w" using assms by simp
  then show ?thesis using assms(3) by (auto simp: add_back_def live_append live_Cons live_def)
qed

lemma live_add_front:
  assumes "live temp w" and "temp \<noteq> []" and "k \<in> dom (heap (graph w))"
  shows "live (add_front k temp) w \<and> add_front k temp \<noteq> []"
  using assms by (cases temp) (auto simp: add_front_def live_Cons)

lemma keeps_joink_live:
  assumes "topo_ok w" and "live temp w"
  shows "keeps w (joink nk p w) (\<lambda>r w'. live temp w')"
  using keeps_joink [OF assms(1)] by (rule keeps_weaken) (rule live_grows [OF assms(2)])

text \<open>The three calls of the walk, each followed by the rest of it.\<close>

lemma keeps_joink_bind:
  assumes "topo_ok w" and "\<And>r w'. grows w w' \<Longrightarrow> keeps w' (k r w') R"
  shows "keeps w (bind_outcome (joink nk p w) k) R"
  by (rule keeps_bind [OF keeps_joink [OF assms(1)]]) (rule assms(2))

lemma keeps_update_joink_bind:
  assumes "topo_ok w"
    and "\<And>P. p_src P \<in> dom (heap (graph w)) \<Longrightarrow> p_dst P \<in> dom (heap (graph w))
      \<Longrightarrow> p_src (f P) \<in> dom (heap (graph w)) \<and> p_dst (f P) \<in> dom (heap (graph w))"
    and "\<And>r w'. grows w w' \<Longrightarrow> keeps w' (k r w') R"
  shows "keeps w (bind_outcome (joink nk p (update_pair p f w)) k) R"
proof -
  have g: "grows w (update_pair p f w)" by (rule grows_update_pair [OF assms(1)]) (rule assms(2))
  show ?thesis
    by (rule keeps_grows [OF g keeps_joink_bind [OF grows_topo [OF g]]]) (rule assms(3) [OF grows_trans [OF g]])
qed

lemma keeps_clone_bind:
  assumes "cloner_ok cl" and "topo_ok w"
    and "\<And>c w'. grows w w' \<Longrightarrow> c \<in> dom (heap (graph w')) \<Longrightarrow> pairs w' = pairs w \<Longrightarrow> keeps w' (k c w') R"
  shows "keeps w (bind_outcome (clone_kernel cl a w) k) R"
  by (rule keeps_bind [OF keeps_clone [OF assms(2,1)]]) (use assms(3) in blast)

lemma keeps_if: "(b \<Longrightarrow> keeps w m Q) \<Longrightarrow> (\<not> b \<Longrightarrow> keeps w n Q) \<Longrightarrow> keeps w (if b then m else n) Q"
  by simp

lemma cont_kernels_keeps:
  fixes w :: "('k :: linorder, 't) topology"
  assumes "cloner_ok cl" and "topo_ok w" and "live temp w" and "temp \<noteq> []"
    and "set ks \<subseteq> dom (heap (graph w))"
  shows "keeps w (cont_kernels nk cl p ks temp w) (\<lambda>temp' w'. live temp' w')"
  using assms(2-)
proof (induction ks arbitrary: temp w)
  case (Cons k ks)
  have rest: "keeps w1 (cont_kernels nk cl p ks temp1 w1) (\<lambda>temp' w'. live temp' w')"
    if "grows w w1" "live temp1 w1 \<and> temp1 \<noteq> []" for temp1 w1
    using Cons.IH [of w1 temp1] that Cons.prems(4) by (auto simp: grows_def)
  have app: "live (add_back c temp) w1 \<and> add_back c temp \<noteq> []"
    "live (add_front c temp) w1 \<and> add_front c temp \<noteq> []"
    if "grows w w1" "c \<in> dom (heap (graph w1))" for c and w1 :: "('k, 't) topology"
    using live_add_back live_add_front live_grows [OF Cons.prems(2) that(1)] Cons.prems(3) that(2) by blast+
  show ?case unfolding cont_kernels.simps
  proof (intro keeps_with_pair [OF Cons.prems(1)] keeps_if)
    fix P :: "'k kpair"
    assume P: "p_dst P \<in> dom (heap (graph w))"
    show "keeps w (bind_outcome (joink nk p w)
              (\<lambda>_ w1. cont_kernels nk cl p ks (add_front (p_dst P) temp) w1)) (\<lambda>temp' w'. live temp' w')"
      by (rule keeps_joink_bind [OF Cons.prems(1)]) (rule rest, assumption, rule app(2), assumption, rule grows_dom [OF _ P])
  next
    fix P :: "'k kpair"
    show "keeps w (bind_outcome (clone_kernel cl (p_dst P) w)
              (\<lambda>c w1. bind_outcome (joink nk p (update_pair p (\<lambda>P. P\<lparr>p_src := k, p_dst := c\<rparr>) w1))
                 (\<lambda>_ w2. cont_kernels nk cl p ks (add_back c temp) w2))) (\<lambda>temp' w'. live temp' w')"
    proof (rule keeps_clone_bind [OF assms(1) Cons.prems(1)])
      fix c and w1 :: "('k, 't) topology"
      assume g: "grows w w1" and c: "c \<in> dom (heap (graph w1))"
      have k: "k \<in> dom (heap (graph w1))" using Cons.prems(4) grows_dom [OF g] by auto
      show "keeps w1 (bind_outcome (joink nk p (update_pair p (\<lambda>P. P\<lparr>p_src := k, p_dst := c\<rparr>) w1))
                 (\<lambda>_ w2. cont_kernels nk cl p ks (add_back c temp) w2)) (\<lambda>temp' w'. live temp' w')"
      proof (rule keeps_update_joink_bind [OF grows_topo [OF g]])
        fix w2 :: "('k, 't) topology"
        assume g2: "grows w1 w2"
        show "keeps w2 (cont_kernels nk cl p ks (add_back c temp) w2) (\<lambda>temp' w'. live temp' w')"
          by (rule rest [OF grows_trans [OF g g2]]) (rule app(1) [OF grows_trans [OF g g2] grows_dom [OF g2 c]])
      qed (use k c in simp_all)
    qed
  qed
qed (simp add: grows_refl)

lemma inline_cont_keeps:
  fixes w :: "('k :: linorder, 't) topology"
  assumes "cloner_ok cl" and "topo_ok w" and "live temp w" and "live gs w"
  shows "keeps w (inline_cont nk cl p gs temp w) (\<lambda>temp' w'. live temp' w')"
  using assms(2-)
proof (induction gs arbitrary: temp w)
  case (Cons g gs)
  show ?case unfolding inline_cont.simps
  proof (rule keeps_bind [OF cont_kernels_keeps [OF assms(1) Cons.prems(1) live_new_group [OF Cons.prems(2)]]])
    fix temp1 and w1 :: "('k, 't) topology"
    assume "grows w w1" "live temp1 w1"
    then show "keeps w1 (inline_cont nk cl p gs temp1 w1) (\<lambda>temp' w'. live temp' w')"
      using Cons.IH [of w1 temp1] Cons.prems(3) live_grows by (auto simp: live_Cons grows_def)
  qed (use Cons.prems(3) in \<open>auto simp: live_Cons\<close>)
qed (simp add: grows_refl)

lemma split_ports_keeps:
  fixes w :: "('k :: linorder, 't) topology"
  assumes "cloner_ok cl" and "topo_ok w" and "live temp w" and "temp \<noteq> []"
    and "k \<in> dom (heap (graph w))"
  shows "keeps w (split_ports nk cl p k reuse ns temp w) (\<lambda>temp' w'. live temp' w')"
  using assms(2-)
proof (induction ns arbitrary: temp w reuse)
  case (Cons n ns)
  let ?f = "\<lambda>P. P\<lparr>p_src := k, src_name := n, has_src_name := True\<rparr>"
  let ?w = "update_pair p ?f w"
  have g0: "grows w ?w" using Cons.prems(1,4) by (intro grows_update_pair) auto
  have rest: "keeps w1 (split_ports nk cl p k False ns (add_back c temp) w1) (\<lambda>temp' w'. live temp' w')"
    if "grows w w1" "c \<in> dom (heap (graph w1))" for c w1
  proof -
    have "live (add_back c temp) w1 \<and> add_back c temp \<noteq> []"
      using live_add_back live_grows [OF Cons.prems(2) that(1)] Cons.prems(3) that(2) by blast
    then show ?thesis using Cons.IH [of w1 "add_back c temp" False] that Cons.prems(4)
      by (auto simp: grows_def)
  qed
  have "keeps ?w (with_pair p (\<lambda>P w1.
           if reuse
           then bind_outcome (joink nk p w1)
                  (\<lambda>_ w2. split_ports nk cl p k False ns (add_back (p_dst P) temp) w2)
           else bind_outcome (clone_kernel cl (p_dst P) w1)
                  (\<lambda>c w2. bind_outcome (joink nk p (update_pair p (\<lambda>P. P\<lparr>p_dst := c\<rparr>) w2))
                     (\<lambda>_ w3. split_ports nk cl p k False ns (add_back c temp) w3))) ?w)
     (\<lambda>temp' w'. live temp' w')"
  proof (intro keeps_with_pair [OF grows_topo [OF g0]] keeps_if)
    fix P :: "'k kpair"
    assume P: "p_dst P \<in> dom (heap (graph ?w))"
    show "keeps ?w (bind_outcome (joink nk p ?w)
             (\<lambda>_ w2. split_ports nk cl p k False ns (add_back (p_dst P) temp) w2)) (\<lambda>temp' w'. live temp' w')"
      by (rule keeps_joink_bind [OF grows_topo [OF g0]])
        (rule rest, rule grows_trans [OF g0], assumption, rule grows_dom [OF _ P])
  next
    fix P :: "'k kpair"
    show "keeps ?w (bind_outcome (clone_kernel cl (p_dst P) ?w)
                  (\<lambda>c w2. bind_outcome (joink nk p (update_pair p (\<lambda>P. P\<lparr>p_dst := c\<rparr>) w2))
                     (\<lambda>_ w3. split_ports nk cl p k False ns (add_back c temp) w3))) (\<lambda>temp' w'. live temp' w')"
    proof (rule keeps_clone_bind [OF assms(1) grows_topo [OF g0]])
      fix c and w2 :: "('k, 't) topology"
      assume g: "grows ?w w2" and c: "c \<in> dom (heap (graph w2))"
      show "keeps w2 (bind_outcome (joink nk p (update_pair p (\<lambda>P. P\<lparr>p_dst := c\<rparr>) w2))
                     (\<lambda>_ w3. split_ports nk cl p k False ns (add_back c temp) w3)) (\<lambda>temp' w'. live temp' w')"
      proof (rule keeps_update_joink_bind [OF grows_topo [OF g]])
        fix w3 :: "('k, 't) topology"
        assume g3: "grows w2 w3"
        show "keeps w3 (split_ports nk cl p k False ns (add_back c temp) w3) (\<lambda>temp' w'. live temp' w')"
          by (rule rest [OF grows_trans [OF g0 grows_trans [OF g g3]] grows_dom [OF g3 c]])
      qed (use c in simp_all)
    qed
  qed
  then show ?case unfolding split_ports.simps Let_def by (rule keeps_grows [OF g0])
qed (simp add: grows_refl)

end
