(* ===== verification/Map_Add.thy ===== *)
theory Map_Add
  imports Map_Ops_Props
begin

text \<open>
  The invariant of operator += over its three helpers and its loop, and the theorem that
  the walk over any chain of kpair objects keeps the graph well formed.
\<close>

section \<open>Splits and joins\<close>

lemma dom_grows: "grows w w' \<Longrightarrow> A \<subseteq> dom (heap (graph w)) \<Longrightarrow> A \<subseteq> dom (heap (graph w'))"
  unfolding grows_def by blast

lemma split_kernels_keeps:
  fixes w :: "('k :: linorder, 't) topology"
  assumes "cloner_ok cl" and "topo_ok w" and "live temp w" and "set ks \<subseteq> dom (heap (graph w))"
  shows "keeps w (split_kernels nk cl p ks temp w) (\<lambda>temp' w'. live temp' w')"
  using assms(2-)
proof (induction ks arbitrary: temp w)
  case (Cons k ks)
  obtain K where K: "heap (graph w) k = Some K" using Cons.prems(3) by auto
  show ?case unfolding split_kernels.simps K option.case
  proof (rule keeps_bind [OF split_ports_keeps [OF assms(1) Cons.prems(1) live_new_group [OF Cons.prems(2)]]])
    fix temp1 and w1 :: "('k, 't) topology"
    assume "grows w w1" "live temp1 w1"
    then show "keeps w1 (split_kernels nk cl p ks temp1 w1) (\<lambda>temp' w'. live temp' w')"
      using Cons.IH [of w1 temp1] Cons.prems(3) by (auto simp: grows_def)
  qed (use K in auto)
qed (simp add: grows_refl)

lemma split_groups_keeps:
  fixes w :: "('k :: linorder, 't) topology"
  assumes "cloner_ok cl" and "topo_ok w" and "live temp w" and "live gs w"
  shows "keeps w (split_groups nk cl p gs temp w) (\<lambda>temp' w'. live temp' w')"
  using assms(2-)
proof (induction gs arbitrary: temp w)
  case (Cons g gs)
  show ?case unfolding split_groups.simps
  proof (rule keeps_bind [OF split_kernels_keeps [OF assms(1) Cons.prems(1,2)]])
    fix temp1 and w1 :: "('k, 't) topology"
    assume "grows w w1" "live temp1 w1"
    then show "keeps w1 (split_groups nk cl p gs temp1 w1) (\<lambda>temp' w'. live temp' w')"
      using Cons.IH [of w1 temp1] Cons.prems(3) live_grows by (auto simp: live_Cons grows_def)
  qed (use Cons.prems(3) in \<open>auto simp: live_Cons\<close>)
qed (simp add: grows_refl)

lemma inline_split_keeps:
  fixes w :: "('k :: linorder, 't) topology"
  assumes "cloner_ok cl" and "topo_ok w" and "live temp w" and "live gs w"
  shows "keeps w (inline_split nk cl ss gs temp p w) (\<lambda>(ss', temp') w'. live temp' w')"
  unfolding inline_split_def
  by (rule keeps_with_pair [OF assms(2)], rule keeps_bind [OF split_groups_keeps [OF assms]])
    (simp add: grows_refl grows_topo)

lemma joinfunc_keeps:
  fixes w :: "('k :: linorder, 't) topology"
  assumes "topo_ok w" and "set g \<subseteq> dom (heap (graph w))"
  shows "keeps w (joinfunc nk p ns g w) (\<lambda>_ _. True)"
  using assms
proof (induction nk p ns g w rule: joinfunc.induct)
  case (3 nk p n ns k g w)
  show ?case unfolding joinfunc.simps
  proof (rule keeps_update_joink_bind [OF 3(2)])
    fix r and w1 :: "('k, 't) topology"
    assume g: "grows w w1"
    show "keeps w1 (joinfunc nk p ns g w1) (\<lambda>_ _. True)"
      by (rule 3(1) [OF grows_topo [OF g] dom_grows [OF g]]) (use 3(3) in simp)
  qed (use 3(3) in auto)
qed (simp_all add: grows_refl)

lemma join_groups_keeps:
  fixes w :: "('k :: linorder, 't) topology"
  assumes "cloner_ok cl" and "topo_ok w" and "live temp w" and "live gs w"
    and "temp \<noteq> [] \<or> cnt = 0"
  shows "keeps w (join_groups nk cl edges p gs cnt temp w) (\<lambda>temp' w'. live temp' w')"
  using assms(2-)
proof (induction gs arbitrary: temp cnt w)
  case (Cons g gs)
  let ?temp = "if cnt \<le> 0 then temp @ [[]] else temp"
  let ?cnt = "if cnt \<le> 0 then of_nat edges else cnt"
  have t: "live ?temp w" "?temp \<noteq> []"
    using Cons.prems(2,4) by (auto simp: live_new_group)
  have gdom: "set g \<subseteq> dom (heap (graph w))" using Cons.prems(3) by (simp add: live_Cons)
  have rest: "keeps w1 (join_groups nk cl edges p gs (?cnt - 1) (add_back c ?temp) w1) (\<lambda>temp' w'. live temp' w')"
    if "grows w w1" "c \<in> dom (heap (graph w1))" for c w1
  proof -
    have "live (add_back c ?temp) w1 \<and> add_back c ?temp \<noteq> []"
      using live_add_back [OF live_grows [OF t(1) that(1)] t(2) that(2)] .
    moreover have "live gs w1"
      using Cons.prems(3) live_grows [OF _ that(1)] by (simp add: live_Cons)
    ultimately show ?thesis
      using Cons.IH [of w1 "add_back c ?temp" "?cnt - 1"] grows_topo [OF that(1)] by blast
  qed
  show ?case unfolding join_groups.simps Let_def
  proof (intro keeps_with_pair [OF Cons.prems(1)] keeps_if)
    fix P :: "'k kpair"
    assume P: "p_dst P \<in> dom (heap (graph w))"
    show "keeps w (bind_outcome (joinfunc nk p (input_names (p_dst P) w) g w)
       (\<lambda>_ w1. join_groups nk cl edges p gs (?cnt - 1) (add_back (p_dst P) ?temp) w1))
       (\<lambda>temp' w'. live temp' w')"
      by (rule keeps_bind [OF joinfunc_keeps [OF Cons.prems(1) gdom]])
        (rule rest, assumption, rule grows_dom [OF _ P])
  next
    fix P :: "'k kpair"
    show "keeps w (bind_outcome (clone_kernel cl (p_dst P) w)
       (\<lambda>c w1. bind_outcome
          (joinfunc nk p (input_names c w1) g (update_pair p (\<lambda>P. P\<lparr>p_dst := c\<rparr>) w1))
          (\<lambda>_ w2. join_groups nk cl edges p gs (?cnt - 1) (add_back c ?temp) w2)))
       (\<lambda>temp' w'. live temp' w')"
    proof (rule keeps_clone_bind [OF assms(1) Cons.prems(1)])
      fix c and w1 :: "('k, 't) topology"
      assume g1: "grows w w1" and c: "c \<in> dom (heap (graph w1))"
      let ?w2 = "update_pair p (\<lambda>P. P\<lparr>p_dst := c\<rparr>) w1"
      have g2: "grows w1 ?w2" using grows_topo [OF g1] c by (intro grows_update_pair) auto
      have "set g \<subseteq> dom (heap (graph ?w2))" using dom_grows [OF g2 dom_grows [OF g1 gdom]] .
      note jf = joinfunc_keeps [OF grows_topo [OF g2] this]
      show "keeps w1 (bind_outcome
          (joinfunc nk p (input_names c w1) g ?w2)
          (\<lambda>_ w2. join_groups nk cl edges p gs (?cnt - 1) (add_back c ?temp) w2))
         (\<lambda>temp' w'. live temp' w')"
      proof (rule keeps_grows [OF g2 keeps_bind [OF jf]])
        fix w3 :: "('k, 't) topology"
        assume g3: "grows ?w2 w3"
        show "keeps w3 (join_groups nk cl edges p gs (?cnt - 1) (add_back c ?temp) w3) (\<lambda>temp' w'. live temp' w')"
          by (rule rest [OF grows_trans [OF g1 grows_trans [OF g2 g3]] grows_dom [OF g3]]) (use c in simp)
      qed
    qed
  qed
qed (simp add: grows_refl)

lemma inline_join_keeps:
  fixes w :: "('k :: linorder, 't) topology"
  assumes "cloner_ok cl" and "topo_ok w" and "live temp w" and "live gs w"
  shows "keeps w (inline_join nk cl ss gs temp p w) (\<lambda>(ss', temp') w'. live temp' w')"
proof (cases ss)
  case Nil
  then show ?thesis by (simp add: inline_join_def)
next
  case (Cons e ss')
  show ?thesis unfolding inline_join_def Cons list.case
    by (rule keeps_bind [OF join_groups_keeps [OF assms]]) (simp_all add: grows_refl grows_topo)
qed

section \<open>Joins that duplicate their source\<close>

lemma dup_source_keeps:
  fixes w :: "('k :: linorder, 't) topology"
  assumes "cloner_ok cl" and "topo_ok w" and "set gp \<subseteq> dom (heap (graph w))"
  shows "keeps w (dup_source nk cl p gp w)
     (\<lambda>(s, gp') w'. s \<in> dom (heap (graph w')) \<and> set gp' \<subseteq> dom (heap (graph w')))"
  unfolding dup_source_def
proof (intro keeps_with_pair [OF assms(2)] keeps_if)
  fix P H :: "'k kpair"
  show "keeps w (bind_outcome (clone_kernel cl (p_src H) w)
                (\<lambda>s w1. bind_outcome (clone_kernel cl (p_dst H) w1)
                   (\<lambda>d w2. bind_outcome
                      (joink nk (p_head P) (update_pair (p_head P) (\<lambda>H. H\<lparr>p_src := s, p_dst := d\<rparr>) w2))
                      (\<lambda>_ w3. Returned (d, gp @ [s]) w3))))
     (\<lambda>(s, gp') w'. s \<in> dom (heap (graph w')) \<and> set gp' \<subseteq> dom (heap (graph w')))"
  proof (rule keeps_clone_bind [OF assms(1,2)])
    fix s and w1 :: "('k, 't) topology"
    assume g1: "grows w w1" and s: "s \<in> dom (heap (graph w1))"
    show "keeps w1 (bind_outcome (clone_kernel cl (p_dst H) w1)
                   (\<lambda>d w2. bind_outcome
                      (joink nk (p_head P) (update_pair (p_head P) (\<lambda>H. H\<lparr>p_src := s, p_dst := d\<rparr>) w2))
                      (\<lambda>_ w3. Returned (d, gp @ [s]) w3)))
     (\<lambda>(s, gp') w'. s \<in> dom (heap (graph w')) \<and> set gp' \<subseteq> dom (heap (graph w')))"
    proof (rule keeps_clone_bind [OF assms(1) grows_topo [OF g1]])
      fix d and w2 :: "('k, 't) topology"
      assume g2: "grows w1 w2" and d: "d \<in> dom (heap (graph w2))"
      have s2: "s \<in> dom (heap (graph w2))" using grows_dom [OF g2 s] .
      show "keeps w2 (bind_outcome
                      (joink nk (p_head P) (update_pair (p_head P) (\<lambda>H. H\<lparr>p_src := s, p_dst := d\<rparr>) w2))
                      (\<lambda>_ w3. Returned (d, gp @ [s]) w3))
         (\<lambda>(s, gp') w'. s \<in> dom (heap (graph w')) \<and> set gp' \<subseteq> dom (heap (graph w')))"
      proof (rule keeps_update_joink_bind [OF grows_topo [OF g2]])
        fix w3 :: "('k, 't) topology"
        assume g3: "grows w2 w3"
        have "set gp \<subseteq> dom (heap (graph w3))"
          using dom_grows [OF g3 dom_grows [OF g2 dom_grows [OF g1 assms(3)]]] .
        then show "keeps w3 (Returned (d, gp @ [s]) w3)
         (\<lambda>(s, gp') w'. s \<in> dom (heap (graph w')) \<and> set gp' \<subseteq> dom (heap (graph w')))"
          using grows_dom [OF g3 s2] grows_dom [OF g3 d] g3 by (simp add: grows_refl grows_topo)
      qed (use s2 d in simp_all)
    qed
  qed
next
  fix P :: "'k kpair"
  show "keeps w (bind_outcome (clone_kernel cl (p_src P) w) (\<lambda>s w1. Returned (s, gp @ [s]) w1))
     (\<lambda>(s, gp') w'. s \<in> dom (heap (graph w')) \<and> set gp' \<subseteq> dom (heap (graph w')))"
    by (rule keeps_clone_bind [OF assms(1,2)]) (use assms(3) in \<open>auto simp: grows_refl grows_topo grows_def\<close>)
qed

lemma dup_ports_keeps:
  fixes w :: "('k :: linorder, 't) topology"
  assumes "cloner_ok cl" and "topo_ok w" and "set gp \<subseteq> dom (heap (graph w))"
  shows "keeps w (dup_ports nk cl p ns gp w) (\<lambda>gp' w'. set gp' \<subseteq> dom (heap (graph w')))"
  using assms(2-)
proof (induction ns arbitrary: gp w)
  case (Cons n ns)
  show ?case unfolding dup_ports.simps
  proof (rule keeps_bind_pair [OF dup_source_keeps [OF assms(1) Cons.prems]])
    fix s gp1 and w1 :: "('k, 't) topology"
    assume g: "grows w w1" and r: "s \<in> dom (heap (graph w1)) \<and> set gp1 \<subseteq> dom (heap (graph w1))"
    have s: "s \<in> dom (heap (graph w1))" and gp: "set gp1 \<subseteq> dom (heap (graph w1))" using r by auto
    show "keeps w1 (bind_outcome
          (joink nk p (update_pair p (\<lambda>P. P\<lparr>p_src := s, dst_name := n, has_dst_name := True\<rparr>) w1))
          (\<lambda>_ w2. dup_ports nk cl p ns gp1 w2)) (\<lambda>gp' w'. set gp' \<subseteq> dom (heap (graph w')))"
    proof (rule keeps_update_joink_bind [OF grows_topo [OF g]])
      fix w2 :: "('k, 't) topology"
      assume g2: "grows w1 w2"
      show "keeps w2 (dup_ports nk cl p ns gp1 w2) (\<lambda>gp' w'. set gp' \<subseteq> dom (heap (graph w')))"
        by (rule Cons.IH [OF grows_topo [OF g2] dom_grows [OF g2 gp]])
    qed (use s in simp_all)
  qed
qed (simp add: grows_refl)

lemma inline_dup_join_keeps:
  fixes w :: "('k :: linorder, 't) topology"
  assumes "cloner_ok cl" and "topo_ok w" and "live temp w" and "live gs w"
  shows "keeps w (inline_dup_join nk cl gs temp p w) (\<lambda>(gs', temp') w'. live gs' w' \<and> live temp' w')"
proof (cases "length gs \<noteq> 1 \<or> length (hd gs) \<noteq> 1")
  case True
  then show ?thesis by (simp add: inline_dup_join_def)
next
  case False
  then obtain gp where gs: "gs = [gp]" by (cases gs) auto
  have gp: "set gp \<subseteq> dom (heap (graph w))" using assms(4) by (simp add: gs live_Cons)
  have fin: "keeps w1 (if length gp1 = m then Returned ([gp1], temp1) w1 else Fault AssertionFailed)
     (\<lambda>(gs', temp') w'. live gs' w' \<and> live temp' w')"
    if "grows w w1" "set gp1 \<subseteq> dom (heap (graph w1))" "live temp1 w1" for m gp1 temp1 and w1 :: "('k, 't) topology"
    using that by (simp add: live_Cons live_def grows_refl grows_topo)
  show ?thesis unfolding inline_dup_join_def if_not_P [OF False]
  proof (rule keeps_with_pair [OF assms(2)], unfold Let_def)
    fix P :: "'k kpair"
    assume P: "p_dst P \<in> dom (heap (graph w))"
    let ?names = "input_names (p_dst P) w"
    show "keeps w (case ?names of
              [] \<Rightarrow> if length (hd gs) = length ?names then Returned ([hd gs], temp @ [[]]) w
                   else Fault AssertionFailed
            | n # ns \<Rightarrow>
                bind_outcome
                  (joink nk p (update_pair p (\<lambda>P. P\<lparr>dst_name := n, has_dst_name := True\<rparr>) w))
                  (\<lambda>_ w1. bind_outcome (dup_ports nk cl p ns (hd gs) w1)
                     (\<lambda>gp w2. if length gp = length ?names
                              then Returned ([gp], add_back (p_dst P) (temp @ [[]])) w2
                              else Fault AssertionFailed)))
       (\<lambda>(gs', temp') w'. live gs' w' \<and> live temp' w')"
    proof (cases ?names)
      case Nil
      then show ?thesis
        unfolding Nil list.case
        using fin [OF grows_refl [OF assms(2)] gp live_new_group [OF assms(3)], of "length ([] :: 'k list)"]
        by (simp only: gs list.sel)
    next
      case (Cons n ns)
      show ?thesis unfolding Cons list.case
      proof (rule keeps_update_joink_bind [OF assms(2)])
        fix w1 :: "('k, 't) topology"
        assume g1: "grows w w1"
        have gp1: "set (hd gs) \<subseteq> dom (heap (graph w1))" using dom_grows [OF g1 gp] by (simp add: gs)
        show "keeps w1 (bind_outcome (dup_ports nk cl p ns (hd gs) w1)
                     (\<lambda>gp w2. if length gp = length (n # ns)
                              then Returned ([gp], add_back (p_dst P) (temp @ [[]])) w2
                              else Fault AssertionFailed))
           (\<lambda>(gs', temp') w'. live gs' w' \<and> live temp' w')"
        proof (rule keeps_bind [OF dup_ports_keeps [OF assms(1) grows_topo [OF g1] gp1]])
          fix gp2 and w2 :: "('k, 't) topology"
          assume g2: "grows w1 w2" and gp2: "set gp2 \<subseteq> dom (heap (graph w2))"
          have "live (add_back (p_dst P) (temp @ [[]])) w2"
            using live_add_back [OF live_new_group [OF live_grows [OF assms(3) grows_trans [OF g1 g2]]] _
                grows_dom [OF grows_trans [OF g1 g2] P]] by simp
          then show "keeps w2 (if length gp2 = length (n # ns)
                              then Returned ([gp2], add_back (p_dst P) (temp @ [[]])) w2
                              else Fault AssertionFailed) (\<lambda>(gs', temp') w'. live gs' w' \<and> live temp' w')"
            using gp2 g2 by (simp add: live_Cons live_def grows_refl grows_topo)
        qed
      qed simp_all
    qed
  qed
qed

section \<open>The loop\<close>

lemma add_step_keeps:
  fixes w :: "('k :: linorder, 't) topology"
  assumes "cloner_ok cl" and "topo_ok w" and "live (groups s) w"
  shows "keeps w (add_step nk cl p t s w) (\<lambda>(s', temp') w'. live temp' w')"
proof (cases t)
  case Cont
  have e: "live [] w" by (simp add: live_def)
  show ?thesis unfolding add_step_def Cont sj_t.case
    by (rule keeps_bind [OF inline_cont_keeps [OF assms(1,2) e assms(3)]]) (simp add: grows_refl grows_topo)
next
  case Split
  have e: "live [] w" by (simp add: live_def)
  show ?thesis unfolding add_step_def Split sj_t.case
    by (rule keeps_bind [OF inline_split_keeps [OF assms(1,2) e assms(3)]])
      (auto simp: grows_refl grows_topo)
next
  case Join
  have e: "live [] w" by (simp add: live_def)
  show ?thesis
  proof (cases "stack s")
    case Nil
    show ?thesis unfolding add_step_def Join sj_t.case Nil list.case
      by (rule keeps_bind [OF inline_dup_join_keeps [OF assms(1,2) e assms(3)]])
        (auto simp: grows_refl grows_topo)
  next
    fix x xs assume st: "stack s = x # xs"
    show ?thesis
    proof (cases "x = Split")
      case True
      show ?thesis unfolding add_step_def Join sj_t.case st list.case True
        by (rule keeps_bind [OF inline_join_keeps [OF assms(1,2) e assms(3)]])
          (auto simp: grows_refl grows_topo)
    next
      case False
      then show ?thesis by (cases x) (simp_all add: add_step_def Join st)
    qed
  qed
qed

lemma delete_pairs_grows: "topo_ok w \<Longrightarrow> grows w (delete_pairs ps w)"
proof (induction ps arbitrary: w)
  case (Cons p ps)
  have "topo_ok (w\<lparr>pairs := (pairs w)(p := None)\<rparr>)" using Cons.prems by (auto simp: topo_ok_def)
  from Cons.IH [OF this] show ?case by (simp add: grows_def)
qed (simp add: grows_refl)

lemma add_loop_keeps:
  fixes w :: "('k :: linorder, 't) topology"
  assumes "cloner_ok cl" and "topo_ok w" and "live (groups s) w"
  shows "keeps w (add_loop nk cl fuel po s w) (\<lambda>_ _. True)"
  using assms(2-)
proof (induction fuel arbitrary: po s w)
  case 0
  then show ?case by (cases po) (simp_all add: grows_refl delete_pairs_grows)
next
  case (Suc fuel)
  show ?case
  proof (cases po)
    case None
    then show ?thesis using Suc.prems by (simp add: delete_pairs_grows)
  next
    case (Some p)
    show ?thesis unfolding Some add_loop.simps
    proof (rule keeps_with_pair [OF Suc.prems(1)])
      fix P :: "'k kpair"
      show "keeps w (case next_link_type P of
         Inl e \<Rightarrow> Raised e w
       | Inr t \<Rightarrow>
           bind_outcome (add_step nk cl p t s w)
             (\<lambda>(s1, temp) w1. with_pair p (\<lambda>P1 w1.
                add_loop nk cl fuel (p_next P1)
                  ((note_sources s1)\<lparr>groups := temp, kpair_store := kpair_store s1 @ [p]\<rparr>) w1) w1))
         (\<lambda>_ _. True)"
      proof (cases "next_link_type P")
        case (Inl e)
        then show ?thesis using Suc.prems by (simp add: grows_refl)
      next
        case (Inr t)
        show ?thesis unfolding Inr sum.case
        proof (rule keeps_bind_pair [OF add_step_keeps [OF assms(1) Suc.prems]])
          fix s1 :: add_state and temp and w1 :: "('k, 't) topology"
          assume g: "grows w w1" and r: "live temp w1"
          show "keeps w1 (with_pair p (\<lambda>P1 w1.
                add_loop nk cl fuel (p_next P1)
                  ((note_sources s1)\<lparr>groups := temp, kpair_store := kpair_store s1 @ [p]\<rparr>) w1) w1)
             (\<lambda>_ _. True)"
            by (rule keeps_with_pair [OF grows_topo [OF g]], rule Suc.IH [OF grows_topo [OF g]])
              (use r in simp)
        qed
      qed
    qed
  qed
qed

text \<open>
  C11: Adding an expression to a map never corrupts the graph: whatever chain of >>, <= and >=
  the pair belongs to, however operator += ends (a return, an exception from a link, a clone or
  the topology check, with kernels linked so far), the connections stay symmetric and typed, no
  kernel disappears, and all remaining pairs refer to existing kernels.
\<close>

theorem map_add_keeps_graph:
  fixes w :: "('k :: linorder, 't) topology"
  assumes "cloner_ok cl" and "topo_ok w"
  shows "\<forall>w' \<in> outcome_states (map_add nk cl p w).
     topo_ok w' \<and> map_ok (graph w') \<and> dom (heap (graph w)) \<subseteq> dom (heap (graph w'))"
proof -
  have "keeps w (map_add nk cl p w) (\<lambda>_ _. True)"
    unfolding map_add_def
    by (intro keeps_with_pair [OF assms(2)], rule add_loop_keeps [OF assms])
      (auto simp: live_def add_start_def)
  then show ?thesis using keeps_states by (fastforce simp: grows_def topo_ok_def)
qed

end
