(* ===== verification/Map_Chain.thy ===== *)
theory Map_Chain
  imports Map_Add
begin

text \<open>
  Expressions as the user writes them: a >> b >> c ... adds exactly the links between
  neighbours, in order; and three expressions that lose a kernel.
\<close>

section \<open>Chains of >>\<close>

text \<open>The specification: link each kernel to the next one.\<close>

fun link_chain :: "'k \<Rightarrow> nat list \<Rightarrow> ('k, 't) map_state \<Rightarrow> (unit, ('k, 't) map_state) outcome" where
  "link_chain nk (a # b # ks) g =
     bind_outcome (link nk False a nk b nk 0 g) (\<lambda>_ g'. link_chain nk (b # ks) g')"
| "link_chain nk _ g = Returned () g"

text \<open>The expression: a >> b, then >> with every further kernel, then +=.\<close>

fun shift_more :: "'k \<Rightarrow> nat \<Rightarrow> nat list \<Rightarrow> ('k, 't) topology \<Rightarrow> (nat, ('k, 't) topology) outcome" where
  "shift_more nk p [] w = Returned p w"
| "shift_more nk p (b # bs) w = bind_outcome (shift_pk nk p b w) (\<lambda>q w1. shift_more nk q bs w1)"

definition add_chain ::
  "'k \<Rightarrow> ('k, 't) cloner \<Rightarrow> nat \<Rightarrow> nat \<Rightarrow> nat list \<Rightarrow> ('k, 't) topology \<Rightarrow> (kernel_pair_t, ('k, 't) topology) outcome" where
  "add_chain nk cl a b ks w =
     bind_outcome (shift_kk nk a b w)
       (\<lambda>p w1. bind_outcome (shift_more nk p ks w1) (\<lambda>q w2. map_add nk cl q w2))"

definition plain_pair :: "'k \<Rightarrow> nat \<Rightarrow> nat \<Rightarrow> nat \<Rightarrow> 'k kpair \<Rightarrow> bool" where
  "plain_pair nk h a b P \<longleftrightarrow>
     p_head P = h \<and> p_src P = a \<and> p_dst P = b \<and> src_name P = nk \<and> dst_name P = nk
     \<and> buffer_size P = 0 \<and> \<not> split_to P \<and> \<not> join_from P \<and> \<not> p_out_of_order P"

definition chain_at :: "'k \<Rightarrow> (nat \<Rightarrow> 'k kpair option) \<Rightarrow> nat \<Rightarrow> nat \<Rightarrow> nat list \<Rightarrow> bool" where
  "chain_at nk pm h n ks \<longleftrightarrow>
     (\<forall>i. i + 1 < length ks \<longrightarrow>
        (\<exists>P. pm (n + i) = Some P \<and> plain_pair nk h (ks ! i) (ks ! (i + 1)) P
           \<and> p_next P = (if i + 2 < length ks then Some (n + i + 1) else None)))"

definition unnamed :: "('k, 't) topology \<Rightarrow> nat \<Rightarrow> bool" where
  "unnamed w a \<longleftrightarrow> (\<exists>k. heap (graph w) a = Some k \<and> enabled_port k = [])"

lemma kpair_new_plain:
  assumes "unnamed w a" and "unnamed w b"
  shows "\<exists>P. kpair_new nk a b w =
       Returned (next_pair w) (w\<lparr>pairs := (pairs w)(next_pair w \<mapsto> P), next_pair := next_pair w + 1\<rparr>)
     \<and> plain_pair nk (next_pair w) a b P \<and> p_next P = None"
proof -
  obtain ka kb where k: "heap (graph w) a = Some ka" "enabled_port ka = []"
      "heap (graph w) b = Some kb" "enabled_port kb = []"
    using assms by (auto simp: unnamed_def)
  have "put_kernel x y w = w" if "heap (graph w) x = Some y" for x y
    using that by (simp add: put_kernel_def fun_upd_idem)
  then have "kpair_new nk a b w = Returned (next_pair w)
     (w\<lparr>pairs := (pairs w)(next_pair w \<mapsto>
           \<lparr>p_next = None, p_head = next_pair w, p_src = a, has_src_name = False, src_name = nk,
            p_dst = b, has_dst_name = False, dst_name = nk, buffer_size = 0, split_to = False,
            src_out_count = count_of (kout ka), join_from = False, dst_in_count = count_of (kin kb),
            p_out_of_order = False\<rparr>), next_pair := next_pair w + 1\<rparr>)"
    using k by (simp add: kpair_new_def getEnabledPort_def Let_def)
  then show ?thesis by (intro exI conjI, assumption) (simp_all add: plain_pair_def)
qed

lemma shift_more_chain:
  assumes "chain_at nk (pairs w) n n (a # b # ks0)" and "next_pair w = n + length ks0 + 1"
    and "\<forall>k \<in> set (a # b # ks0 @ ks). unnamed w k"
  shows "\<exists>w'. shift_more nk (n + length ks0) ks w = Returned (n + length (ks0 @ ks)) w'
     \<and> graph w' = graph w \<and> next_pair w' = n + length (ks0 @ ks) + 1
     \<and> chain_at nk (pairs w') n n (a # b # ks0 @ ks)
     \<and> (\<forall>q. q < n \<longrightarrow> pairs w' q = pairs w q)
     \<and> (\<forall>q \<ge> next_pair w'. pairs w' q = pairs w q)"
  using assms
proof (induction ks arbitrary: ks0 w)
  case (Cons c ks)
  let ?l = "a # b # ks0"
  let ?p = "n + length ks0"
  let ?q = "next_pair w"
  have q: "?q = ?p + 1" using Cons.prems(2) by simp
  obtain P where P: "pairs w ?p = Some P" "p_head P = n" "p_dst P = ?l ! (length ks0 + 1)"
      "plain_pair nk n (?l ! length ks0) (?l ! (length ks0 + 1)) P" "p_next P = None"
    using Cons.prems(1) unfolding chain_at_def by (auto simp: plain_pair_def dest: spec [of _ "length ks0"])
  have dst: "p_dst P \<in> set ?l" using P(3) by (metis Suc_eq_plus1 length_Cons lessI nth_mem)
  obtain Q where Q: "kpair_new nk (p_dst P) c w =
       Returned ?q (w\<lparr>pairs := (pairs w)(?q \<mapsto> Q), next_pair := ?q + 1\<rparr>)"
     "plain_pair nk ?q (p_dst P) c Q" "p_next Q = None"
    using kpair_new_plain [of w "p_dst P" c nk] Cons.prems(3) dst by auto
  let ?Q = "Q\<lparr>p_head := n, split_to := False, join_from := False\<rparr>"
  let ?P = "P\<lparr>p_next := Some ?q\<rparr>"
  let ?w1 = "w\<lparr>pairs := (pairs w)(?q \<mapsto> ?Q, ?p \<mapsto> ?P), next_pair := ?q + 1\<rparr>"
  have s: "shift_pk nk ?p c w = Returned ?q ?w1"
    using P(1,2) Q(1) q
    by (simp add: shift_pk_def kpair_after_def update_pair_def set_flags_def fun_upd_twist [of ?p])
  have ch: "chain_at nk (pairs ?w1) n n (a # b # ks0 @ [c])"
    unfolding chain_at_def
  proof (intro allI impI)
    fix i assume i: "i + 1 < length (a # b # ks0 @ [c])"
    consider "i = length ks0 + 1" | "i = length ks0" | "i < length ks0" using i by fastforce
    then show "\<exists>R. pairs ?w1 (n + i) = Some R
        \<and> plain_pair nk n ((a # b # ks0 @ [c]) ! i) ((a # b # ks0 @ [c]) ! (i + 1)) R
        \<and> p_next R = (if i + 2 < length (a # b # ks0 @ [c]) then Some (n + i + 1) else None)"
    proof cases
      case 1
      have "p_dst P = (a # b # ks0 @ [c]) ! i" using P(3) 1 by (simp add: nth_append nth_Cons')
      then show ?thesis using 1 Q q
        by (intro exI [of _ ?Q]) (simp add: plain_pair_def nth_append)
    next
      case 2
      have e: "(a # b # ks0 @ [c]) ! j = ?l ! j" if "j \<le> length ks0 + 1" for j
        using that by (auto simp: nth_append nth_Cons')
      show ?thesis using 2 P q e [of i] e [of "i + 1"]
        by (intro exI [of _ ?P]) (simp add: plain_pair_def)
    next
      case 3
      then obtain R where R: "pairs w (n + i) = Some R" "plain_pair nk n (?l ! i) (?l ! (i + 1)) R"
          "p_next R = Some (n + i + 1)"
        using Cons.prems(1) unfolding chain_at_def by (auto dest!: spec [of _ i])
      have e: "(a # b # ks0 @ [c]) ! j = ?l ! j" if "j \<le> length ks0 + 1" for j
        using that by (auto simp: nth_append nth_Cons')
      show ?thesis using 3 R q e [of i] e [of "i + 1"] by (intro exI [of _ R]) simp
    qed
  qed
  have un: "unnamed ?w1 k \<longleftrightarrow> unnamed w k" for k by (simp add: unnamed_def)
  have "\<exists>w'. shift_more nk (n + length (ks0 @ [c])) ks ?w1 = Returned (n + length ((ks0 @ [c]) @ ks)) w'
     \<and> graph w' = graph ?w1 \<and> next_pair w' = n + length ((ks0 @ [c]) @ ks) + 1
     \<and> chain_at nk (pairs w') n n (a # b # (ks0 @ [c]) @ ks)
     \<and> (\<forall>q. q < n \<longrightarrow> pairs w' q = pairs ?w1 q) \<and> (\<forall>q \<ge> next_pair w'. pairs w' q = pairs ?w1 q)"
  proof (rule Cons.IH)
    show "chain_at nk (pairs ?w1) n n (a # b # ks0 @ [c])" by (rule ch)
    show "next_pair ?w1 = n + length (ks0 @ [c]) + 1" using q by simp
    show "\<forall>k \<in> set (a # b # (ks0 @ [c]) @ ks). unnamed ?w1 k"
      unfolding un using Cons.prems(3) by auto
  qed
  then obtain w' where w': "shift_more nk (n + length (ks0 @ [c])) ks ?w1 = Returned (n + length ((ks0 @ [c]) @ ks)) w'"
      "graph w' = graph ?w1" "next_pair w' = n + length ((ks0 @ [c]) @ ks) + 1"
      "chain_at nk (pairs w') n n (a # b # (ks0 @ [c]) @ ks)"
      "\<forall>q. q < n \<longrightarrow> pairs w' q = pairs ?w1 q" "\<forall>q \<ge> next_pair w'. pairs w' q = pairs ?w1 q"
    by blast
  have "\<forall>q. q < n \<longrightarrow> pairs w' q = pairs w q" using w'(5) q by simp
  moreover have "\<forall>x \<ge> next_pair w'. pairs w' x = pairs w x" using w'(3,6) q by auto
  ultimately show ?case using s q w' by (intro exI [of _ w']) simp
qed simp

text \<open>One pass of the loop over a plain pair with one current kernel is one link.\<close>

lemma add_step_plain:
  assumes "pairs w n = Some P" and "plain_pair nk h a b P" and "groups s = [[a]]"
  shows "add_step nk cl n Cont s w =
     bind_outcome (lift_graph (link nk False a nk b nk 0 (graph w)) w) (\<lambda>_ w1. Returned (s, [[b]]) w1)"
proof -
  have "joink nk n w = lift_graph (link nk False a nk b nk 0 (graph w)) w"
    using assms(1,2) by (simp add: joink_def with_pair_def plain_pair_def)
  then show ?thesis
    using assms by (simp add: add_step_def with_pair_def plain_pair_def add_front_def bind_outcome_assoc)
qed

lemma chain_at_Cons:
  assumes "chain_at nk pm h n (a # b # ks)"
  obtains P where "pm n = Some P" "plain_pair nk h a b P"
    "p_next P = (if ks = [] then None else Some (n + 1))" "chain_at nk pm h (n + 1) (b # ks)"
proof -
  obtain P where P: "pm n = Some P" "plain_pair nk h a b P"
      "p_next P = (if ks = [] then None else Some (n + 1))"
    using assms unfolding chain_at_def by (auto dest!: spec [of _ 0] split: if_splits)
  moreover have "chain_at nk pm h (n + 1) (b # ks)"
    unfolding chain_at_def
  proof (intro allI impI)
    fix i assume "i + 1 < length (b # ks)"
    then show "\<exists>P. pm (n + 1 + i) = Some P \<and> plain_pair nk h ((b # ks) ! i) ((b # ks) ! (i + 1)) P
       \<and> p_next P = (if i + 2 < length (b # ks) then Some (n + 1 + i + 1) else None)"
      using assms unfolding chain_at_def by (auto dest!: spec [of _ "i + 1"])
  qed
  ultimately show ?thesis using that by blast
qed

fun chain_result ::
  "kernel_pair_t \<Rightarrow> nat list \<Rightarrow> ('k, 't) topology \<Rightarrow> (unit, ('k, 't) map_state) outcome \<Rightarrow>
   (kernel_pair_t, ('k, 't) topology) outcome" where
  "chain_result r ps w (Returned _ g) = Returned r (delete_pairs ps (w\<lparr>graph := g\<rparr>))"
| "chain_result r ps w (Raised e g) = Raised e (w\<lparr>graph := g\<rparr>)"
| "chain_result r ps w (Spin g) = Spin (w\<lparr>graph := g\<rparr>)"
| "chain_result r ps w (Fault f) = Fault f"

lemma join_no_spin: "join a na ra b nb rb g \<noteq> Spin g'"
  by (auto simp: join_def split: option.splits)

lemma bind_no_spin:
  "(\<And>s. m \<noteq> Spin s) \<Longrightarrow> (\<And>r s. k r s \<noteq> Spin s') \<Longrightarrow> bind_outcome m k \<noteq> Spin s'"
  by (cases m) auto

lemma link_no_spin: "link nk ooo a na b nb s g \<noteq> Spin g'"
  by (simp add: link_def Let_def bind_no_spin join_no_spin split: option.splits sum.splits)

lemma add_loop_chain:
  fixes w :: "('k :: linorder, 't) topology"
  assumes "chain_at nk (pairs w) h n (a # ks)" and "length ks \<le> fuel" and "groups s = [[a]]"
    and "stack s = []" and "ks \<noteq> [] \<or> initialized s"
  shows "add_loop nk cl fuel (if ks = [] then None else Some n) s w =
     chain_result (addDst (last (a # ks)) (ret_pair (note_sources s)))
       (kpair_store s @ [n..<n + length ks]) w (link_chain nk (a # ks) (graph w))"
  using assms
proof (induction ks arbitrary: a n s w fuel)
  case Nil
  then show ?case by (simp add: note_sources_def)
next
  case (Cons b ks)
  obtain P where P: "pairs w n = Some P" "plain_pair nk h a b P"
    "p_next P = (if ks = [] then None else Some (n + 1))" "chain_at nk (pairs w) h (n + 1) (b # ks)"
    using chain_at_Cons [OF Cons.prems(1)] by blast
  obtain f where f: "fuel = Suc f" "length ks \<le> f" using Cons.prems(2) by (cases fuel) auto
  have t: "next_link_type P = Inr Cont" using P(2) by (simp add: next_link_type_def plain_pair_def)
  let ?s = "(note_sources s)\<lparr>groups := [[b]], kpair_store := kpair_store s @ [n]\<rparr>"
  have ns: "note_sources ?s = ?s" "stack ?s = []" "initialized ?s"
    using Cons.prems(4) by (simp_all add: note_sources_def)
  show ?case
  proof (cases "link nk False a nk b nk 0 (graph w)")
    case (Returned r g)
    let ?w = "w\<lparr>graph := g\<rparr>"
    have upt: "[n..<n + length (b # ks)] = n # [n + 1..<n + 1 + length ks]"
      using upt_conv_Cons [of n "n + length (b # ks)"] by simp
    have "add_loop nk cl fuel (Some n) s w = add_loop nk cl f (p_next P) ?s ?w"
      using P(1) t f(1) Returned add_step_plain [OF P(1,2) Cons.prems(3), of cl]
      by (simp add: with_pair_def)
    also have "\<dots> = chain_result (addDst (last (b # ks)) (ret_pair (note_sources ?s)))
       (kpair_store ?s @ [n + 1..<n + 1 + length ks]) ?w (link_chain nk (b # ks) (graph ?w))"
      unfolding P(3) using Cons.IH [of ?w "n + 1" b f ?s] P(4) f(2) ns by simp
    also have "\<dots> = chain_result (addDst (last (a # b # ks)) (ret_pair (note_sources s)))
       (kpair_store s @ [n..<n + length (b # ks)]) w (link_chain nk (b # ks) g)"
      unfolding ns upt by (cases "link_chain nk (b # ks) g") simp_all
    finally show ?thesis by (simp add: Returned)
  next
    case (Raised e g)
    then show ?thesis
      using P(1) t f(1) add_step_plain [OF P(1,2) Cons.prems(3), of cl] by (simp add: with_pair_def)
  next
    case (Spin g)
    then show ?thesis by (simp add: link_no_spin)
  next
    case (Fault x)
    then show ?thesis
      using P(1) t f(1) add_step_plain [OF P(1,2) Cons.prems(3), of cl] by (simp add: with_pair_def)
  qed
qed

lemma delete_pairs_pairs:
  "pairs (delete_pairs ps w) = (\<lambda>q. if q \<in> set ps then None else pairs w q)"
  "graph (delete_pairs ps w) = graph w"
  by (induction ps arbitrary: w) (auto simp: fun_eq_iff)

lemma link_chain_no_spin: "link_chain nk xs h \<noteq> Spin h'"
  by (induction nk xs h rule: link_chain.induct) (simp_all add: bind_no_spin link_no_spin)

text \<open>The run of a chain is the run of its links, and the pairs it made are gone after it.\<close>

lemma add_chain_runs:
  fixes w :: "('k :: linorder, 't) topology"
  assumes "\<forall>k \<in> set (a # b # ks). unnamed w k" and "\<forall>q \<ge> next_pair w. pairs w q = None"
  obtains w2 where "add_chain nk cl a b ks w = chain_result (addDst (last (b # ks)) (addSrc a kernel_pair_new))
      [next_pair w..<next_pair w + length (b # ks)] w2 (link_chain nk (a # b # ks) (graph w))"
    "\<And>g. pairs (delete_pairs [next_pair w..<next_pair w + length (b # ks)] (w2\<lparr>graph := g\<rparr>)) = pairs w"
proof -
  let ?n = "next_pair w"
  obtain P where P: "kpair_new nk a b w =
       Returned ?n (w\<lparr>pairs := (pairs w)(?n \<mapsto> P), next_pair := ?n + 1\<rparr>)"
     "plain_pair nk ?n a b P" "p_next P = None"
    using kpair_new_plain [of w a b nk] assms(1) by auto
  let ?w1 = "w\<lparr>pairs := (pairs w)(?n \<mapsto> P), next_pair := ?n + 1\<rparr>"
  have "chain_at nk (pairs ?w1) ?n ?n [a, b]" using P by (simp add: chain_at_def)
  moreover have "unnamed ?w1 k \<longleftrightarrow> unnamed w k" for k by (simp add: unnamed_def)
  ultimately obtain w2 where w2: "shift_more nk ?n ks ?w1 = Returned (?n + length ks) w2"
      "graph w2 = graph w" "next_pair w2 = ?n + length ks + 1"
      "chain_at nk (pairs w2) ?n ?n (a # b # ks)"
      "\<forall>q < ?n. pairs w2 q = pairs w q" "\<forall>q \<ge> next_pair w2. pairs w2 q = pairs ?w1 q"
    using shift_more_chain [of nk ?w1 ?n a b "[]" ks] assms(1) by auto
  obtain L where L: "pairs w2 (?n + length ks) = Some L" "p_head L = ?n"
    using spec [OF w2(4) [unfolded chain_at_def], of "length ks"] by (auto simp: plain_pair_def)
  obtain H where H: "pairs w2 ?n = Some H" "p_src H = a"
    using spec [OF w2(4) [unfolded chain_at_def], of 0] by (auto simp: plain_pair_def)
  let ?s = "add_start a"
  let ?ps = "[?n..<?n + length (b # ks)]"
  let ?ret = "addDst (last (b # ks)) (addSrc a kernel_pair_new)"
  have "add_chain nk cl a b ks w = add_loop nk cl (next_pair w2) (Some ?n) ?s w2"
    using P(1) w2(1) L H by (simp add: add_chain_def shift_kk_def map_add_def with_pair_def)
  also have "\<dots> = chain_result ?ret ?ps w2 (link_chain nk (a # b # ks) (graph w))"
    using add_loop_chain [OF w2(4), of "next_pair w2" ?s cl] w2(2,3)
    by (simp add: add_start_def note_sources_def)
  finally have res: "add_chain nk cl a b ks w = chain_result ?ret ?ps w2 (link_chain nk (a # b # ks) (graph w))" .
  have prs: "pairs (delete_pairs ?ps (w2\<lparr>graph := g\<rparr>)) = pairs w" for g
  proof
    fix q
    consider "q < ?n" | "q \<in> set ?ps" | "q \<ge> next_pair w2" using w2(3) by fastforce
    then show "pairs (delete_pairs ?ps (w2\<lparr>graph := g\<rparr>)) q = pairs w q"
      using w2(3,5,6) assms(2) by cases (auto simp: delete_pairs_pairs)
  qed
  show thesis by (rule that [OF res prs])
qed

text \<open>
  C12: m += a >> b >> c ... adds exactly the links a to b, b to c and so on, in this order and
  nothing else: it returns the first and the last kernel and frees every kpair when all links
  succeed, and otherwise raises the exception of the first link that fails, with the links
  before it made.
\<close>

theorem chain_adds_its_links:
  fixes w :: "('k :: linorder, 't) topology"
  assumes "\<forall>k \<in> set (a # b # ks). unnamed w k" and "\<forall>q \<ge> next_pair w. pairs w q = None"
  shows "case link_chain nk (a # b # ks) (graph w) of
     Returned _ g \<Rightarrow>
       \<exists>w'. add_chain nk cl a b ks w = Returned (addDst (last (b # ks)) (addSrc a kernel_pair_new)) w'
          \<and> graph w' = g \<and> pairs w' = pairs w
   | Raised e g \<Rightarrow> \<exists>w'. add_chain nk cl a b ks w = Raised e w' \<and> graph w' = g
   | Spin g \<Rightarrow> False
   | Fault f \<Rightarrow> add_chain nk cl a b ks w = Fault f"
proof -
  let ?ps = "[next_pair w..<next_pair w + length (b # ks)]"
  obtain w2 where res: "add_chain nk cl a b ks w = chain_result (addDst (last (b # ks)) (addSrc a kernel_pair_new)) ?ps w2 (link_chain nk (a # b # ks) (graph w))"
    and prs: "\<And>g. pairs (delete_pairs ?ps (w2\<lparr>graph := g\<rparr>)) = pairs w"
    using add_chain_runs [OF assms, of nk cl] by metis
  show ?thesis
  proof (cases "link_chain nk (a # b # ks) (graph w)")
    case (Returned r g)
    have "graph (delete_pairs ?ps (w2\<lparr>graph := g\<rparr>)) = g" by (simp add: delete_pairs_pairs)
    then show ?thesis using res prs [of g] unfolding Returned outcome.case chain_result.simps by blast
  next
    case (Spin g)
    then show ?thesis using link_chain_no_spin by metis
  next
    case (Raised e g)
    have "graph (w2\<lparr>graph := g\<rparr>) = g" by simp
    then show ?thesis using res unfolding Raised outcome.case chain_result.simps by blast
  next
    case (Fault f)
    then show ?thesis using res unfolding Fault outcome.case chain_result.simps by blast
  qed
qed

section \<open>Examples\<close>

text \<open>Kernels with named ports of one type, and a copy constructor that builds them anew.\<close>

definition ex_port :: "nat \<Rightarrow> nat list \<Rightarrow> (nat, nat) Port" where
  "ex_port a names = (Port_new a)\<lparr>portmap := map (\<lambda>n. (n, fresh_info 0 8 a n)) names\<rparr>"

definition ex_kernel :: "nat \<Rightarrow> nat list \<Rightarrow> nat list \<Rightarrow> (nat, nat) kernel" where
  "ex_kernel a ins outs = (fst (kernel_new a 0))\<lparr>kin := ex_port a ins, kout := ex_port a outs\<rparr>"

definition ex_clone :: "(nat, nat) cloner" where
  "ex_clone c k = Inr (ex_kernel c (sort (remdups (map fst (portmap (kin k)))))
                                   (sort (remdups (map fst (portmap (kout k))))))"

definition ex_heap :: "nat \<Rightarrow> (nat, nat) kernel option" where
  "ex_heap = [1 \<mapsto> ex_kernel 1 [] [11, 12], 2 \<mapsto> ex_kernel 2 [21] [22],
              3 \<mapsto> ex_kernel 3 [31] [32], 4 \<mapsto> ex_kernel 4 [41, 42] [43],
              5 \<mapsto> ex_kernel 5 [51] []]"

definition ex_topology :: "(nat, nat) topology" where
  "ex_topology = topology_new (map_new ex_heap 6)"

lemma ex_port_unlinked: "sorted names \<Longrightarrow> distinct names \<Longrightarrow> unlinked_port (ex_port a names)"
  by (auto simp: unlinked_port_def ex_port_def smap_ok_def comp_def fresh_info_def PortInfo_new_def)

lemma ex_kernel_unlinked:
  assumes "sorted ins" and "distinct ins" and "sorted outs" and "distinct outs"
  shows "unlinked_port (kin (ex_kernel a ins outs)) \<and> unlinked_port (kout (ex_kernel a ins outs))"
  using assms by (simp add: ex_kernel_def ex_port_unlinked)

lemma ex_clone_ok: "cloner_ok ex_clone"
  unfolding cloner_ok_def ex_clone_def using ex_kernel_unlinked by auto

lemma ex_heap_unlinked: "unlinked ex_heap"
  unfolding unlinked_def ex_heap_def by (auto simp: ran_def ex_kernel_unlinked split: if_splits)

lemma ex_topology_ok: "topo_ok ex_topology"
  using map_new_ok [OF ex_heap_unlinked, of 6]
  by (auto simp: topo_ok_def ex_topology_def topology_new_def map_new_def ex_heap_def split: if_splits)

lemma ex_unnamed: "a \<in> {1, 2, 3, 4, 5} \<Longrightarrow> unnamed ex_topology a"
  by (auto simp: unnamed_def ex_topology_def topology_new_def map_new_def ex_heap_def
      ex_kernel_def kernel_new_def)

fun returned :: "('r, 's) outcome \<Rightarrow> bool" where
  "returned (Returned r s) = True"
| "returned _ = False"

lemma ex_links: "returned (link_chain 0 [2, 3, 5] (graph ex_topology))"
  by code_simp

theorem chain_adds_its_links_witness:
  "\<exists>w' g. link_chain 0 [2, 3, 5] (graph ex_topology) = Returned () g
     \<and> add_chain 0 ex_clone 2 3 [5] ex_topology = Returned (addDst 5 (addSrc 2 kernel_pair_new)) w'
     \<and> graph w' = g \<and> pairs w' = pairs ex_topology"
proof -
  have u: "\<forall>k \<in> set [2, 3, 5]. unnamed ex_topology k" using ex_unnamed by simp
  have f: "\<forall>q \<ge> next_pair ex_topology. pairs ex_topology q = None"
    by (simp add: ex_topology_def topology_new_def)
  obtain g where g: "link_chain 0 [2, 3, 5] (graph ex_topology) = Returned () g"
    using ex_links by (cases "link_chain 0 [2, 3, 5] (graph ex_topology)") simp_all
  show ?thesis
    using chain_adds_its_links [OF u f, of 0 ex_clone, unfolded g outcome.case] g by auto
qed

text \<open>A pair of two kernels, added.\<close>

lemma ex_pair:
  "\<exists>p w. shift_kk 0 2 5 ex_topology = Returned p w \<and> topo_ok w \<and> returned (map_add 0 ex_clone p w)"
proof -
  let ?n = "next_pair ex_topology"
  have k: "unnamed ex_topology 2" "unnamed ex_topology 5" using ex_unnamed by simp_all
  obtain P where P: "kpair_new 0 2 5 ex_topology = Returned ?n
      (ex_topology\<lparr>pairs := (pairs ex_topology)(?n \<mapsto> P), next_pair := ?n + 1\<rparr>)"
      "plain_pair 0 ?n 2 5 P"
    using kpair_new_plain [OF k] by blast
  let ?w = "ex_topology\<lparr>pairs := (pairs ex_topology)(?n \<mapsto> P), next_pair := ?n + 1\<rparr>"
  have "2 \<in> dom (heap (graph ex_topology))" "5 \<in> dom (heap (graph ex_topology))"
    using k by (auto simp: unnamed_def)
  then have "topo_ok ?w" using ex_topology_ok P(2)
    unfolding topo_ok_def plain_pair_def by simp
  moreover have "returned (bind_outcome (shift_kk 0 2 5 ex_topology) (map_add 0 ex_clone))"
    by code_simp
  then have "returned (map_add 0 ex_clone ?n ?w)" using P(1) by (simp add: shift_kk_def)
  ultimately show ?thesis using P(1) unfolding shift_kk_def by blast
qed

theorem map_add_keeps_graph_witness:
  "\<exists>p w r w'. shift_kk 0 2 5 ex_topology = Returned p w
     \<and> map_add 0 ex_clone p w = Returned r w' \<and> topo_ok w' \<and> map_ok (graph w')"
proof -
  obtain p w where w: "shift_kk 0 2 5 ex_topology = Returned p w" "topo_ok w"
      "returned (map_add 0 ex_clone p w)" using ex_pair by blast
  then obtain r w' where "map_add 0 ex_clone p w = Returned r w'"
    by (cases "map_add 0 ex_clone p w") simp_all
  then show ?thesis using map_add_keeps_graph [OF ex_clone_ok w(2), of 0 p] w(1) by auto
qed

section \<open>Expressions that lose kernels\<close>

text \<open>The kernels a walk from a pair would link.\<close>

fun walk :: "nat \<Rightarrow> (nat \<Rightarrow> 'k kpair option) \<Rightarrow> nat option \<Rightarrow> (nat \<times> nat) list" where
  "walk 0 pm po = []"
| "walk (Suc fuel) pm None = []"
| "walk (Suc fuel) pm (Some p) =
     (case pm p of None \<Rightarrow> [] | Some P \<Rightarrow> (p_src P, p_dst P) # walk fuel pm (p_next P))"

text \<open>
  Fact: The operator <= attaches the source to the last pair of the chain on its right: of
  g <= (a >> b >> ... >> y >> z) only the links g to y and y to z are left, whatever stands
  before y is never added to the map.
\<close>

theorem split_forgets_front_of_chain:
  fixes w :: "('k :: linorder, 't) topology"
  assumes "\<forall>k \<in> set (g # a # b # ks). unnamed w k" and "\<forall>q \<ge> next_pair w. pairs w q = None"
  shows "\<exists>q w2 t w3 T.
     bind_outcome (shift_kk nk a b w) (\<lambda>p w1. shift_more nk p ks w1) = Returned q w2
     \<and> split_kp nk g q w2 = Returned t w3
     \<and> pairs w3 t = Some T \<and> p_head T = t
     \<and> walk (next_pair w3) (pairs w3) (Some (p_head T))
       = [(g, last (butlast (a # b # ks))), (last (butlast (a # b # ks)), last (b # ks))]"
proof -
  let ?n = "next_pair w"
  obtain P where P: "kpair_new nk a b w =
       Returned ?n (w\<lparr>pairs := (pairs w)(?n \<mapsto> P), next_pair := ?n + 1\<rparr>)"
     "plain_pair nk ?n a b P" "p_next P = None"
    using kpair_new_plain [of w a b nk] assms(1) by auto
  let ?w1 = "w\<lparr>pairs := (pairs w)(?n \<mapsto> P), next_pair := ?n + 1\<rparr>"
  have "chain_at nk (pairs ?w1) ?n ?n [a, b]" using P by (simp add: chain_at_def)
  moreover have un: "unnamed ?w1 k \<longleftrightarrow> unnamed w k" for k by (simp add: unnamed_def)
  ultimately obtain w2 where w2: "shift_more nk ?n ks ?w1 = Returned (?n + length ks) w2"
      "graph w2 = graph w" "next_pair w2 = ?n + length ks + 1"
      "chain_at nk (pairs w2) ?n ?n (a # b # ks)"
    using shift_more_chain [of nk ?w1 ?n a b "[]" ks] assms(1) by auto
  let ?q = "?n + length ks"
  let ?y = "(a # b # ks) ! length ks"
  let ?z = "(a # b # ks) ! (length ks + 1)"
  obtain L where L: "pairs w2 ?q = Some L" "p_src L = ?y" "p_dst L = ?z" "p_next L = None"
    using spec [OF w2(4) [unfolded chain_at_def], of "length ks"] by (auto simp: plain_pair_def)
  have "last (butlast (a # b # ks)) = butlast (a # b # ks) ! (length (butlast (a # b # ks)) - 1)"
    by (rule last_conv_nth) simp
  also have "\<dots> = ?y" by (subst nth_butlast) simp_all
  finally have yz: "?y = last (butlast (a # b # ks))" "?z = last (b # ks)"
    by (simp_all only: last_conv_nth) (simp_all add: last_conv_nth)
  have "?y \<in> set (a # b # ks)" by (rule nth_mem) simp
  moreover have un2: "unnamed w2 k \<longleftrightarrow> unnamed w k" for k using w2(2) by (simp add: unnamed_def)
  ultimately have u: "unnamed w2 g" "unnamed w2 ?y" using assms(1) by auto
  obtain Q where Q: "kpair_new nk g ?y w2 =
       Returned (next_pair w2) (w2\<lparr>pairs := (pairs w2)(next_pair w2 \<mapsto> Q), next_pair := next_pair w2 + 1\<rparr>)"
     "plain_pair nk (next_pair w2) g ?y Q"
    using kpair_new_plain [OF u] by blast
  let ?t = "next_pair w2"
  let ?T = "Q\<lparr>p_head := ?t, p_next := Some ?q, split_to := True, join_from := False\<rparr>"
  let ?w3 = "w2\<lparr>pairs := (pairs w2)(?t \<mapsto> ?T), next_pair := ?t + 1\<rparr>"
  have s: "split_kp nk g ?q w2 = Returned ?t ?w3"
    using L(1,2) Q(1) by (simp add: split_kp_def kpair_before_def update_pair_def set_flags_def)
  have "walk (next_pair ?w3) (pairs ?w3) (Some ?t) = [(g, ?y), (?y, ?z)]"
    using L Q(2) w2(3) by (cases "?n + length ks") (simp_all add: plain_pair_def)
  then show ?thesis using P(1) w2(1) s yz
    by (intro exI [of _ ?q] exI [of _ w2] exI [of _ ?t] exI [of _ ?w3] exI [of _ ?T])
      (simp add: shift_kk_def)
qed

theorem split_forgets_front_of_chain_witness:
  "\<exists>q w2 t w3 T.
     bind_outcome (shift_kk 0 2 3 ex_topology) (\<lambda>p w1. shift_more 0 p [5] w1) = Returned q w2
     \<and> split_kp 0 1 q w2 = Returned t w3
     \<and> pairs w3 t = Some T \<and> p_head T = t
     \<and> walk (next_pair w3) (pairs w3) (Some (p_head T)) = [(1, 3), (3, 5)]"
  using split_forgets_front_of_chain [of 1 2 3 "[5]" ex_topology 0] ex_unnamed
  by (simp add: ex_topology_def topology_new_def)

text \<open>m += g <= s >> s2 >= jo >> print, the expression of the testsuite's staticSplitChainJoin.\<close>

definition split_chain_join :: "(kernel_pair_t, (nat, nat) topology) outcome" where
  "split_chain_join =
     bind_outcome (shift_kk 0 2 3 ex_topology) (\<lambda>p1 w1.
       bind_outcome (split_kp 0 1 p1 w1) (\<lambda>x w2.
         bind_outcome (shift_kk 0 4 5 w2) (\<lambda>p2 w3.
           bind_outcome (join_pp 0 x p2 w3) (\<lambda>j w4. map_add 0 ex_clone j w4))))"

text \<open>
  Fact: In g <= s >> s2 >= jo >> print the operator >= overwrites the link to s >> s2: the
  addition succeeds, but s2 is not in the map, and s and its clone go straight to jo.
\<close>

theorem split_chain_join_drops_kernel:
  "case split_chain_join of
     Returned r w \<Rightarrow> 3 \<notin> all_set (graph w) \<and> {1, 2, 4, 5} \<subseteq> all_set (graph w)
       \<and> map_option other_kernel (get_info (2, Out, 22) (graph w)) = Some (Some 4)
   | _ \<Rightarrow> False"
  by code_simp

text \<open>m += a >> b >> c >= d with two input ports at d.\<close>

definition dup_join_chain :: "(kernel_pair_t, (nat, nat) topology) outcome" where
  "dup_join_chain =
     (let w0 = topology_new (map_new [1 \<mapsto> ex_kernel 1 [] [11], 2 \<mapsto> ex_kernel 2 [21] [22],
                  3 \<mapsto> ex_kernel 3 [31] [32], 4 \<mapsto> ex_kernel 4 [41, 42] []] 5)
      in bind_outcome (shift_kk 0 1 2 w0) (\<lambda>p1 w1.
           bind_outcome (shift_pk 0 p1 3 w1) (\<lambda>p2 w2.
             bind_outcome (join_pk 0 p2 4 w2) (\<lambda>p3 w3. map_add 0 ex_clone p3 w3))))"

text \<open>
  Fact: In a >> b >> c >= d the second input of d gets a copy of a and of b but none of c: the
  copy of b (kernel 6) is linked to d itself, and the pair returned names c as a source.
\<close>

theorem dup_join_skips_middle:
  "case dup_join_chain of
     Returned r w \<Rightarrow> map_option other_kernel (get_info (4, In, 41) (graph w)) = Some (Some 3)
       \<and> map_option other_kernel (get_info (4, In, 42) (graph w)) = Some (Some 6)
       \<and> map_option other_kernel (get_info (6, In, 21) (graph w)) = Some (Some 5)
       \<and> all_set (graph w) = {1, 2, 3, 4, 5, 6} \<and> getSrc r = [3, 5]
   | _ \<Rightarrow> False"
  by code_simp

text \<open>Two nested splits of 3 and 2 ports, joined in 2 and 3 ports.\<close>

definition nested_split_join :: "(kernel_pair_t, (nat, nat) topology) outcome" where
  "nested_split_join =
     (let w0 = topology_new (map_new [1 \<mapsto> ex_kernel 1 [] [11, 12, 13], 2 \<mapsto> ex_kernel 2 [21] [22, 23],
                  3 \<mapsto> ex_kernel 3 [31] [32], 4 \<mapsto> ex_kernel 4 [41, 42] [43],
                  5 \<mapsto> ex_kernel 5 [51, 52, 53] []] 6)
      in bind_outcome (split_kk 0 2 3 w0) (\<lambda>p w1.
           bind_outcome (split_kp 0 1 p w1) (\<lambda>x w2.
             bind_outcome (join_pk 0 p 4 w2) (\<lambda>y w3.
               bind_outcome (join_pk 0 y 5 w3) (\<lambda>z w4. map_add 0 ex_clone x w4)))))"

text \<open>
  Fact: Joining the inner of two nested splits groups its results by the number of ports of the
  inner split instead of the outer one: with 3 outer and 2 inner ports the last join reads
  past the end of a group.
\<close>

theorem nested_join_reads_past_group:
  "case nested_split_join of Fault OutOfRange \<Rightarrow> True | _ \<Rightarrow> False"
  by code_simp

end
