(* ===== verification/Graph_Tools.thy ===== *)
theory Graph_Tools
  imports Map_Run
begin

text \<open>
  The graph traversals, src/graphtools.cpp.  Both BFS functions walk from the given
  kernels along the output ports and call a function for each edge or each kernel; the
  function may change the state, so the model threads a state s through it and reads the
  graph out of s with gr.  A null pointer in the queue is None.  The lock of the port map
  only serialises the traversal with kernels that add ports.
\<close>

type_synonym 'k edge = "'k port_ref \<times> 'k port_ref"
type_synonym ('k, 's) edge_func = "'k port_ref \<Rightarrow> 'k port_ref \<Rightarrow> 's \<Rightarrow> (unit, 's) outcome"

section \<open>Breadth-first search over edges\<close>

text \<open>The body of the loop over the output ports: the edge function, then the other kernel.\<close>

definition bfs_edge ::
  "('s \<Rightarrow> ('k, 't) map_state) \<Rightarrow> ('k, 's) edge_func \<Rightarrow> bool \<Rightarrow> 'k port_ref \<Rightarrow> 's \<Rightarrow> (unit, 's) outcome" where
  "bfs_edge gr func connected_error r s =
     (case get_info r (gr s) of
        None \<Rightarrow> Fault UseAfterFree
      | Some source \<Rightarrow>
          (case other_kernel source of
             Some o' \<Rightarrow>
               (case heap (gr s) o' of
                  None \<Rightarrow> Fault UseAfterFree
                | Some ko \<Rightarrow>
                    (case getPortInfoFor (other_name source) (kin ko) of
                       Inl e \<Rightarrow> Raised e s
                     | Inr _ \<Rightarrow> func r (o', In, other_name source) s))
           | None \<Rightarrow> if connected_error then Fault AssertionFailed else Returned () s))"

fun bfs_ports ::
  "('s \<Rightarrow> ('k, 't) map_state) \<Rightarrow> ('k, 's) edge_func \<Rightarrow> bool \<Rightarrow> nat \<Rightarrow> 'k list \<Rightarrow>
   nat option list \<Rightarrow> nat option set \<Rightarrow> 's \<Rightarrow> (nat option list \<times> nat option set, 's) outcome" where
  "bfs_ports gr func err k [] queue visited s = Returned (queue, visited) s"
| "bfs_ports gr func err k (n # ns) queue visited s =
     bind_outcome (bfs_edge gr func err (k, Out, n) s)
       (\<lambda>_ s1. case get_info (k, Out, n) (gr s1) of
          None \<Rightarrow> Fault UseAfterFree
        | Some source \<Rightarrow>
            if other_kernel source \<notin> visited
            then bfs_ports gr func err k ns (queue @ [other_kernel source])
                   (insert (other_kernel source) visited) s1
            else bfs_ports gr func err k ns queue visited s1)"

fun bfs_loop ::
  "('s \<Rightarrow> ('k, 't) map_state) \<Rightarrow> ('k, 's) edge_func \<Rightarrow> bool \<Rightarrow> nat \<Rightarrow>
   nat option list \<Rightarrow> nat option set \<Rightarrow> 's \<Rightarrow> (unit, 's) outcome" where
  "bfs_loop gr func err fuel [] visited s = Returned () s"
| "bfs_loop gr func err 0 (k # queue) visited s = Spin s"
| "bfs_loop gr func err (Suc fuel) (None # queue) visited s = Returned () s"
| "bfs_loop gr func err (Suc fuel) (Some k # queue) visited s =
     (case heap (gr s) k of
        None \<Rightarrow> Fault UseAfterFree
      | Some K \<Rightarrow>
          bind_outcome (bfs_ports gr func err k (map fst (portmap (kout K))) queue visited s)
            (\<lambda>(queue1, visited1) s1. bfs_loop gr func err fuel queue1 visited1 s1))"

definition BFS_edges ::
  "('s \<Rightarrow> ('k, 't) map_state) \<Rightarrow> ('k, 's) edge_func \<Rightarrow> bool \<Rightarrow> nat \<Rightarrow> nat set \<Rightarrow> 's \<Rightarrow> (unit, 's) outcome" where
  "BFS_edges gr func err fuel sources s =
     bfs_loop gr func err fuel (map Some (keeper_list sources)) (Some ` sources) s"

section \<open>Breadth-first search over vertices\<close>

fun vertex_ports :: "('k, 't) map_state \<Rightarrow> nat \<Rightarrow> 'k list \<Rightarrow> nat list \<Rightarrow> nat set \<Rightarrow> nat list \<times> nat set" where
  "vertex_ports g k [] queue visited = (queue, visited)"
| "vertex_ports g k (n # ns) queue visited =
     (case get_info (k, Out, n) g of
        Some source \<Rightarrow>
          (case other_kernel source of
             Some o' \<Rightarrow>
               if o' \<notin> visited then vertex_ports g k ns (queue @ [o']) (insert o' visited)
               else vertex_ports g k ns queue visited
           | None \<Rightarrow> vertex_ports g k ns queue visited)
      | None \<Rightarrow> vertex_ports g k ns queue visited)"

fun vertex_loop ::
  "('s \<Rightarrow> ('k, 't) map_state) \<Rightarrow> (nat \<Rightarrow> 's \<Rightarrow> (unit, 's) outcome) \<Rightarrow> nat \<Rightarrow>
   nat list \<Rightarrow> nat set \<Rightarrow> 's \<Rightarrow> (unit, 's) outcome" where
  "vertex_loop gr func fuel [] visited s = Returned () s"
| "vertex_loop gr func 0 (k # queue) visited s = Spin s"
| "vertex_loop gr func (Suc fuel) (k # queue) visited s =
     bind_outcome (func k s)
       (\<lambda>_ s1. case heap (gr s1) k of
          None \<Rightarrow> Fault UseAfterFree
        | Some K \<Rightarrow>
            (case vertex_ports (gr s1) k (map fst (portmap (kout K))) queue visited of
               (queue1, visited1) \<Rightarrow> vertex_loop gr func fuel queue1 visited1 s1))"

definition BFS_vertices ::
  "('s \<Rightarrow> ('k, 't) map_state) \<Rightarrow> (nat \<Rightarrow> 's \<Rightarrow> (unit, 's) outcome) \<Rightarrow> nat \<Rightarrow> nat set \<Rightarrow> 's \<Rightarrow> (unit, 's) outcome" where
  "BFS_vertices gr func fuel sources s =
     vertex_loop gr func fuel (keeper_list sources) sources s"

section \<open>The traversal as a list of edges\<close>

text \<open>The out-edges of a kernel in a connected graph, and the walk over them alone.\<close>

definition out_edges :: "('k, 't) map_state \<Rightarrow> nat \<Rightarrow> 'k edge list" where
  "out_edges g k =
     (case heap g k of
        None \<Rightarrow> []
      | Some K \<Rightarrow>
          map (\<lambda>e. ((k, Out, fst e), (the (other_kernel (snd e)), In, other_name (snd e))))
            (portmap (kout K)))"

definition head_of :: "'k edge \<Rightarrow> nat" where
  "head_of e = fst (snd e)"

fun bfs_scan :: "'k edge list \<Rightarrow> nat list \<Rightarrow> nat set \<Rightarrow> nat list \<times> nat set" where
  "bfs_scan [] queue visited = (queue, visited)"
| "bfs_scan (e # es) queue visited =
     (if head_of e \<notin> visited then bfs_scan es (queue @ [head_of e]) (insert (head_of e) visited)
      else bfs_scan es queue visited)"

fun bfs_walk :: "(nat \<Rightarrow> 'k edge list) \<Rightarrow> nat \<Rightarrow> nat list \<Rightarrow> nat set \<Rightarrow> 'k edge list option" where
  "bfs_walk out fuel [] visited = Some []"
| "bfs_walk out 0 (k # queue) visited = None"
| "bfs_walk out (Suc fuel) (k # queue) visited =
     (case bfs_scan (out k) queue visited of
        (queue1, visited1) \<Rightarrow> map_option ((@) (out k)) (bfs_walk out fuel queue1 visited1))"

text \<open>The kernels in the order they leave the queue.\<close>

fun bfs_order :: "(nat \<Rightarrow> 'k edge list) \<Rightarrow> nat \<Rightarrow> nat list \<Rightarrow> nat set \<Rightarrow> nat list option" where
  "bfs_order out fuel [] visited = Some []"
| "bfs_order out 0 (k # queue) visited = None"
| "bfs_order out (Suc fuel) (k # queue) visited =
     (case bfs_scan (out k) queue visited of
        (queue1, visited1) \<Rightarrow> map_option ((#) k) (bfs_order out fuel queue1 visited1))"

lemma bfs_walk_order:
  "bfs_walk out fuel q v = map_option (\<lambda>ks. concat (map out ks)) (bfs_order out fuel q v)"
  by (induction out fuel q v rule: bfs_order.induct)
    (auto simp: option.map_comp comp_def split: prod.splits)

text \<open>The successors of a kernel, and the kernels reachable from a set.\<close>

definition succs :: "(nat \<Rightarrow> 'k edge list) \<Rightarrow> (nat \<times> nat) set" where
  "succs out = {(a, head_of e) | a e. e \<in> set (out a)}"

definition reachable_from :: "(nat \<Rightarrow> 'k edge list) \<Rightarrow> nat set \<Rightarrow> nat set" where
  "reachable_from out S = (succs out)\<^sup>* `` S"

lemma bfs_scan_result:
  assumes "bfs_scan es q v = (q', v')" and "distinct q" and "set q \<subseteq> v"
  shows "v' = v \<union> head_of ` set es \<and> set q' = set q \<union> (head_of ` set es - v) \<and> distinct q' \<and> set q' \<subseteq> v'"
  using assms
proof (induction es arbitrary: q v)
  case (Cons e es)
  show ?case
  proof (cases "head_of e \<in> v")
    case True
    then show ?thesis using Cons.IH [of q v] Cons.prems by auto
  next
    case False
    then have "distinct (q @ [head_of e])" "set (q @ [head_of e]) \<subseteq> insert (head_of e) v"
      using Cons.prems by auto
    then show ?thesis
      using Cons.IH [of "q @ [head_of e]" "insert (head_of e) v"] Cons.prems(1) False by auto
  qed
qed simp

text \<open>
  The walk processes each visited kernel once: from a queue q of visited but unprocessed
  kernels, with enough fuel for the kernels left, it lists the edges of the kernels of a
  closed set R and of no kernel twice.
\<close>

lemma bfs_order_result:
  assumes "finite V" and "\<forall>k \<in> V. head_of ` set (out k) \<subseteq> V" and "v \<subseteq> V" and "distinct q"
    and "set q \<subseteq> v" and "card (V - (v - set q)) \<le> fuel"
    and "\<forall>k \<in> v - set q. head_of ` set (out k) \<subseteq> v"
  shows "\<exists>ks. bfs_order out fuel q v = Some ks \<and> distinct ks
     \<and> set ks \<inter> (v - set q) = {} \<and> set q \<subseteq> set ks
     \<and> (\<forall>k \<in> set ks \<union> v. head_of ` set (out k) \<subseteq> set ks \<union> v)
     \<and> set ks \<subseteq> V \<inter> reachable_from out v"
  using assms(3-)
proof (induction fuel arbitrary: q v)
  case 0
  have "finite (V - (v - set q))" using assms(1) by simp
  then have "V - (v - set q) = {}" using 0(4) by simp
  then have "q = []" using 0 by (cases q) auto
  then show ?case using 0 by (intro exI [of _ "[]"]) simp
next
  case (Suc fuel)
  show ?case
  proof (cases q)
    case Nil
    then show ?thesis using Suc.prems by (intro exI [of _ "[]"]) simp
  next
    case (Cons k q0)
    obtain q' v' where qv: "bfs_scan (out k) q0 v = (q', v')" by (cases "bfs_scan (out k) q0 v")
    have dq: "distinct q0" "set q0 \<subseteq> v" "k \<in> v" "k \<notin> set q0" "k \<in> V"
      using Suc.prems Cons by auto
    have r: "v' = v \<union> head_of ` set (out k)" "set q' = set q0 \<union> (head_of ` set (out k) - v)"
      "distinct q'" "set q' \<subseteq> v'"
      using bfs_scan_result [OF qv dq(1,2)] by auto
    have dn: "v' - set q' = insert k (v - set q)" using r dq Cons by auto
    have "V - (v' - set q') = (V - (v - set q)) - {k}" unfolding dn by auto
    moreover have "k \<in> V - (v - set q)" using dq Cons by auto
    ultimately have "card (V - (v' - set q')) \<le> fuel"
      using Suc.prems(4) assms(1) by (simp add: card_Diff_singleton)
    moreover have "v' \<subseteq> V" using r(1) Suc.prems(1) assms(2) dq(5) by auto
    moreover have "\<forall>j \<in> v' - set q'. head_of ` set (out j) \<subseteq> v'"
      unfolding dn using Suc.prems(5) r(1) by auto
    ultimately obtain ks where ks: "bfs_order out fuel q' v' = Some ks" "distinct ks"
        "set ks \<inter> (v' - set q') = {}" "set q' \<subseteq> set ks"
        "\<forall>j \<in> set ks \<union> v'. head_of ` set (out j) \<subseteq> set ks \<union> v'"
        "set ks \<subseteq> V \<inter> reachable_from out v'"
      using Suc.IH [of v' q'] r(3,4) by auto
    have "head_of e \<in> reachable_from out v" if "e \<in> set (out k)" for e
      unfolding reachable_from_def
      by (rule ImageI [OF r_into_rtrancl dq(3)]) (use that in \<open>unfold succs_def, blast\<close>)
    moreover have "v \<subseteq> reachable_from out v" unfolding reachable_from_def by blast
    ultimately have "v' \<subseteq> reachable_from out v" unfolding r(1) by blast
    then have reach: "reachable_from out v' \<subseteq> reachable_from out v"
      unfolding reachable_from_def by (auto intro: rtrancl_trans)
    have vv: "v \<subseteq> v'" using r(1) by simp
    have sub: "v' \<subseteq> set ks \<union> v"
      using r(1,2) ks(4) by auto
    have "k \<in> reachable_from out v" using dq(3) by (auto simp: reachable_from_def)
    moreover have "set (k # ks) \<union> v = set ks \<union> v'" using vv sub dq(3) by auto
    moreover have "k \<notin> set ks" "set (k # ks) \<inter> (v - set q) = {}" using ks(3) dn Cons dq by auto
    moreover have "set q \<subseteq> set (k # ks)" using ks(4) r(2) Cons by auto
    moreover have "bfs_order out (Suc fuel) q v = Some (k # ks)"
      using ks(1) qv Cons by simp
    moreover have "\<forall>j \<in> set (k # ks) \<union> v. head_of ` set (out j) \<subseteq> set (k # ks) \<union> v"
      using ks(5) \<open>set (k # ks) \<union> v = set ks \<union> v'\<close> by simp
    moreover have "set (k # ks) \<subseteq> V \<inter> reachable_from out v"
      using ks(6) reach dq(5) \<open>k \<in> reachable_from out v\<close> by auto
    moreover have "distinct (k # ks)" using ks(2) \<open>k \<notin> set ks\<close> by simp
    ultimately show ?thesis by blast
  qed
qed

lemma reachable_from_closed:
  assumes "S \<subseteq> R" and "\<forall>k \<in> R. head_of ` set (out k) \<subseteq> R"
  shows "reachable_from out S \<subseteq> R"
proof
  fix b assume "b \<in> reachable_from out S"
  then obtain a where "a \<in> S" "(a, b) \<in> (succs out)\<^sup>*" by (auto simp: reachable_from_def)
  from this(2) have "b \<in> R"
    by (induction rule: rtrancl_induct) (use \<open>a \<in> S\<close> assms in \<open>auto simp: succs_def\<close>)
  then show "b \<in> R" .
qed

lemma bfs_order_reachable:
  assumes "finite V" and "\<forall>k \<in> V. head_of ` set (out k) \<subseteq> V" and "set q \<subseteq> V" and "distinct q"
    and "card V \<le> fuel"
  shows "\<exists>ks. bfs_order out fuel q (set q) = Some ks \<and> distinct ks
     \<and> set ks = reachable_from out (set q)"
proof -
  obtain ks where ks: "bfs_order out fuel q (set q) = Some ks" "distinct ks"
      "set q \<subseteq> set ks" "\<forall>k \<in> set ks \<union> set q. head_of ` set (out k) \<subseteq> set ks \<union> set q"
      "set ks \<subseteq> V \<inter> reachable_from out (set q)"
    using bfs_order_result [of V out "set q" q fuel] assms by auto
  have "reachable_from out (set q) \<subseteq> set ks"
    by (rule reachable_from_closed) (use ks in auto)
  then show ?thesis using ks by auto
qed

lemma bfs_walk_reachable:
  assumes "finite V" and "\<forall>k \<in> V. head_of ` set (out k) \<subseteq> V" and "set q \<subseteq> V" and "distinct q"
    and "card V \<le> fuel"
  shows "\<exists>ks. bfs_walk out fuel q (set q) = Some (concat (map out ks)) \<and> distinct ks
     \<and> set ks = reachable_from out (set q)"
  using bfs_order_reachable [OF assms] by (auto simp: bfs_walk_order)

section \<open>The traversal over vertices as a list of kernels\<close>

text \<open>A function called for one kernel after the other.\<close>

fun visit_all :: "(nat \<Rightarrow> 's \<Rightarrow> (unit, 's) outcome) \<Rightarrow> nat list \<Rightarrow> 's \<Rightarrow> (unit, 's) outcome" where
  "visit_all func [] s = Returned () s"
| "visit_all func (k # ks) s = bind_outcome (func k s) (\<lambda>_ s1. visit_all func ks s1)"

end
