(* ===== verification/Graph_Props.thy ===== *)
theory Graph_Props
  imports Graph_Tools
begin

text \<open>
  The traversals on a connected graph: an edge function that leaves the connections alone
  is called once for each edge that leaves a kernel reachable from the sources, in the
  order of the walk, and the traversal ends.
\<close>

section \<open>What a traversal reads\<close>

definition kernel_wires :: "('k, 't) kernel \<Rightarrow> ('k \<times> nat option \<times> 'k) list \<times> 'k list" where
  "kernel_wires K =
     (map (\<lambda>e. (fst e, other_kernel (snd e), other_name (snd e))) (portmap (kout K)),
      map fst (portmap (kin K)))"

definition same_wires :: "('k, 't) map_state \<Rightarrow> ('k, 't) map_state \<Rightarrow> bool" where
  "same_wires g g' \<longleftrightarrow> (\<forall>a. map_option kernel_wires (heap g a) = map_option kernel_wires (heap g' a))"

definition keeps_wires :: "('s \<Rightarrow> ('k, 't) map_state) \<Rightarrow> ('k, 's) edge_func \<Rightarrow> bool" where
  "keeps_wires gr func \<longleftrightarrow> (\<forall>r q s u s'. func r q s = Returned u s' \<longrightarrow> same_wires (gr s) (gr s'))"

text \<open>Every output port of a kernel in V leads to an existing port of a kernel in V.\<close>

definition connected :: "('k :: linorder, 't) map_state \<Rightarrow> nat set \<Rightarrow> bool" where
  "connected g V \<longleftrightarrow>
     (\<forall>k \<in> V. \<exists>K. heap g k = Some K \<and> smap_ok (portmap (kout K))
        \<and> (\<forall>e \<in> set (portmap (kout K)). \<exists>b KB. other_kernel (snd e) = Some b \<and> b \<in> V
             \<and> heap g b = Some KB \<and> other_name (snd e) \<in> fst ` set (portmap (kin KB))))"

lemma same_wires_refl [simp]: "same_wires g g"
  by (simp add: same_wires_def)

lemma same_wires_trans: "same_wires g h \<Longrightarrow> same_wires h i \<Longrightarrow> same_wires g i"
  by (simp add: same_wires_def)

lemma same_wires_heap:
  assumes "same_wires g g'" and "heap g a = Some K"
  obtains K' where "heap g' a = Some K'" "kernel_wires K' = kernel_wires K"
  using assms unfolding same_wires_def by (metis option.map(2) map_option_eq_Some)

lemma same_wires_set_info:
  assumes "\<And>pi. other_kernel (f pi) = other_kernel pi" and "\<And>pi. other_name (f pi) = other_name pi"
  shows "same_wires g (set_info r f g)"
proof (cases r)
  case (fields a d n)
  have m: "map (\<lambda>e. (fst e, other_kernel (snd e), other_name (snd e))) (smap_update xs n f) =
      map (\<lambda>e. (fst e, other_kernel (snd e), other_name (snd e))) xs" for xs
  proof (induction xs)
    case (Cons e xs)
    then show ?case by (cases e) (simp add: assms)
  qed simp
  have "kernel_wires (update_port d (\<lambda>p. p\<lparr>portmap := smap_update (portmap p) n f\<rparr>) K) = kernel_wires K" for K
    by (cases d) (simp_all add: kernel_wires_def m)
  then show ?thesis by (simp add: fields same_wires_def set_info.simps split: option.splits)
qed

lemma map_keys_lookup:
  assumes "map (\<lambda>e. (fst e, other_kernel (snd e), other_name (snd e))) xs =
      map (\<lambda>e. (fst e, other_kernel (snd e), other_name (snd e))) ys"
  shows "map_option (\<lambda>pi. (other_kernel pi, other_name pi)) (smap_find xs n) =
     map_option (\<lambda>pi. (other_kernel pi, other_name pi)) (smap_find ys n)"
  using assms
proof (induction xs arbitrary: ys)
  case (Cons x xs)
  then obtain y ys' where "ys = y # ys'" by (cases ys) auto
  then show ?case using Cons by (cases x; cases y) auto
qed simp

lemma same_wires_info:
  assumes "same_wires g g'"
  shows "map_option (\<lambda>pi. (other_kernel pi, other_name pi)) (get_info (k, Out, n) g) =
     map_option (\<lambda>pi. (other_kernel pi, other_name pi)) (get_info (k, Out, n) g')"
proof (cases "heap g k")
  case None
  then have "heap g' k = None" using assms by (metis same_wires_def map_option_is_None)
  then show ?thesis using None by (simp add: get_info.simps)
next
  case (Some K)
  then obtain K' where K': "heap g' k = Some K'" "kernel_wires K' = kernel_wires K"
    using same_wires_heap [OF assms] by blast
  then show ?thesis
    using Some map_keys_lookup [of "portmap (kout K)" "portmap (kout K')" n]
    by (simp add: get_info.simps kernel_wires_def)
qed

lemma same_wires_keys:
  assumes "same_wires g g'" and "heap g b = Some KB" and "m \<in> fst ` set (portmap (kin KB))"
  shows "\<exists>KB'. heap g' b = Some KB' \<and> m \<in> fst ` set (portmap (kin KB'))"
proof -
  obtain K' where "heap g' b = Some K'" "kernel_wires K' = kernel_wires KB"
    using same_wires_heap [OF assms(1,2)] .
  moreover from this(2) have "set (map fst (portmap (kin K'))) = set (map fst (portmap (kin KB)))"
    by (simp only: kernel_wires_def prod.inject)
  ultimately show ?thesis using assms(3) by simp
qed

section \<open>Invariants of a traversal\<close>

text \<open>
  A property of the state that the edge function keeps, on ports that have another end, is kept
  by the traversal.
\<close>

definition keeps_on_edges :: "('s \<Rightarrow> ('k, 't) map_state) \<Rightarrow> ('k, 's) edge_func \<Rightarrow> ('s \<Rightarrow> bool) \<Rightarrow> bool" where
  "keeps_on_edges gr func P \<longleftrightarrow>
     (\<forall>r q s u s' pi. P s \<longrightarrow> get_info r (gr s) = Some pi \<longrightarrow> other_kernel pi \<noteq> None \<longrightarrow>
        func r q s = Returned u s' \<longrightarrow> P s')"

lemma bfs_ports_keeps:
  assumes "keeps_on_edges gr func P" and "P s" and "bfs_ports gr func err k ns q v s = Returned r s'"
  shows "P s'"
  using assms(2,3)
proof (induction ns arbitrary: q v s)
  case (Cons n ns)
  obtain u s1 where s1: "bfs_edge gr func err (k, Out, n) s = Returned u s1"
    using Cons.prems(2) by (cases "bfs_edge gr func err (k, Out, n) s") auto
  have "P s1"
  proof -
    obtain pi where pi: "get_info (k, Out, n) (gr s) = Some pi"
      using s1 by (auto simp: bfs_edge_def split: option.splits)
    show ?thesis
    proof (cases "other_kernel pi")
      case None
      then show ?thesis using s1 pi Cons.prems(1) by (simp add: bfs_edge_def split: if_splits)
    next
      case (Some b)
      then have "func (k, Out, n) (b, In, other_name pi) s = Returned u s1"
        using s1 pi by (simp add: bfs_edge_def split: option.splits sum.splits)
      then show ?thesis using assms(1) Cons.prems(1) pi Some unfolding keeps_on_edges_def by blast
    qed
  qed
  then show ?case using Cons.prems(2) s1 by (auto dest: Cons.IH split: option.splits if_splits)
qed simp

lemma bfs_loop_keeps:
  assumes "keeps_on_edges gr func P" and "P s" and "bfs_loop gr func err fuel q v s = Returned r s'"
  shows "P s'"
  using assms(2,3)
proof (induction fuel arbitrary: q v s)
  case 0
  then show ?case by (cases q) auto
next
  case (Suc fuel)
  show ?case
  proof (cases q)
    case (Cons x qs)
    show ?thesis
    proof (cases x)
      case (Some k)
      then obtain K where K: "heap (gr s) k = Some K" using Suc.prems Cons by (auto split: option.splits)
      obtain q1 v1 s1 where s1: "bfs_ports gr func err k (map fst (portmap (kout K))) qs v s
          = Returned (q1, v1) s1"
        using Suc.prems K Cons Some
        by (cases "bfs_ports gr func err k (map fst (portmap (kout K))) qs v s") auto
      have "P s1" by (rule bfs_ports_keeps [OF assms(1) Suc.prems(1) s1])
      then show ?thesis using Suc K s1 Cons Some by simp
    qed (use Suc.prems Cons in auto)
  qed (use Suc.prems in auto)
qed

lemma BFS_edges_keeps:
  assumes "keeps_on_edges gr func P" and "P s" and "BFS_edges gr func err fuel S s = Returned r s'"
  shows "P s'"
  using assms(3) unfolding BFS_edges_def by (rule bfs_loop_keeps [OF assms(1,2)])

text \<open>The ports of a kernel know the kernel they belong to.\<close>

definition owned :: "('k, 't) map_state \<Rightarrow> bool" where
  "owned g \<longleftrightarrow> (\<forall>a d n pi. get_info (a, d, n) g = Some pi \<longrightarrow> my_kernel pi = Some a)"

section \<open>Calls of the edge function\<close>

fun run_edges :: "('k, 's) edge_func \<Rightarrow> 'k edge list \<Rightarrow> 's \<Rightarrow> (unit, 's) outcome" where
  "run_edges func [] s = Returned () s"
| "run_edges func (e # es) s =
     bind_outcome (func (fst e) (snd e) s) (\<lambda>_ s1. run_edges func es s1)"

lemma run_edges_append:
  "run_edges func (xs @ ys) s = bind_outcome (run_edges func xs s) (\<lambda>_ s1. run_edges func ys s1)"
proof (induction xs arbitrary: s)
  case (Cons x xs)
  have "run_edges func (xs @ ys) = (\<lambda>s. bind_outcome (run_edges func xs s) (\<lambda>_ s1. run_edges func ys s1))"
    by (rule ext) (rule Cons.IH)
  then show ?case by (simp add: bind_outcome_assoc)
qed simp

definition port_edge :: "nat \<Rightarrow> 'k \<times> ('k, 't) PortInfo \<Rightarrow> 'k edge" where
  "port_edge k e = ((k, Out, fst e), (the (other_kernel (snd e)), In, other_name (snd e)))"

lemma out_edges_alt: "heap g k = Some K \<Longrightarrow> out_edges g k = map (port_edge k) (portmap (kout K))"
  by (simp add: out_edges_def port_edge_def)

lemma bfs_edge_connected:
  assumes "same_wires g (gr s)" and "heap g k = Some K" and "smap_ok (portmap (kout K))"
    and "e \<in> set (portmap (kout K))" and "other_kernel (snd e) = Some b"
    and "heap g b = Some KB" and "other_name (snd e) \<in> fst ` set (portmap (kin KB))"
  shows "bfs_edge gr func err (k, Out, fst e) s = func (fst (port_edge k e)) (snd (port_edge k e)) s"
proof -
  have "get_info (k, Out, fst e) g = Some (snd e)"
    using assms(2-4) smap_find_in [of "portmap (kout K)" "fst e" "snd e"]
    by (simp add: get_info.simps smap_ok_def)
  then obtain pi where pi: "get_info (k, Out, fst e) (gr s) = Some pi"
      "other_kernel pi = Some b" "other_name pi = other_name (snd e)"
    using same_wires_info [OF assms(1), of k "fst e"] assms(5)
    by (cases "get_info (k, Out, fst e) (gr s)") auto
  obtain KB' where KB': "heap (gr s) b = Some KB'" "other_name pi \<in> fst ` set (portmap (kin KB'))"
    using same_wires_keys [OF assms(1,6,7)] pi(3) by auto
  then obtain x where "getPortInfoFor (other_name pi) (kin KB') = Inr x"
    unfolding getPortInfoFor_def by (cases "smap_find (portmap (kin KB')) (other_name pi)")
      (auto simp: smap_find_None)
  then show ?thesis using pi KB' assms(5) by (simp add: bfs_edge_def port_edge_def)
qed

lemma bfs_ports_run:
  assumes "connected g V" and "k \<in> V" and "heap g k = Some K" and "keeps_wires gr func"
    and "same_wires g (gr s)" and "set es \<subseteq> set (portmap (kout K))"
  shows "bfs_ports gr func err k (map fst es) (map Some q) (Some ` v) s =
     bind_outcome (run_edges func (map (port_edge k) es) s)
       (\<lambda>_ s1. case bfs_scan (map (port_edge k) es) q v of
          (q1, v1) \<Rightarrow> Returned (map Some q1, Some ` v1) s1)"
  using assms(5,6)
proof (induction es arbitrary: q v s)
  case (Cons e es)
  have e: "e \<in> set (portmap (kout K))" using Cons.prems by simp
  obtain b KB where b: "smap_ok (portmap (kout K))" "other_kernel (snd e) = Some b"
      "heap g b = Some KB" "other_name (snd e) \<in> fst ` set (portmap (kin KB))"
    using assms(1-3) e unfolding connected_def by fastforce
  have be: "bfs_edge gr func err (k, Out, fst e) s = func (fst (port_edge k e)) (snd (port_edge k e)) s"
    using bfs_edge_connected [where gr = gr and s = s, OF Cons.prems(1) assms(3) b(1) e b(2-4)] .
  show ?case
  proof (cases "func (fst (port_edge k e)) (snd (port_edge k e)) s")
    case (Returned u s1)
    then have w: "same_wires g (gr s1)"
      using assms(4) Cons.prems(1) same_wires_trans unfolding keeps_wires_def by blast
    have "get_info (k, Out, fst e) g = Some (snd e)"
      using assms(3) b(1) e smap_find_in [of "portmap (kout K)" "fst e" "snd e"]
      by (simp add: get_info.simps smap_ok_def)
    then obtain pi where pi: "get_info (k, Out, fst e) (gr s1) = Some pi" "other_kernel pi = Some b"
      using same_wires_info [OF w, of k "fst e"] b(2)
      by (cases "get_info (k, Out, fst e) (gr s1)") auto
    have h: "head_of (port_edge k e) = b" using b(2) by (simp add: head_of_def port_edge_def)
    have m: "Some b \<in> Some ` v \<longleftrightarrow> b \<in> v" by auto
    have es: "set es \<subseteq> set (portmap (kout K))" using Cons.prems(2) by simp
    note IH = Cons.IH [OF w es]
    show ?thesis
    proof (cases "b \<in> v")
      case True
      then show ?thesis using Returned pi be h m IH [of q v] by simp
    next
      case False
      then show ?thesis using Returned pi be h m IH [of "q @ [b]" "insert b v"] by simp
    qed
  qed (simp_all add: be)
qed simp

lemma bfs_loop_run:
  assumes "connected g V" and "keeps_wires gr func"
    and "same_wires g (gr s)" and "set q \<subseteq> v" and "v \<subseteq> V"
    and "bfs_walk (out_edges g) fuel q v = Some L"
  shows "bfs_loop gr func err fuel (map Some q) (Some ` v) s = run_edges func L s"
  using assms(3-)
proof (induction fuel arbitrary: q v s L)
  case 0
  then show ?case by (cases q) auto
next
  case (Suc fuel)
  show ?case
  proof (cases q)
    case Nil
    then show ?thesis using Suc.prems by auto
  next
    case (Cons k q0)
    have kV: "k \<in> V" using Cons Suc.prems by auto
    obtain K where K: "heap g k = Some K" using assms(1) kV unfolding connected_def by blast
    have eq: "out_edges g k = map (port_edge k) (portmap (kout K))" by (rule out_edges_alt [OF K])
    obtain q1 v1 where scan: "bfs_scan (out_edges g k) q0 v = (q1, v1)"
      by (cases "bfs_scan (out_edges g k) q0 v")
    obtain L1 where L1: "bfs_walk (out_edges g) fuel q1 v1 = Some L1" "L = out_edges g k @ L1"
      using Suc.prems(4) Cons scan by auto
    obtain K' where K': "heap (gr s) k = Some K'" "kernel_wires K' = kernel_wires K"
      using same_wires_heap [OF Suc.prems(1) K] .
    have keys: "map fst (portmap (kout K')) = map fst (portmap (kout K))"
    proof -
      have "map fst (fst (kernel_wires K')) = map fst (fst (kernel_wires K))" using K'(2) by simp
      then show ?thesis by (simp add: kernel_wires_def comp_def)
    qed
    have heads: "head_of ` set (out_edges g k) \<subseteq> V"
      using assms(1) kV K unfolding eq connected_def
      by (fastforce simp: head_of_def port_edge_def)
    have sub: "set q1 \<subseteq> v1 \<and> v1 \<subseteq> V"
    proof -
      have "bfs_scan es q v = (q', v') \<Longrightarrow> set q \<subseteq> v \<Longrightarrow> v \<subseteq> V \<Longrightarrow> head_of ` set es \<subseteq> V
          \<Longrightarrow> set q' \<subseteq> v' \<and> v' \<subseteq> V" for es :: "'a edge list" and q v q' v'
      proof (induction es arbitrary: q v)
        case (Cons e es)
        show ?case
        proof (cases "head_of e \<in> v")
          case True
          then show ?thesis using Cons by simp
        next
          case False
          then show ?thesis
            using Cons.IH [of "q @ [head_of e]" "insert (head_of e) v"] Cons.prems by auto
        qed
      qed auto
      from this [OF scan] show ?thesis using Suc.prems(2,3) Cons heads by auto
    qed
    have ports: "bfs_ports gr func err k (map fst (portmap (kout K))) (map Some q0) (Some ` v) s =
       bind_outcome (run_edges func (out_edges g k) s) (\<lambda>_ s1. Returned (map Some q1, Some ` v1) s1)"
      using bfs_ports_run [OF assms(1) kV K assms(2) Suc.prems(1) subset_refl, of err q0 v] scan
      by (simp add: eq)
    have kept: "same_wires g (gr s1)" if "run_edges func es s = Returned u s1" for es u s1
      using that Suc.prems(1)
    proof (induction es arbitrary: s)
      case (Cons e es)
      then obtain u2 s2 where s2: "func (fst e) (snd e) s = Returned u2 s2" "run_edges func es s2 = Returned u s1"
        by (cases "func (fst e) (snd e) s") auto
      then have "same_wires g (gr s2)"
        using assms(2) Cons.prems(2) same_wires_trans unfolding keeps_wires_def by blast
      then show ?case using Cons.IH [OF s2(2)] by simp
    qed auto
    show ?thesis
    proof (cases "run_edges func (out_edges g k) s")
      case (Returned u s1)
      then show ?thesis
        using Suc.IH [OF kept [OF Returned] _ _ L1(1)] sub Cons K' keys ports L1(2)
        by (simp add: run_edges_append)
    qed (use Cons K' keys ports L1(2) in \<open>simp_all add: run_edges_append\<close>)
  qed
qed

lemma out_edges_distinct:
  assumes "heap_sorted g"
  shows "distinct (out_edges g k)"
proof (cases "heap g k")
  case None
  then show ?thesis by (simp add: out_edges_def)
next
  case (Some K)
  then have "distinct (map fst (portmap (kout K)))"
    using assms by (auto simp: heap_sorted_def smap_ok_def)
  then have "distinct (map (\<lambda>e. (snd (snd (fst e)))) (out_edges g k))"
    using Some by (simp add: out_edges_def comp_def)
  then show ?thesis by (simp only: distinct_map)
qed

lemma out_edges_from: "e \<in> set (out_edges g k) \<Longrightarrow> fst (fst e) = k"
  by (auto simp: out_edges_def split: option.splits)

lemma distinct_out_edges:
  assumes "heap_sorted g" and "distinct ks"
  shows "distinct (concat (map (out_edges g) ks))"
  using assms(2)
proof (induction ks)
  case (Cons k ks)
  have "fst (fst e) \<in> set ks" if "e \<in> set (concat (map (out_edges g) ks))" for e
    using that out_edges_from by fastforce
  then have "set (out_edges g k) \<inter> set (concat (map (out_edges g) ks)) = {}"
    using Cons.prems out_edges_from by fastforce
  then show ?case using Cons out_edges_distinct [OF assms(1)] by simp
qed simp

lemma connected_heads:
  assumes "connected g V"
  shows "\<forall>k \<in> V. head_of ` set (out_edges g k) \<subseteq> V"
proof
  fix k assume "k \<in> V"
  then obtain K where K: "heap g k = Some K" using assms unfolding connected_def by blast
  show "head_of ` set (out_edges g k) \<subseteq> V"
    using assms \<open>k \<in> V\<close> K unfolding out_edges_alt [OF K] connected_def
    by (fastforce simp: head_of_def port_edge_def)
qed

lemma bfs_calls_each_edge_gen:
  assumes "connected (gr s) V" and "finite V" and "S \<subseteq> V" and "card V \<le> fuel"
    and "keeps_wires gr func" and "heap_sorted (gr s)"
  shows "\<exists>ks. distinct ks \<and> set ks = reachable_from (out_edges (gr s)) S
     \<and> distinct (concat (map (out_edges (gr s)) ks))
     \<and> BFS_edges gr func err fuel S s = run_edges func (concat (map (out_edges (gr s)) ks)) s"
proof -
  let ?q = "keeper_list S"
  have q: "set ?q = S" "distinct ?q"
    using finite_subset [OF assms(3,2)] by (simp_all add: keeper_list_def)
  have "\<forall>k \<in> V. head_of ` set (out_edges (gr s) k) \<subseteq> V" by (rule connected_heads [OF assms(1)])
  then obtain ks where ks: "bfs_walk (out_edges (gr s)) fuel ?q (set ?q) = Some (concat (map (out_edges (gr s)) ks))"
      "distinct ks" "set ks = reachable_from (out_edges (gr s)) (set ?q)"
    using bfs_walk_reachable [of V "out_edges (gr s)" ?q fuel] assms(2-4) q by auto
  have "BFS_edges gr func err fuel S s = run_edges func (concat (map (out_edges (gr s)) ks)) s"
    unfolding BFS_edges_def
    using bfs_loop_run [where gr = gr and s = s and g = "gr s" and V = V and q = ?q and v = S and fuel = fuel]
      assms(1,3,5) ks(1) q by simp
  then show ?thesis
    using ks(2,3) distinct_out_edges [OF assms(6) ks(2)] unfolding q(1) by (intro exI [of _ ks] conjI)
qed

text \<open>
  C13: BFS over a connected graph calls its function exactly once for each edge that leaves a
  kernel reachable from the sources, kernel by kernel, and returns (its queue runs empty after at
  most one pass per kernel) unless the function throws.
\<close>

theorem bfs_calls_each_edge_once:
  assumes "connected (gr s) V" and "finite V" and "S \<subseteq> V" and "card V \<le> fuel"
    and "keeps_wires gr func" and "heap_sorted (gr s)"
  shows "\<exists>ks. distinct ks \<and> set ks = reachable_from (out_edges (gr s)) S
     \<and> distinct (concat (map (out_edges (gr s)) ks))
     \<and> BFS_edges gr func err fuel S s = run_edges func (concat (map (out_edges (gr s)) ks)) s"
  using assms by (rule bfs_calls_each_edge_gen)

text \<open>A small graph: 1 leads to 2 and 3, both lead to 4.\<close>

definition diamond_port :: "nat \<Rightarrow> nat \<Rightarrow> nat \<Rightarrow> nat \<Rightarrow> nat \<times> (nat, nat) PortInfo" where
  "diamond_port k n b m = (n, (fresh_info 0 8 k n)\<lparr>other_kernel := Some b, other_name := m\<rparr>)"

definition diamond_kernel ::
  "nat \<Rightarrow> (nat \<times> (nat, nat) PortInfo) list \<Rightarrow> (nat \<times> (nat, nat) PortInfo) list \<Rightarrow> (nat, nat) kernel" where
  "diamond_kernel k ins outs =
     (fst (kernel_new k 0))\<lparr>kin := (Port_new k)\<lparr>portmap := ins\<rparr>, kout := (Port_new k)\<lparr>portmap := outs\<rparr>\<rparr>"

definition diamond :: "(nat, nat) map_state" where
  "diamond = map_new
     [1 \<mapsto> diamond_kernel 1 [] [diamond_port 1 11 2 21, diamond_port 1 12 3 31],
      2 \<mapsto> diamond_kernel 2 [diamond_port 2 21 1 11] [diamond_port 2 22 4 41],
      3 \<mapsto> diamond_kernel 3 [diamond_port 3 31 1 12] [diamond_port 3 32 4 42],
      4 \<mapsto> diamond_kernel 4 [diamond_port 4 41 2 22, diamond_port 4 42 3 32] []] 5"

lemmas diamond_simps =
  diamond_def map_new_def diamond_kernel_def diamond_port_def kernel_new_def Port_new_def
  fresh_info_def PortInfo_new_def

lemma diamond_sorted: "heap_sorted diamond"
  by (auto simp: heap_sorted_def smap_ok_def diamond_simps split: if_splits)

lemma diamond_connected: "connected diamond {1, 2, 3, 4}"
  by (simp add: connected_def smap_ok_def diamond_simps)

text \<open>An edge function that keeps a log.\<close>

definition log_edge :: "(nat, (nat, nat) map_state \<times> (nat \<times> nat) list) edge_func" where
  "log_edge r q s = Returned () (fst s, snd s @ [(fst r, fst q)])"

lemma log_edge_keeps: "keeps_wires fst log_edge"
  by (simp add: keeps_wires_def log_edge_def)

theorem bfs_calls_each_edge_once_witness:
  "\<exists>ks. distinct ks \<and> set ks = reachable_from (out_edges diamond) {1}
     \<and> distinct (concat (map (out_edges diamond) ks))
     \<and> BFS_edges fst log_edge True 4 {1} (diamond, []) =
         run_edges log_edge (concat (map (out_edges diamond) ks)) (diamond, [])"
  using bfs_calls_each_edge_once [of fst "(diamond, [])" "{1, 2, 3, 4}" "{1}" 4 log_edge True]
    diamond_connected log_edge_keeps diamond_sorted by simp

text \<open>
  Fact: A port that is not connected ends a traversal early when it is not an error: the null
  pointer it leads to is queued like a kernel, and the loop stops there.  In this graph kernel 4,
  which both remaining kernels lead to, is left without a call for its edge.
\<close>

theorem bfs_stops_at_null:
  "case BFS_edges fst log_edge False 9 {1}
       (diamond\<lparr>heap := (heap diamond)(1 \<mapsto> diamond_kernel 1 []
           [(10, fresh_info 0 8 1 10), diamond_port 1 11 2 21, diamond_port 1 12 3 31])\<rparr>, [])
   of Returned u s \<Rightarrow> snd s = [(1, 2), (1, 3)]
    | _ \<Rightarrow> False"
  by code_simp

text \<open>
  Fact: The traversal over vertices skips unconnected ports instead and visits each kernel that is
  reachable once; here in the order 1, 2, 3, 4.
\<close>

theorem bfs_vertices_skip_null:
  "case BFS_vertices fst (\<lambda>k s. Returned () (fst s, snd s @ [k])) 9 {1}
       (diamond\<lparr>heap := (heap diamond)(1 \<mapsto> diamond_kernel 1 []
           [(10, fresh_info 0 8 1 10), diamond_port 1 11 2 21, diamond_port 1 12 3 31])\<rparr>, [])
   of Returned u s \<Rightarrow> snd s = [1, 2, 3, 4]
    | _ \<Rightarrow> False"
  by code_simp

section \<open>The traversal over vertices\<close>

text \<open>The edges that leave a kernel by its connected ports, and a set of kernels they do not leave.\<close>

definition link_edges :: "('k, 't) map_state \<Rightarrow> nat \<Rightarrow> 'k edge list" where
  "link_edges g k =
     (case heap g k of
        None \<Rightarrow> []
      | Some K \<Rightarrow>
          map (\<lambda>(n, b, m). ((k, Out, n), (the b, In, m)))
            (filter (\<lambda>(n, b, m). b \<noteq> None) (fst (kernel_wires K))))"

definition linked :: "('k :: linorder, 't) map_state \<Rightarrow> nat set \<Rightarrow> bool" where
  "linked g V \<longleftrightarrow>
     (\<forall>k \<in> V. \<exists>K. heap g k = Some K \<and> smap_ok (portmap (kout K))
        \<and> (\<forall>e \<in> set (link_edges g k). head_of e \<in> V))"

definition visit_keeps_wires :: "('s \<Rightarrow> ('k, 't) map_state) \<Rightarrow> (nat \<Rightarrow> 's \<Rightarrow> (unit, 's) outcome) \<Rightarrow> bool" where
  "visit_keeps_wires gr func \<longleftrightarrow> (\<forall>k s u s'. func k s = Returned u s' \<longrightarrow> same_wires (gr s) (gr s'))"

lemma link_edges_same_wires:
  assumes "same_wires g g'"
  shows "link_edges g' k = link_edges g k"
proof -
  have "map_option kernel_wires (heap g k) = map_option kernel_wires (heap g' k)"
    using assms by (simp add: same_wires_def)
  then show ?thesis by (auto simp: link_edges_def split: option.splits)
qed

lemma kernel_wires_keys:
  assumes "kernel_wires K = kernel_wires K'"
  shows "map fst (portmap (kout K)) = map fst (portmap (kout K'))"
proof -
  have "map fst (fst (kernel_wires K)) = map fst (portmap (kout K))" for K :: "('k, 't) kernel"
    by (simp add: kernel_wires_def comp_def)
  then show ?thesis using assms by metis
qed

lemma linked_same_wires:
  assumes "linked g V" and "same_wires g g'"
  shows "linked g' V"
  unfolding linked_def
proof
  fix k assume "k \<in> V"
  then obtain K where K: "heap g k = Some K" "smap_ok (portmap (kout K))"
      "\<forall>e \<in> set (link_edges g k). head_of e \<in> V"
    using assms(1) by (auto simp: linked_def)
  obtain K' where K': "heap g' k = Some K'" "kernel_wires K' = kernel_wires K"
    using same_wires_heap [OF assms(2) K(1)] .
  then have "smap_ok (portmap (kout K'))"
    using K(2) kernel_wires_keys [OF K'(2)] by (simp add: smap_ok_def)
  then show "\<exists>K. heap g' k = Some K \<and> smap_ok (portmap (kout K))
      \<and> (\<forall>e \<in> set (link_edges g' k). head_of e \<in> V)"
    using K' K(3) link_edges_same_wires [OF assms(2)] by auto
qed

lemma vertex_ports_scan:
  assumes "heap g k = Some K" and "smap_ok (portmap (kout K))"
  shows "vertex_ports g k (map fst (portmap (kout K))) q v = bfs_scan (link_edges g k) q v"
proof -
  have "vertex_ports g k (map fst xs) q v =
      bfs_scan (map (\<lambda>(n, b, m). ((k, Out, n), (the b, In, m)))
        (filter (\<lambda>(n, b, m). b \<noteq> None) (map (\<lambda>e. (fst e, other_kernel (snd e), other_name (snd e))) xs))) q v"
    if "set xs \<subseteq> set (portmap (kout K))" for xs
    using that
  proof (induction xs arbitrary: q v)
    case (Cons e xs)
    have "smap_find (portmap (kout K)) (fst e) = Some (snd e)"
      using assms(2) Cons.prems by (intro smap_find_in) (auto simp: smap_ok_def)
    then have "get_info (k, Out, fst e) g = Some (snd e)"
      using assms(1) by (simp add: get_info.simps)
    then show ?case using Cons by (auto simp: head_of_def split: option.splits)
  qed simp
  from this [of "portmap (kout K)"] show ?thesis
    using assms(1) by (simp add: link_edges_def kernel_wires_def)
qed

lemma vertex_loop_visits:
  assumes "linked (gr s) V" and "set q \<subseteq> V" and "v \<subseteq> V" and "visit_keeps_wires gr func"
    and "bfs_order (link_edges (gr s)) fuel q v = Some ks" and "set q \<subseteq> v" and "distinct q"
  shows "vertex_loop gr func fuel q v s = visit_all func ks s"
  using assms
proof (induction fuel arbitrary: q v s ks)
  case 0
  then show ?case by (cases q) auto
next
  case (Suc fuel)
  show ?case
  proof (cases q)
    case (Cons k q0)
    obtain q1 v1 where qv: "bfs_scan (link_edges (gr s) k) q0 v = (q1, v1)"
      by (cases "bfs_scan (link_edges (gr s) k) q0 v")
    then obtain ks1 where ks: "ks = k # ks1" "bfs_order (link_edges (gr s)) fuel q1 v1 = Some ks1"
      using Suc.prems(5) Cons by auto
    have q0: "distinct q0" "set q0 \<subseteq> v" "k \<in> V" using Suc.prems Cons by auto
    show ?thesis
    proof (cases "func k s")
      case (Returned u s1)
      have sw: "same_wires (gr s) (gr s1)" using Suc.prems(4) Returned by (auto simp: visit_keeps_wires_def)
      have lk: "linked (gr s1) V" by (rule linked_same_wires [OF Suc.prems(1) sw])
      then obtain K where K: "heap (gr s1) k = Some K" "smap_ok (portmap (kout K))"
        using q0(3) by (auto simp: linked_def)
      have le: "link_edges (gr s1) = link_edges (gr s)" using link_edges_same_wires [OF sw] by auto
      have r: "v1 = v \<union> head_of ` set (link_edges (gr s) k)"
        "set q1 = set q0 \<union> (head_of ` set (link_edges (gr s) k) - v)" "distinct q1" "set q1 \<subseteq> v1"
        using bfs_scan_result [OF qv q0(1,2)] by auto
      have "head_of ` set (link_edges (gr s) k) \<subseteq> V"
        using Suc.prems(1) q0(3) by (auto simp: linked_def)
      then have "set q1 \<subseteq> V" "v1 \<subseteq> V" using r(1,2) Suc.prems(2,3) Cons by auto
      moreover have "bfs_order (link_edges (gr s1)) fuel q1 v1 = Some ks1" using ks(2) le by simp
      ultimately have "vertex_loop gr func fuel q1 v1 s1 = visit_all func ks1 s1"
        by (rule Suc.IH [OF lk _ _ Suc.prems(4) _ r(4,3)])
      then show ?thesis
        using Cons Returned K vertex_ports_scan [OF K] qv le ks(1) by simp
    qed (simp_all add: Cons ks(1))
  qed (use Suc.prems in simp)
qed

lemma BFS_vertices_visits:
  assumes "linked (gr s) V" and "finite V" and "S \<subseteq> V" and "card V \<le> fuel"
    and "visit_keeps_wires gr func"
  shows "\<exists>ks. distinct ks \<and> set ks = reachable_from (link_edges (gr s)) S
     \<and> BFS_vertices gr func fuel S s = visit_all func ks s"
proof -
  let ?q = "keeper_list S"
  have q: "set ?q = S" "distinct ?q"
    using finite_subset [OF assms(3,2)] by (simp_all add: keeper_list_def)
  have "\<forall>k \<in> V. head_of ` set (link_edges (gr s) k) \<subseteq> V" using assms(1) by (auto simp: linked_def)
  then obtain ks where "bfs_order (link_edges (gr s)) fuel ?q (set ?q) = Some ks" "distinct ks"
      "set ks = reachable_from (link_edges (gr s)) (set ?q)"
    using bfs_order_reachable [of V "link_edges (gr s)" ?q fuel] assms(2-4) q by auto
  then show ?thesis
    unfolding BFS_vertices_def
    using vertex_loop_visits [OF assms(1) _ _ assms(5)] assms(3) q by (intro exI [of _ ks]) auto
qed

text \<open>
  C26: The traversal over vertices calls its function exactly once for each kernel that can be
  reached from the sources along connected ports, whether or not other ports are connected, and
  ends after at most one pass of its loop per kernel.
\<close>

theorem bfs_visits_each_kernel_once:
  assumes "linked (gr s) V" and "finite V" and "S \<subseteq> V" and "card V \<le> fuel"
    and "visit_keeps_wires gr func"
  shows "\<exists>ks. distinct ks \<and> set ks = reachable_from (link_edges (gr s)) S
     \<and> BFS_vertices gr func fuel S s = visit_all func ks s"
  using assms by (rule BFS_vertices_visits)

definition log_kernel :: "nat \<Rightarrow> (nat, nat) map_state \<times> nat list \<Rightarrow> (unit, (nat, nat) map_state \<times> nat list) outcome" where
  "log_kernel k s = Returned () (fst s, snd s @ [k])"

text \<open>The small graph with an unconnected port at kernel 1.\<close>

definition loose_diamond :: "(nat, nat) map_state" where
  "loose_diamond = diamond\<lparr>heap := (heap diamond)(1 \<mapsto> diamond_kernel 1 []
     [(10, fresh_info 0 8 1 10), diamond_port 1 11 2 21, diamond_port 1 12 3 31])\<rparr>"

theorem bfs_visits_each_kernel_once_witness:
  "\<exists>ks. distinct ks \<and> set ks = reachable_from (link_edges loose_diamond) {1}
     \<and> BFS_vertices fst log_kernel 4 {1} (loose_diamond, []) = visit_all log_kernel ks (loose_diamond, [])"
proof -
  have "map head_of (link_edges loose_diamond 1) = [2, 3]" "map head_of (link_edges loose_diamond 2) = [4]"
    "map head_of (link_edges loose_diamond 3) = [4]" "link_edges loose_diamond 4 = []"
    by code_simp+
  then have "head_of ` set (link_edges loose_diamond 1) = {2, 3}" "head_of ` set (link_edges loose_diamond 2) = {4}"
    "head_of ` set (link_edges loose_diamond 3) = {4}" "link_edges loose_diamond 4 = []"
    by (simp_all flip: set_map)
  then have "\<forall>e \<in> set (link_edges loose_diamond k). head_of e \<in> {1, 2, 3, 4}" if "k \<in> {1, 2, 3, 4}" for k
    using that by auto
  then have "linked loose_diamond {1, 2, 3, 4}"
    by (auto simp: linked_def loose_diamond_def smap_ok_def diamond_simps)
  moreover have "visit_keeps_wires fst log_kernel" by (simp add: visit_keeps_wires_def log_kernel_def)
  ultimately show ?thesis
    using bfs_visits_each_kernel_once [of fst "(loose_diamond, [])" "{1, 2, 3, 4}" "{1}" 4 log_kernel] by simp
qed

end
