(* ===== verification/Scotch_Tables.thy ===== *)
theory Scotch_Tables
  imports Prelude
begin

text \<open>
  The graph the partitioner hands to the Scotch library, raftinc/graph.tcc: an ordered map of
  adjacency lists, filled edge by edge with a back edge for each edge, and its flat form, the
  vertex table with the offset of each vertex's arcs and the tables of heads and weights.
  Vertex numbers and weights are int; they number kernels and stay far below their 32 bits.
\<close>

type_synonym arc = "int \<times> int"

record raft_graph =
  edgelist :: "(int \<times> arc list) list"
  vertex_hash :: "int set"

definition graph_new :: raft_graph where
  "graph_new = \<lparr>edgelist = [], vertex_hash = {}\<rparr>"

text \<open>__addEdge: one direction.\<close>

definition add_arc :: "int \<Rightarrow> int \<Rightarrow> int \<Rightarrow> raft_graph \<Rightarrow> raft_graph" where
  "add_arc src dst weight g =
     (case smap_find (edgelist g) src of
        None \<Rightarrow>
          g\<lparr>edgelist := smap_insert src [(dst, weight)] (edgelist g),
             vertex_hash := insert dst (insert src (vertex_hash g))\<rparr>
      | Some v \<Rightarrow>
          g\<lparr>edgelist := smap_update (edgelist g) src (\<lambda>v. v @ [(dst, weight)]),
             vertex_hash := insert dst (vertex_hash g)\<rparr>)"

definition addEdge :: "int \<Rightarrow> int \<Rightarrow> int \<Rightarrow> raft_graph \<Rightarrow> raft_graph" where
  "addEdge src dst weight g = add_arc dst src weight (add_arc src dst weight g)"

record scotch_tables =
  vtable :: "int list"
  etable :: "int list"
  eweight :: "int list"
  num_vertices :: nat
  num_edges :: nat

text \<open>
  The loop over the vertices: the offsets, the heads and the weights so far, and edge_index.
  operator [] on a vertex without a list gives a null pointer.
\<close>

fun table_loop ::
  "raft_graph \<Rightarrow> int \<Rightarrow> int list \<Rightarrow> int list \<Rightarrow> int list \<Rightarrow> int list \<Rightarrow> int \<Rightarrow> (scotch_tables, raft_graph) outcome" where
  "table_loop g first_vertex [] offsets heads weights edge_index =
     Returned \<lparr>vtable = offsets @ [edge_index], etable = heads, eweight = weights,
                num_vertices = card (vertex_hash g), num_edges = length heads\<rparr> g"
| "table_loop g first_vertex (v # vs) offsets heads weights edge_index =
     (case smap_find (edgelist g) v of
        None \<Rightarrow> Fault NullDereference
      | Some dstlist \<Rightarrow>
          table_loop g first_vertex vs (offsets @ [edge_index])
            (heads @ map (\<lambda>e. fst e - first_vertex) dstlist) (weights @ map snd dstlist)
            (edge_index + int (length dstlist)))"

definition getScotchTables :: "raft_graph \<Rightarrow> (scotch_tables, raft_graph) outcome" where
  "getScotchTables g =
     (case sorted_list_of_set (vertex_hash g) of
        [] \<Rightarrow> Fault OutOfRange
      | first_vertex # vs \<Rightarrow> table_loop g first_vertex (first_vertex # vs) [] [] [] 0)"

section \<open>The adjacency lists\<close>

type_synonym wedge = "int \<times> int \<times> int"

definition graph_of :: "wedge list \<Rightarrow> raft_graph" where
  "graph_of es = fold (\<lambda>(a, b, w). addEdge a b w) es graph_new"

text \<open>The arcs of a vertex: each edge counts at both its ends.\<close>

definition arcs_of :: "wedge list \<Rightarrow> int \<Rightarrow> arc list" where
  "arcs_of es v =
     concat (map (\<lambda>(a, b, w). (if a = v then [(b, w)] else []) @ (if b = v then [(a, w)] else [])) es)"

definition vertices_of :: "wedge list \<Rightarrow> int set" where
  "vertices_of es = fst ` set es \<union> (fst \<circ> snd) ` set es"

lemma arcs_of_simps [simp]:
  "arcs_of [] v = []"
  "arcs_of (es @ [(a, b, w)]) v =
     arcs_of es v @ (if a = v then [(b, w)] else []) @ (if b = v then [(a, w)] else [])"
  by (simp_all add: arcs_of_def)

lemma vertices_of_simps [simp]:
  "vertices_of [] = {}" "vertices_of (es @ [(a, b, w)]) = insert a (insert b (vertices_of es))"
  "finite (vertices_of es)"
  by (auto simp: vertices_of_def)

lemma graph_of_snoc [simp]: "graph_of [] = graph_new" "graph_of (es @ [(a, b, w)]) = addEdge a b w (graph_of es)"
  by (simp_all add: graph_of_def)

definition list_at :: "raft_graph \<Rightarrow> int \<Rightarrow> arc list" where
  "list_at g v = (case smap_find (edgelist g) v of None \<Rightarrow> [] | Some l \<Rightarrow> l)"

text \<open>What one __addEdge does to the lists, the keys and the vertices.\<close>

lemma add_arc_effect:
  assumes "smap_ok (edgelist g)"
  shows "smap_ok (edgelist (add_arc a b w g))"
    and "list_at (add_arc a b w g) v = list_at g v @ (if a = v then [(b, w)] else [])"
    and "fst ` set (edgelist (add_arc a b w g)) = insert a (fst ` set (edgelist g))"
    and "fst ` set (edgelist g) \<subseteq> vertex_hash g \<Longrightarrow>
      vertex_hash (add_arc a b w g) = insert a (insert b (vertex_hash g))"
proof -
  have keys: "fst ` set (smap_update m k f) = fst ` set m" for m :: "(int \<times> arc list) list" and k f
    using smap_update_keys [of m k f] by (metis list.set_map)
  show "smap_ok (edgelist (add_arc a b w g))"
    using assms by (auto simp: add_arc_def smap_insert_ok split: option.splits)
  show "list_at (add_arc a b w g) v = list_at g v @ (if a = v then [(b, w)] else [])"
    using assms
    by (auto simp: add_arc_def list_at_def smap_ok_def smap_find_insert smap_find_update split: option.splits)
  show "fst ` set (edgelist (add_arc a b w g)) = insert a (fst ` set (edgelist g))"
    using smap_find_Some_in [of "edgelist g" a]
    by (auto simp: add_arc_def smap_insert_keys keys split: option.splits intro: rev_image_eqI)
  show "vertex_hash (add_arc a b w g) = insert a (insert b (vertex_hash g))"
    if "fst ` set (edgelist g) \<subseteq> vertex_hash g"
  proof (cases "smap_find (edgelist g) a")
    case None
    then show ?thesis by (auto simp: add_arc_def)
  next
    case (Some l)
    then have "a \<in> vertex_hash g" using smap_find_Some_in that by force
    then show ?thesis using Some by (auto simp: add_arc_def)
  qed
qed

lemma graph_of_lists:
  "smap_ok (edgelist (graph_of es)) \<and> (\<forall>v. list_at (graph_of es) v = arcs_of es v)
   \<and> fst ` set (edgelist (graph_of es)) = vertices_of es \<and> vertex_hash (graph_of es) = vertices_of es"
proof (induction es rule: rev_induct)
  case Nil
  then show ?case by (simp add: graph_new_def smap_ok_def list_at_def)
next
  case (snoc e es)
  obtain a b w where e: "e = (a, b, w)" by (cases e)
  let ?g = "graph_of es" and ?g1 = "add_arc a b w (graph_of es)"
  have g: "smap_ok (edgelist ?g)" "fst ` set (edgelist ?g) \<subseteq> vertex_hash ?g" using snoc by auto
  note 1 = add_arc_effect [OF g(1), of a b w]
  have "fst ` set (edgelist ?g1) \<subseteq> vertex_hash ?g1" unfolding 1(3) 1(4) [OF g(2)] using g(2) by auto
  note 2 = add_arc_effect(1-3) [OF 1(1), of b a w] add_arc_effect(4) [OF 1(1) this, of b a w]
  show ?case
    unfolding e graph_of_snoc addEdge_def 2(2-4)
    using 2(1) snoc unfolding 1(2,3) 1(4) [OF g(2)] by auto
qed

section \<open>The flat tables\<close>

fun offsets_from :: "int \<Rightarrow> 'a list list \<Rightarrow> int list" where
  "offsets_from e [] = [e]"
| "offsets_from e (l # ls) = e # offsets_from (e + int (length l)) ls"

lemma length_offsets_from [simp]: "length (offsets_from e ls) = length ls + 1"
  by (induction ls arbitrary: e) auto

lemma offsets_from_nth: "i \<le> length ls \<Longrightarrow> offsets_from e ls ! i = e + int (length (concat (take i ls)))"
proof (induction ls arbitrary: e i)
  case (Cons l ls)
  then show ?case by (cases i) auto
qed simp

lemma table_loop_lists:
  assumes "\<forall>v \<in> set vs. list_at g v \<noteq> []"
  shows "table_loop g f vs off heads weights e =
     (let arcs = concat (map (list_at g) vs)
      in Returned \<lparr>vtable = off @ offsets_from e (map (list_at g) vs),
                    etable = heads @ map (\<lambda>a. fst a - f) arcs, eweight = weights @ map snd arcs,
                    num_vertices = card (vertex_hash g), num_edges = length heads + length arcs\<rparr> g)"
  using assms
proof (induction vs arbitrary: off heads weights e)
  case (Cons v vs)
  then obtain l where l: "smap_find (edgelist g) v = Some l" "list_at g v = l"
    by (auto simp: list_at_def split: option.splits)
  show ?case using Cons.IH Cons.prems l by (simp add: Let_def)
qed simp

text \<open>The arcs a row of the tables stands for, between two neighbouring offsets.\<close>

definition table_row :: "scotch_tables \<Rightarrow> nat \<Rightarrow> arc list" where
  "table_row t i =
     map (\<lambda>k. (etable t ! k, eweight t ! k)) [nat (vtable t ! i)..<nat (vtable t ! Suc i)]"

lemma map_nth_slice:
  assumes "i < length ls"
  shows "map (\<lambda>k. concat ls ! k) [length (concat (take i ls))..<length (concat (take (Suc i) ls))] = ls ! i"
proof -
  have c: "concat ls = concat (take i ls) @ ls ! i @ concat (drop (Suc i) ls)"
    using id_take_nth_drop [OF assms] by (metis concat.simps(2) concat_append)
  have "length (concat (take (Suc i) ls)) = length (concat (take i ls)) + length (ls ! i)"
    using assms by (simp add: take_Suc_conv_app_nth)
  then show ?thesis by (intro nth_equalityI) (simp_all add: c nth_append)
qed

lemma getScotchTables_gen:
  assumes "es \<noteq> []"
  obtains t where "getScotchTables (graph_of es) = Returned t (graph_of es)"
    "num_vertices t = card (vertices_of es)" "length (vtable t) = num_vertices t + 1"
    "vtable t ! 0 = 0" "vtable t ! num_vertices t = int (num_edges t)"
    "length (etable t) = num_edges t" "length (eweight t) = num_edges t"
    "\<forall>i < num_vertices t. table_row t i =
       map (\<lambda>(b, w). (b - Min (vertices_of es), w)) (arcs_of es (sorted_list_of_set (vertices_of es) ! i))"
proof -
  let ?g = "graph_of es" and ?vs = "sorted_list_of_set (vertices_of es)"
  note g = graph_of_lists [of es]
  have ne: "vertices_of es \<noteq> {}" using assms by (auto simp: vertices_of_def)
  have vs: "set ?vs = vertices_of es" "length ?vs = card (vertices_of es)" by simp_all
  have "hd ?vs = Min (vertices_of es)" "?vs \<noteq> []"
    using ne by (simp_all add: sorted_list_of_set_nonempty)
  then obtain vs' where cons: "?vs = Min (vertices_of es) # vs'" by (cases ?vs) auto
  have "arcs_of es v \<noteq> []" if "v \<in> vertices_of es" for v
    using that by (fastforce simp: vertices_of_def arcs_of_def)
  then have "\<forall>v \<in> set ?vs. list_at ?g v \<noteq> []" using vs g by simp
  note loop = table_loop_lists [OF this, of "Min (vertices_of es)" "[]" "[]" "[]" 0]
  have arcs: "map (list_at ?g) ?vs = map (arcs_of es) ?vs" using g by simp
  let ?ls = "map (arcs_of es) ?vs"
  let ?t = "\<lparr>vtable = offsets_from 0 ?ls, etable = map (\<lambda>a. fst a - Min (vertices_of es)) (concat ?ls),
    eweight = map snd (concat ?ls), num_vertices = card (vertices_of es), num_edges = length (concat ?ls)\<rparr>"
  have ret: "getScotchTables ?g = Returned ?t ?g"
    using loop g unfolding arcs by (simp add: getScotchTables_def cons Let_def)
  have row: "table_row ?t i = map (\<lambda>(b, w). (b - Min (vertices_of es), w)) (?ls ! i)"
    if "i < card (vertices_of es)" for i
  proof -
    have i: "i < length ?ls" using that vs(2) by simp
    let ?I = "[length (concat (take i ?ls))..<length (concat (take (Suc i) ?ls))]"
    have lt: "k < length (concat ?ls)" if "k \<in> set ?I" for k
    proof -
      have "length (concat (take (Suc i) ?ls)) \<le> length (concat ?ls)"
        by (metis append_take_drop_id concat_append length_append le_add1)
      then show ?thesis using that by simp
    qed
    have "table_row ?t i = map (\<lambda>k. (etable ?t ! k, eweight ?t ! k)) ?I"
      using i by (simp add: table_row_def offsets_from_nth)
    also have "\<dots> = map (\<lambda>(b, w). (b - Min (vertices_of es), w)) (map (\<lambda>k. concat ?ls ! k) ?I)"
      using lt by (auto simp: case_prod_beta)
    also have "\<dots> = map (\<lambda>(b, w). (b - Min (vertices_of es), w)) (?ls ! i)"
      by (simp only: map_nth_slice [OF i])
    finally show ?thesis .
  qed
  show ?thesis
  proof (rule that [OF ret])
    show "\<forall>i < num_vertices ?t. table_row ?t i =
       map (\<lambda>(b, w). (b - Min (vertices_of es), w)) (arcs_of es (?vs ! i))"
      using row vs(2) by simp
  qed (simp_all add: vs(2) offsets_from_nth)
qed

text \<open>
  C16: The flat tables hold the graph: for any list of edges added to an empty graph the row of
  the vertex with the i-th smallest number lists, in the order of the calls, the edges at that
  vertex in both directions, each with its weight and its other end counted from the smallest
  vertex; the offsets start at 0 and end at the number of arcs.
\<close>

theorem tables_hold_graph:
  assumes "es \<noteq> []"
  shows "\<exists>t. getScotchTables (graph_of es) = Returned t (graph_of es)
     \<and> num_vertices t = card (vertices_of es) \<and> length (vtable t) = num_vertices t + 1
     \<and> vtable t ! 0 = 0 \<and> vtable t ! num_vertices t = int (num_edges t)
     \<and> (\<forall>i < num_vertices t. table_row t i =
          map (\<lambda>(b, w). (b - Min (vertices_of es), w))
            (arcs_of es (sorted_list_of_set (vertices_of es) ! i)))"
  by (rule getScotchTables_gen [OF assms]) blast

theorem tables_hold_graph_witness:
  "\<exists>t. getScotchTables (graph_of [(0, 1, 5), (0, 2, 7), (1, 2, 9)]) =
     Returned t (graph_of [(0, 1, 5), (0, 2, 7), (1, 2, 9)])
     \<and> num_vertices t = 3 \<and> length (vtable t) = 4"
proof -
  have "vertices_of [(0, 1, 5), (0, 2, 7), (1, 2, 9)] = {0, 1, 2}" by (auto simp: vertices_of_def)
  then show ?thesis using tables_hold_graph [of "[(0, 1, 5), (0, 2, 7), (1, 2, 9)]"] by auto
qed

end
