(* ===== verification/Partition.thy ===== *)
theory Partition
  imports Graph_Props Scotch_Tables
begin

text \<open>
  Assignment of kernels to cores: raftinc/interface_partition.hpp, src/partition_basic.cpp,
  src/partition_dummy.cpp and src/partition_scotch.cpp.  The Scotch library is a record of
  functions: the status each of its calls returns (0 for success), and for SCOTCH_graphMap the
  status and the partition it writes.  Acquiring and releasing the keeper is not modelled.
\<close>

definition set_core :: "nat \<Rightarrow> u64 \<Rightarrow> ('k, 't) map_state \<Rightarrow> (unit, ('k, 't) map_state) outcome" where
  "set_core a core g =
     (case heap g a of
        None \<Rightarrow> Fault UseAfterFree
      | Some K \<Rightarrow> Returned () (g\<lparr>heap := (heap g)(a \<mapsto> setCore core K)\<rparr>))"

section \<open>partition_basic and partition_dummy\<close>

fun basic_loop :: "u64 \<Rightarrow> nat list \<Rightarrow> u64 \<Rightarrow> ('k, 't) map_state \<Rightarrow> (unit, ('k, 't) map_state) outcome" where
  "basic_loop num_cores [] i g = Returned () g"
| "basic_loop num_cores (a # as) i g =
     bind_outcome (set_core a i g)
       (\<lambda>_ g1. if num_cores = 0 then Fault DivisionByZero
              else basic_loop num_cores as ((i + 1) mod num_cores) g1)"

definition partition_basic :: "u64 \<Rightarrow> nat set \<Rightarrow> ('k, 't) map_state \<Rightarrow> (unit, ('k, 't) map_state) outcome" where
  "partition_basic num_cores c g = basic_loop num_cores (keeper_list c) 0 g"

definition partition_dummy :: "nat set \<Rightarrow> ('k, 't) map_state \<Rightarrow> (unit, ('k, 't) map_state) outcome" where
  "partition_dummy c g = Returned () g"

section \<open>partition_scotch\<close>

fun simple_loop :: "nat list \<Rightarrow> u64 \<Rightarrow> ('k, 't) map_state \<Rightarrow> (unit, ('k, 't) map_state) outcome" where
  "simple_loop [] i g = Returned () g"
| "simple_loop (a # as) i g = bind_outcome (set_core a i g) (\<lambda>_ g1. simple_loop as (i + 1) g1)"

definition simple_check :: "nat set \<Rightarrow> nat \<Rightarrow> ('k, 't) map_state \<Rightarrow> (bool, ('k, 't) map_state) outcome" where
  "simple_check c cores g =
     (if card c \<le> cores
      then (case simple_loop (keeper_list c) 0 g of
              Returned _ g1 \<Rightarrow> Returned True g1
            | Spin g1 \<Rightarrow> Spin g1
            | Raised e g1 \<Rightarrow> Raised e g1
            | Fault f \<Rightarrow> Fault f)
      else Returned False g)"

text \<open>
  The numbers of the kernels in the order of the container; operator [] makes the number of any
  other pointer 0.
\<close>

fun number_from :: "int \<Rightarrow> nat list \<Rightarrow> nat option \<Rightarrow> int" where
  "number_from n [] k = 0"
| "number_from n (a # as) k = (if k = Some a then n else number_from (n + 1) as k)"

definition graph_function ::
  "nat list \<Rightarrow> ('k port_ref \<Rightarrow> 'k port_ref \<Rightarrow> int) \<Rightarrow> ('k, ('k, 't) map_state \<times> raft_graph) edge_func" where
  "graph_function c weight_func a b s =
     (case (get_info a (fst s), get_info b (fst s)) of
        (Some pa, Some pb) \<Rightarrow>
          (let num_src = number_from 0 c (my_kernel pa);
               num_dst = number_from 0 c (my_kernel pb);
               weight = weight_func a b
           in Returned () (fst s, addEdge num_src num_dst weight (snd s)))
      | _ \<Rightarrow> Fault NullDereference)"

definition get_graph_info ::
  "nat \<Rightarrow> nat set \<Rightarrow> raft_graph \<Rightarrow> ('k port_ref \<Rightarrow> 'k port_ref \<Rightarrow> int) \<Rightarrow> ('k, 't) map_state \<Rightarrow>
   (unit, ('k, 't) map_state \<times> raft_graph) outcome" where
  "get_graph_info fuel c raft_graph weight_func g =
     BFS_edges fst (graph_function (keeper_list c) weight_func) False fuel c (g, raft_graph)"

record scotch_lib =
  SCOTCH_graphInit :: int
  SCOTCH_graphBuild :: "scotch_tables \<Rightarrow> int"
  SCOTCH_graphCheck :: "scotch_tables \<Rightarrow> int"
  SCOTCH_archInit :: int
  SCOTCH_archCmplt :: "nat \<Rightarrow> int"
  SCOTCH_stratInit :: int
  SCOTCH_stratGraphClusterBuild :: "nat \<Rightarrow> int"
  SCOTCH_graphMap :: "scotch_tables \<Rightarrow> nat \<Rightarrow> int \<times> int list"

text \<open>
  The copy of the mapping to the kernels: the kernel iterator and the vertex index advance
  together; walking past the container or the partition is undefined.
\<close>

fun copy_mapping :: "nat \<Rightarrow> nat list \<Rightarrow> int list \<Rightarrow> ('k, 't) map_state \<Rightarrow> (unit, ('k, 't) map_state) outcome" where
  "copy_mapping 0 as ps g = Returned () g"
| "copy_mapping (Suc n) (a # as) (p # ps) g =
     bind_outcome (set_core a (word_of_int p) g) (\<lambda>_ g1. copy_mapping n as ps g1)"
| "copy_mapping (Suc n) [] ps g = Fault OutOfRange"
| "copy_mapping (Suc n) (a # as) [] g = Fault OutOfRange"

definition run_scotch ::
  "scotch_lib \<Rightarrow> nat \<Rightarrow> nat set \<Rightarrow> nat \<Rightarrow> ('k port_ref \<Rightarrow> 'k port_ref \<Rightarrow> int) \<Rightarrow> ('k, 't) map_state \<Rightarrow>
   (unit, ('k, 't) map_state) outcome" where
  "run_scotch lib fuel c cores weight_func g =
     (case get_graph_info fuel c graph_new weight_func g of
        Fault f \<Rightarrow> Fault f
      | Spin s \<Rightarrow> Spin (fst s)
      | Raised e s \<Rightarrow> Raised e (fst s)
      | Returned _ s \<Rightarrow>
          if SCOTCH_graphInit lib \<noteq> 0 then Fault ProcessExit
          else
            (case getScotchTables (snd s) of
               Returned table raft_graph \<Rightarrow>
                 if SCOTCH_graphBuild lib table \<noteq> 0 then Fault ProcessExit
                 else if SCOTCH_graphCheck lib table \<noteq> 0 then Fault ProcessExit
                 else if SCOTCH_archInit lib \<noteq> 0 then Fault ProcessExit
                 else if SCOTCH_archCmplt lib cores \<noteq> 0 then Fault ProcessExit
                 else if SCOTCH_stratInit lib \<noteq> 0 then Fault ProcessExit
                 else if SCOTCH_stratGraphClusterBuild lib cores \<noteq> 0 then Fault ProcessExit
                 else
                   (case SCOTCH_graphMap lib table cores of
                      (status, parttab) \<Rightarrow>
                        if status \<noteq> 0 then Fault ProcessExit
                        else copy_mapping (num_vertices table) (keeper_list c) parttab (fst s))
             | Fault f \<Rightarrow> Fault f
             | Spin _ \<Rightarrow> Spin (fst s)
             | Raised e _ \<Rightarrow> Raised e (fst s)))"

definition partition_scotch ::
  "scotch_lib \<Rightarrow> nat \<Rightarrow> nat \<Rightarrow> nat set \<Rightarrow> ('k, 't) map_state \<Rightarrow> (unit, ('k, 't) map_state) outcome" where
  "partition_scotch lib fuel cores c g =
     (case simple_check c cores g of
        Returned True g1 \<Rightarrow> Returned () g1
      | Returned False g1 \<Rightarrow> run_scotch lib fuel c cores (\<lambda>a b. 1) g1
      | Spin g1 \<Rightarrow> Spin g1
      | Raised e g1 \<Rightarrow> Raised e g1
      | Fault f \<Rightarrow> Fault f)"

text \<open>simple is the same partitioner for callers that hold the container already.\<close>

definition partition_simple ::
  "scotch_lib \<Rightarrow> nat \<Rightarrow> nat \<Rightarrow> nat set \<Rightarrow> ('k, 't) map_state \<Rightarrow> (unit, ('k, 't) map_state) outcome" where
  "partition_simple lib fuel cores c g =
     (case simple_check c cores g of
        Returned True g1 \<Rightarrow> Returned () g1
      | Returned False g1 \<Rightarrow> run_scotch lib fuel c cores (\<lambda>a b. 1) g1
      | Spin g1 \<Rightarrow> Spin g1
      | Raised e g1 \<Rightarrow> Raised e g1
      | Fault f \<Rightarrow> Fault f)"

end
