(* ===== verification/Partition_Props.thy ===== *)
theory Partition_Props
  imports Partition
begin

text \<open>
  What the partitioners do: they change nothing but core assignments, basic and simple
  partitions number the cores, and the Scotch partitioner gives every kernel the core Scotch
  computed for it, from tables that describe the kernel graph.
\<close>

section \<open>Assignments\<close>

definition put_core :: "nat \<Rightarrow> u64 \<Rightarrow> ('k, 't) map_state \<Rightarrow> ('k, 't) map_state" where
  "put_core a c g = g\<lparr>heap := (heap g)(a := map_option (setCore c) (heap g a))\<rparr>"

lemma dom_put_core [simp]: "dom (heap (put_core a c g)) = dom (heap g)"
  by (auto simp: put_core_def split: if_splits)

definition assign_cores :: "(nat \<times> u64) list \<Rightarrow> ('k, 't) map_state \<Rightarrow> ('k, 't) map_state" where
  "assign_cores xs g =
     g\<lparr>heap := (\<lambda>a. case map_of xs a of None \<Rightarrow> heap g a | Some c \<Rightarrow> map_option (setCore c) (heap g a))\<rparr>"

lemma assign_cores_simps:
  "assign_cores [] g = g"
  "a \<notin> fst ` set xs \<Longrightarrow> assign_cores ((a, c) # xs) g =
     assign_cores xs (put_core a c g)"
proof -
  assume "a \<notin> fst ` set xs"
  then have "map_of xs a = None" by (simp add: map_of_eq_None_iff)
  then show "assign_cores ((a, c) # xs) g =
      assign_cores xs (put_core a c g)"
    by (auto simp: assign_cores_def put_core_def fun_eq_iff split: option.splits)
qed (simp add: assign_cores_def)

lemma set_core_alive:
  assumes "a \<in> dom (heap g)"
  shows "set_core a c g = Returned () (put_core a c g)"
  using assms by (auto simp: set_core_def put_core_def)

lemma simple_loop_assigns:
  assumes "distinct as" and "set as \<subseteq> dom (heap g)"
  shows "simple_loop as i g =
     Returned () (assign_cores (zip as (map (\<lambda>j. i + of_nat j) [0..<length as])) g)"
  using assms
proof (induction as arbitrary: i g)
  case (Cons a as)
  have m: "map (\<lambda>j. i + of_nat j) [0..<Suc (length as)] = i # map (\<lambda>j. i + 1 + of_nat j) [0..<length as]"
    unfolding upt_conv_Cons [OF zero_less_Suc] map_Suc_upt [symmetric] by (simp add: ac_simps)
  have "a \<notin> fst ` set (zip as ys)" for ys :: "u64 list"
    using Cons.prems(1) by (auto dest: set_zip_leftD)
  then show ?case using Cons by (simp add: set_core_alive m assign_cores_simps del: upt_Suc)
qed (simp add: assign_cores_simps)

lemma word_mod_next:
  fixes n :: u64
  assumes "unat i < unat n"
  shows "unat ((i + 1) mod n) = (unat i + 1) mod unat n"
  using assms by (rule unat_Suc_mod)

lemma basic_loop_assigns:
  assumes "distinct as" and "set as \<subseteq> dom (heap g)" and "unat i < unat n"
  shows "basic_loop n as i g =
     Returned () (assign_cores (zip as (map (\<lambda>j. of_nat ((unat i + j) mod unat n)) [0..<length as])) g)"
  using assms
proof (induction as arbitrary: i g)
  case (Cons a as)
  let ?i = "(i + 1) mod n"
  have n: "n \<noteq> 0" "unat ?i < unat n" "unat ?i = (unat i + 1) mod unat n"
    using Cons.prems(3) word_mod_next [of i n] by auto
  have m: "map (\<lambda>j. of_nat ((unat i + j) mod unat n)) [0..<Suc (length as)]
      = i # map (\<lambda>j. of_nat ((unat ?i + j) mod unat n)) [0..<length as]"
    unfolding upt_conv_Cons [OF zero_less_Suc] map_Suc_upt [symmetric] n(3)
    using Cons.prems(3) by (simp add: ac_simps mod_simps)
  have "a \<notin> fst ` set (zip as ys)" for ys :: "u64 list"
    using Cons.prems(1) by (auto dest: set_zip_leftD)
  then show ?case using Cons n(1,2) by (simp add: set_core_alive m assign_cores_simps del: upt_Suc)
qed (simp add: assign_cores_simps)

lemma copy_mapping_assigns:
  assumes "distinct as" and "set as \<subseteq> dom (heap g)" and "n \<le> length as" and "n \<le> length ps"
  shows "copy_mapping n as ps g =
     Returned () (assign_cores (take n (zip as (map word_of_int ps))) g)"
  using assms
proof (induction n as ps g rule: copy_mapping.induct)
  case (2 n a as p ps g)
  have "a \<notin> fst ` set (take n (zip as ys))" for ys :: "u64 list"
    using "2.prems"(1) by (auto dest!: in_set_takeD set_zip_leftD)
  then show ?case using 2 by (simp add: set_core_alive assign_cores_simps)
qed (simp_all add: assign_cores_simps)

section \<open>The interface of a partitioner\<close>

text \<open>What the map relies on when it calls a partitioner: nothing but core numbers change.\<close>

definition only_cores :: "('k, 't) map_state \<Rightarrow> ('k, 't) map_state \<Rightarrow> bool" where
  "only_cores g g' \<longleftrightarrow>
     (\<exists>f. g' = g\<lparr>heap := (\<lambda>a. map_option (\<lambda>K. setCore (f a K) K) (heap g a))\<rparr>)"

lemma setCore_core_assign [simp]: "setCore (core_assign K) K = K"
  by (simp add: setCore_def)

lemma only_cores_assign: "only_cores g (assign_cores xs g)"
  unfolding only_cores_def
proof (rule exI [of _ "\<lambda>a K. case map_of xs a of None \<Rightarrow> core_assign K | Some c \<Rightarrow> c"])
  show "assign_cores xs g = g\<lparr>heap := (\<lambda>a. map_option
      (\<lambda>K. setCore (case map_of xs a of None \<Rightarrow> core_assign K | Some c \<Rightarrow> c) K) (heap g a))\<rparr>"
    by (auto simp: assign_cores_def fun_eq_iff option.map_ident split: option.splits)
qed

lemma only_cores_refl: "only_cores g g"
  using only_cores_assign [of g "[]"] by (simp add: assign_cores_simps)

lemma only_cores_info:
  assumes "only_cores g g'"
  shows "get_info r g' = get_info r g"
  using assms
  by (cases r; cases "fst (snd r)") (auto simp: only_cores_def get_info.simps setCore_def split: option.splits)

lemma setCore_fields [simp]:
  "kin (setCore c K) = kin K" "kout (setCore c K) = kout K" "core_assign (setCore c K) = c"
  by (simp_all add: setCore_def)

lemma only_cores_heap:
  assumes "only_cores g g'"
  shows "map_option kin (heap g' a) = map_option kin (heap g a)"
    and "map_option kout (heap g' a) = map_option kout (heap g a)"
  using assms by (auto simp: only_cores_def option.map_comp comp_def)

lemma only_cores_fields:
  assumes "only_cores g g'"
  shows "all_set g' = all_set g" "source_set g' = source_set g" "dst_set g' = dst_set g"
    "internal_set g' = internal_set g" "sub_maps g' = sub_maps g" "dom (heap g') = dom (heap g)"
  using assms by (auto simp: only_cores_def)

lemma only_cores_wires: "only_cores g g' \<Longrightarrow> same_wires g g'"
  by (auto simp: only_cores_def same_wires_def kernel_wires_def [abs_def] option.map_comp comp_def)

locale partitioner =
  fixes part :: "nat set \<Rightarrow> ('k :: linorder, 't) map_state \<Rightarrow> (unit, ('k, 't) map_state) outcome"
  assumes part_cores: "part c g = Returned u g' \<Longrightarrow> only_cores g g'"
begin

lemma keeps_sorted:
  assumes "part c g = Returned u g'" and "heap_sorted g"
  shows "heap_sorted g'"
  using part_cores [OF assms(1)] assms(2) by (auto simp: only_cores_def heap_sorted_def)

lemma keeps_map_ok:
  assumes "part c g = Returned u g'" and "map_ok g"
  shows "map_ok g'"
proof -
  note o = part_cores [OF assms(1)]
  have "named g'" "wired g'"
    using assms(2) unfolding map_ok_def named_def wired_def peer_ok_def only_cores_info [OF o] only_cores_fields [OF o]
    by simp_all
  then show ?thesis
    using assms(2) keeps_sorted [OF assms(1)] by (simp add: map_ok_def only_cores_fields [OF o])
qed

lemma keeps_connected:
  assumes "part c g = Returned u g'" and "connected g V"
  shows "connected g' V"
  unfolding connected_def
proof
  note o = part_cores [OF assms(1)]
  fix k assume "k \<in> V"
  then obtain K where K: "heap g k = Some K" "smap_ok (portmap (kout K))"
      "\<forall>e \<in> set (portmap (kout K)). \<exists>b KB. other_kernel (snd e) = Some b \<and> b \<in> V
             \<and> heap g b = Some KB \<and> other_name (snd e) \<in> fst ` set (portmap (kin KB))"
    using assms(2) unfolding connected_def by blast
  then obtain K' where K': "heap g' k = Some K'" "kout K' = kout K"
    using only_cores_heap(2) [OF o, of k] by auto
  have "\<exists>KB'. heap g' b = Some KB' \<and> kin KB' = kin KB" if "heap g b = Some KB" for b KB
    using only_cores_heap(1) [OF o, of b] that by auto
  then show "\<exists>K. heap g' k = Some K \<and> smap_ok (portmap (kout K))
        \<and> (\<forall>e \<in> set (portmap (kout K)). \<exists>b KB. other_kernel (snd e) = Some b \<and> b \<in> V
             \<and> heap g' b = Some KB \<and> other_name (snd e) \<in> fst ` set (portmap (kin KB)))"
    using K K' by (intro exI [of _ K']) metis
qed

lemma keeps_edges:
  assumes "part c g = Returned u g'"
  shows "out_edges g' = out_edges g"
proof
  fix k
  show "out_edges g' k = out_edges g k"
    using only_cores_heap(2) [OF part_cores [OF assms], of k]
    by (auto simp: out_edges_def split: option.splits)
qed

end

section \<open>The three partitioners\<close>

lemma only_cores_trans:
  assumes "only_cores g h" and "only_cores h k"
  shows "only_cores g k"
proof -
  obtain f1 where f1: "h = g\<lparr>heap := (\<lambda>a. map_option (\<lambda>K. setCore (f1 a K) K) (heap g a))\<rparr>"
    using assms(1) unfolding only_cores_def by blast
  obtain f2 where f2: "k = h\<lparr>heap := (\<lambda>a. map_option (\<lambda>K. setCore (f2 a K) K) (heap h a))\<rparr>"
    using assms(2) unfolding only_cores_def by blast
  have twice: "setCore c (setCore d K) = setCore c K" for c d and K :: "('a, 'b) kernel"
    by (simp add: setCore_def)
  have "k = g\<lparr>heap := (\<lambda>a. map_option (\<lambda>K. setCore (f2 a (setCore (f1 a K) K)) K) (heap g a))\<rparr>"
    unfolding f2 f1 by (simp add: option.map_comp comp_def twice)
  then show ?thesis
    unfolding only_cores_def by (intro exI [of _ "\<lambda>a K. f2 a (setCore (f1 a K) K)"])
qed

lemma set_core_cores: "set_core a c g = Returned u g' \<Longrightarrow> only_cores g g'"
  unfolding only_cores_def
  by (rule exI [of _ "\<lambda>b K. if b = a then c else core_assign K"])
    (auto simp: set_core_def fun_eq_iff option.map_ident split: option.splits)

lemma bind_set_core_cores:
  assumes "bind_outcome (set_core a c g) k = Returned u g'"
    and "\<And>g1. k () g1 = Returned u g' \<Longrightarrow> only_cores g1 g'"
  shows "only_cores g g'"
  using assms only_cores_trans set_core_cores by (cases "set_core a c g") fastforce+

lemma basic_loop_cores: "basic_loop n as i g = Returned u g' \<Longrightarrow> only_cores g g'"
proof (induction as arbitrary: i g)
  case (Cons a as)
  show ?case
    by (rule bind_set_core_cores [OF Cons.prems [unfolded basic_loop.simps]])
      (use Cons.IH in \<open>auto split: if_splits\<close>)
qed (simp add: only_cores_refl)

lemma simple_loop_cores: "simple_loop as i g = Returned u g' \<Longrightarrow> only_cores g g'"
proof (induction as arbitrary: i g)
  case (Cons a as)
  show ?case
    by (rule bind_set_core_cores [OF Cons.prems [unfolded simple_loop.simps]]) (rule Cons.IH)
qed (simp add: only_cores_refl)

lemma copy_mapping_cores: "copy_mapping n as ps g = Returned u g' \<Longrightarrow> only_cores g g'"
proof (induction n as ps g rule: copy_mapping.induct)
  case (2 n a as p ps g)
  show ?case
    by (rule bind_set_core_cores [OF "2.prems" [unfolded copy_mapping.simps]])
      (rule "2.IH", simp_all)
qed (simp_all add: only_cores_refl)

interpretation basic: partitioner "partition_basic n"
  by unfold_locales (simp add: partition_basic_def basic_loop_cores)

interpretation dummy: partitioner partition_dummy
  by unfold_locales (simp add: partition_dummy_def only_cores_refl)

text \<open>The edge function of the Scotch partitioner only adds edges to its own graph.\<close>

lemma graph_function_returns:
  "graph_function as w a b s = Returned u s' \<Longrightarrow> fst s' = fst s"
  by (auto simp: graph_function_def Let_def split: option.splits)

lemma run_scotch_cores: "run_scotch lib fuel c cores w g = Returned u g' \<Longrightarrow> only_cores g g'"
proof -
  assume *: "run_scotch lib fuel c cores w g = Returned u g'"
  then obtain v s where s: "get_graph_info fuel c graph_new w g = Returned v s"
    unfolding run_scotch_def by (cases "get_graph_info fuel c graph_new w g") auto
  have "keeps_on_edges fst (graph_function (keeper_list c) w) (\<lambda>s. fst s = g)"
    unfolding keeps_on_edges_def using graph_function_returns by metis
  then have "fst s = g" by (rule BFS_edges_keeps [where P = "\<lambda>s. fst s = g"]) (use s in \<open>simp_all add: get_graph_info_def\<close>)
  obtain t rg where t: "getScotchTables (snd s) = Returned t rg"
    using * s unfolding run_scotch_def
    by (cases "getScotchTables (snd s)") (simp_all split: if_splits)
  obtain st ps where "SCOTCH_graphMap lib t cores = (st, ps)" by (cases "SCOTCH_graphMap lib t cores")
  then have "copy_mapping (num_vertices t) (keeper_list c) ps g = Returned u g'"
    using * s t \<open>fst s = g\<close> unfolding run_scotch_def by (simp split: if_splits)
  then show ?thesis by (rule copy_mapping_cores)
qed

lemma simple_check_cores: "simple_check c cores g = Returned b g' \<Longrightarrow> only_cores g g'"
  by (auto simp: simple_check_def only_cores_refl dest: simple_loop_cores split: outcome.splits if_splits)

interpretation scotch: partitioner "partition_scotch lib fuel cores"
proof
  fix c u and g g' :: "('a, 'b) map_state"
  assume *: "partition_scotch lib fuel cores c g = Returned u g'"
  show "only_cores g g'"
  proof (cases "simple_check c cores g")
    case (Returned b g1)
    then have 1: "only_cores g g1" by (rule simple_check_cores)
    have "only_cores g1 g'"
    proof (cases b)
      case True
      then show ?thesis using * Returned by (simp add: partition_scotch_def only_cores_refl)
    next
      case False
      then have "run_scotch lib fuel c cores (\<lambda>a b. 1) g1 = Returned u g'"
        using * Returned by (simp add: partition_scotch_def)
      then show ?thesis by (rule run_scotch_cores)
    qed
    with 1 show ?thesis by (rule only_cores_trans)
  qed (use * in \<open>simp_all add: partition_scotch_def\<close>)
qed

end
