(* ===== verification/Allocate.thy ===== *)
theory Allocate
  imports Graph_Props
begin

text \<open>
  Allocation of the streams: src/allocate.cpp, src/stdalloc.cpp and src/dynalloc.cpp.  A
  FIFO is a value of type f made by the factory mk (the port's const_map entry, given a
  size, a start position or an alignment, and the user's memory if any); fifo_heap holds
  the FIFOs at their addresses.
\<close>

record ('k, 't, 'f) alloc_state =
  a_map :: "('k, 't) map_state"
  fifo_heap :: "nat \<Rightarrow> 'f option"
  next_fifo :: nat
  allocated_fifo :: "nat set"
  alloc_ready :: bool

type_synonym 'f factory = "u64 \<Rightarrow> u64 \<Rightarrow> u64 option \<Rightarrow> 'f"

definition Allocate_new :: "('k, 't) map_state \<Rightarrow> ('k, 't, 'f) alloc_state" where
  "Allocate_new g =
     \<lparr>a_map = g, fifo_heap = (\<lambda>_. None), next_fifo = 0, allocated_fifo = {}, alloc_ready = False\<rparr>"

definition INITIAL_ALLOC_SIZE :: u64 where
  "INITIAL_ALLOC_SIZE = 64"

definition setReady :: "('k, 't, 'f) alloc_state \<Rightarrow> ('k, 't, 'f) alloc_state" where
  "setReady s = s\<lparr>alloc_ready := True\<rparr>"

text \<open>waitTillReady: one look at the flag.\<close>

definition waitTillReady :: "('k, 't, 'f) alloc_state \<Rightarrow> (unit, ('k, 't, 'f) alloc_state) outcome" where
  "waitTillReady s = (if alloc_ready s then Returned () s else Spin s)"

definition initialize ::
  "'k port_ref \<Rightarrow> 'k port_ref \<Rightarrow> nat \<Rightarrow> ('k, 't, 'f) alloc_state \<Rightarrow> (unit, ('k, 't, 'f) alloc_state) outcome" where
  "initialize src dst f s =
     (case (get_info src (a_map s), get_info dst (a_map s)) of
        (Some pi, Some pj) \<Rightarrow>
          (case getFIFO pi of
             None \<Rightarrow> Spin s
           | Some (Some _) \<Rightarrow> Raised PortDoubleInitialize s
           | Some None \<Rightarrow>
               (case getFIFO pj of
                  None \<Rightarrow> Spin s
                | Some (Some _) \<Rightarrow> Raised PortDoubleInitialize s
                | Some None \<Rightarrow>
                    Returned ()
                      (s\<lparr>a_map := set_info dst (setFIFO f) (set_info src (setFIFO f) (a_map s)),
                         allocated_fifo := insert f (allocated_fifo s)\<rparr>)))
      | _ \<Rightarrow> Fault AssertionFailed)"

text \<open>The FIFO a source port asks for.\<close>

definition fifo_for :: "'f factory \<Rightarrow> u64 \<Rightarrow> ('k, 't) PortInfo \<Rightarrow> 'f" where
  "fifo_for mk align pi =
     (case existing_buffer pi of
        Some ptr \<Rightarrow> mk (nitems pi) (start_index pi) (Some ptr)
      | None \<Rightarrow>
          mk (if fixed_buffer_size pi \<noteq> 0 then fixed_buffer_size pi else INITIAL_ALLOC_SIZE) align None)"

definition allocate ::
  "'f factory \<Rightarrow> u64 \<Rightarrow> ('k, ('k, 't, 'f) alloc_state) edge_func" where
  "allocate mk align a b s =
     (case get_info a (a_map s) of
        None \<Rightarrow> Fault NullDereference
      | Some pi \<Rightarrow>
          (let f = next_fifo s;
               s1 = s\<lparr>fifo_heap := (fifo_heap s)(f \<mapsto> fifo_for mk align pi), next_fifo := f + 1\<rparr>
           in initialize a b f s1))"

text \<open>The destructor deletes every FIFO that was given to a pair of ports.\<close>

fun delete_fifos :: "nat list \<Rightarrow> ('k, 't, 'f) alloc_state \<Rightarrow> (unit, ('k, 't, 'f) alloc_state) outcome" where
  "delete_fifos [] s = Returned () s"
| "delete_fifos (f # fs) s =
     (if fifo_heap s f = None then Fault UseAfterFree
      else delete_fifos fs (s\<lparr>fifo_heap := (fifo_heap s)(f := None)\<rparr>))"

definition Allocate_destroy :: "('k, 't, 'f) alloc_state \<Rightarrow> (unit, ('k, 't, 'f) alloc_state) outcome" where
  "Allocate_destroy s = delete_fifos (keeper_list (allocated_fifo s)) s"

definition stdalloc_run ::
  "'f factory \<Rightarrow> u64 \<Rightarrow> nat \<Rightarrow> nat set \<Rightarrow> ('k, 't, 'f) alloc_state \<Rightarrow> (unit, ('k, 't, 'f) alloc_state) outcome" where
  "stdalloc_run mk align fuel sources s =
     bind_outcome (BFS_edges a_map (allocate mk align) False fuel sources s)
       (\<lambda>_ s1. Returned () (setReady s1))"

section \<open>The dynamic allocator\<close>

text \<open>
  The union of two 32-bit halves, on a little-endian machine: only the low 16 bits of the
  addresses of the two PortInfo objects are kept.
\<close>

definition dynalloc_hash :: "u64 \<Rightarrow> u64 \<Rightarrow> u64" where
  "dynalloc_hash ta tb = or (and ta 0xffff) (push_bit 32 (and tb 0xffff))"

text \<open>
  What the monitor uses of a FIFO: whether the share of blocked writes since the last look
  is 0.8 or more (looking resets the statistics), its capacity and its resize.
\<close>

record 'f fifo_ops =
  write_blocked :: "'f \<Rightarrow> bool \<times> 'f"
  f_capacity :: "'f \<Rightarrow> u64"
  f_resize :: "u64 \<Rightarrow> u64 \<Rightarrow> 'f \<Rightarrow> 'f"

record ('k, 't, 'f) dyn_state =
  base :: "('k, 't, 'f) alloc_state"
  size_map :: "u64 \<Rightarrow> nat"

definition dyn_map :: "('k, 't, 'f) dyn_state \<Rightarrow> ('k, 't) map_state" where
  "dyn_map d = a_map (base d)"

definition set_fifo :: "nat \<Rightarrow> 'f \<Rightarrow> ('k, 't, 'f) dyn_state \<Rightarrow> ('k, 't, 'f) dyn_state" where
  "set_fifo f x d = d\<lparr>base := (base d)\<lparr>fifo_heap := (fifo_heap (base d))(f \<mapsto> x)\<rparr>\<rparr>"

definition mon_func ::
  "'f fifo_ops \<Rightarrow> ('k port_ref \<Rightarrow> u64) \<Rightarrow> u64 \<Rightarrow> ('k, ('k, 't, 'f) dyn_state) edge_func" where
  "mon_func ops addr align a b d =
     (case get_info a (dyn_map d) of
        None \<Rightarrow> Fault NullDereference
      | Some pi \<Rightarrow>
          if fixed_buffer_size pi \<noteq> 0 then Returned () d
          else
            (let h = dynalloc_hash (addr a) (addr b)
             in case getFIFO pi of
                  None \<Rightarrow> Spin d
                | Some None \<Rightarrow> Fault NullDereference
                | Some (Some f) \<Rightarrow>
                    (case fifo_heap (base d) f of
                       None \<Rightarrow> Fault UseAfterFree
                     | Some x \<Rightarrow>
                         (let (over, x1) = write_blocked ops x;
                              d1 = set_fifo f x1 d
                          in if over
                             then
                               (let curr_count = size_map d1 h;
                                    d2 = d1\<lparr>size_map := (size_map d1)(h := curr_count + 1)\<rparr>
                                in if curr_count > 2
                                   then Returned ()
                                     ((set_fifo f (f_resize ops (f_capacity ops x1 * 2) align x1) d2)
                                        \<lparr>size_map := (size_map d2)(h := 0)\<rparr>)
                                   else Returned () d2)
                             else Returned () d1))))"

text \<open>One look of the monitor loop at the exit flag; exit is set by another thread.\<close>

definition mon_pass ::
  "'f fifo_ops \<Rightarrow> ('k port_ref \<Rightarrow> u64) \<Rightarrow> u64 \<Rightarrow> nat \<Rightarrow> nat set \<Rightarrow> bool \<Rightarrow> ('k, 't, 'f) dyn_state \<Rightarrow>
   (unit, ('k, 't, 'f) dyn_state) outcome" where
  "mon_pass ops addr align fuel sources exit_alloc d =
     (if exit_alloc then Returned () d
      else bind_outcome (BFS_edges dyn_map (mon_func ops addr align) False fuel sources d)
             (\<lambda>_ d1. Spin d1))"

definition dynalloc_start ::
  "'f factory \<Rightarrow> u64 \<Rightarrow> nat \<Rightarrow> nat set \<Rightarrow> ('k, 't, 'f) alloc_state \<Rightarrow> (unit, ('k, 't, 'f) dyn_state) outcome" where
  "dynalloc_start mk align fuel sources s =
     (case stdalloc_run mk align fuel sources s of
        Returned u s1 \<Rightarrow> Returned () \<lparr>base = s1, size_map = (\<lambda>_. 0)\<rparr>
      | Spin s1 \<Rightarrow> Spin \<lparr>base = s1, size_map = (\<lambda>_. 0)\<rparr>
      | Raised e s1 \<Rightarrow> Raised e \<lparr>base = s1, size_map = (\<lambda>_. 0)\<rparr>
      | Fault x \<Rightarrow> Fault x)"

end
