(* ===== verification/Allocate_Props.thy ===== *)
theory Allocate_Props
  imports Allocate
begin

text \<open>
  What allocation promises: after the allocator has run, the two ports of every edge
  reachable from the sources share one FIFO of the size the source port asks for, and no
  two edges share one; and when the monitor of the dynamic allocator resizes.
\<close>

section \<open>One edge\<close>

definition no_fifo :: "('k, 't) PortInfo \<Rightarrow> bool" where
  "no_fifo pi \<longleftrightarrow> fifo_a pi = None \<and> fifo_b pi = None"

definition port_fifo :: "'k port_ref \<Rightarrow> ('k, 't, 'f) alloc_state \<Rightarrow> nat option" where
  "port_fifo r s =
     (case get_info r (a_map s) of
        None \<Rightarrow> None
      | Some pi \<Rightarrow> (case getFIFO pi of None \<Rightarrow> None | Some f \<Rightarrow> f))"

lemma allocate_edge:
  assumes "get_info a (a_map s) = Some pi" and "get_info b (a_map s) = Some pj"
    and "no_fifo pi" and "no_fifo pj" and "a \<noteq> b"
  shows "allocate mk align a b s = Returned ()
     (s\<lparr>a_map := set_info b (setFIFO (next_fifo s)) (set_info a (setFIFO (next_fifo s)) (a_map s)),
        fifo_heap := (fifo_heap s)(next_fifo s \<mapsto> fifo_for mk align pi),
        next_fifo := next_fifo s + 1,
        allocated_fifo := insert (next_fifo s) (allocated_fifo s)\<rparr>)"
  using assms by (simp add: allocate_def initialize_def no_fifo_def getFIFO_def Let_def)

lemma same_wires_setFIFO: "same_wires g (set_info r (setFIFO f) g)"
  by (rule same_wires_set_info) (simp_all add: setFIFO_def)

lemma allocate_keeps_wires: "keeps_wires a_map (allocate mk align)"
  unfolding keeps_wires_def
proof (intro allI impI)
  fix r q s u s' assume "allocate mk align r q s = Returned u s'"
  then have "a_map s' = set_info q (setFIFO (next_fifo s)) (set_info r (setFIFO (next_fifo s)) (a_map s))"
    by (auto simp: allocate_def initialize_def Let_def split: option.splits)
  then show "same_wires (a_map s) (a_map s')"
    using same_wires_trans [OF same_wires_setFIFO same_wires_setFIFO] by metis
qed

lemma getFIFO_setFIFO [simp]: "getFIFO (setFIFO f pi) = Some (Some f)"
  by (simp add: getFIFO_def setFIFO_def)

section \<open>All edges\<close>

text \<open>The ports of a list of edges exist, have no FIFO yet, and are all different.\<close>

definition free_edges :: "'k edge list \<Rightarrow> ('k, 't, 'f) alloc_state \<Rightarrow> bool" where
  "free_edges es s \<longleftrightarrow> distinct (map fst es @ map snd es)
     \<and> (\<forall>r \<in> set (map fst es @ map snd es). \<exists>pi. get_info r (a_map s) = Some pi \<and> no_fifo pi)"

lemma run_allocate:
  assumes "free_edges es s"
  shows "\<exists>s' F. run_edges (allocate mk align) es s = Returned () s'
     \<and> alloc_ready s' = alloc_ready s
     \<and> inj_on F (set es) \<and> F ` set es = {next_fifo s..<next_fifo s + length es}
     \<and> allocated_fifo s' = F ` set es \<union> allocated_fifo s
     \<and> (\<forall>e \<in> set es. port_fifo (fst e) s' = Some (F e) \<and> port_fifo (snd e) s' = Some (F e)
          \<and> fifo_heap s' (F e) = Some (fifo_for mk align (the (get_info (fst e) (a_map s)))))
     \<and> (\<forall>r. r \<notin> fst ` set es \<union> snd ` set es \<longrightarrow> get_info r (a_map s') = get_info r (a_map s))
     \<and> (\<forall>f < next_fifo s. fifo_heap s' f = fifo_heap s f)"
  using assms
proof (induction es arbitrary: s)
  case Nil
  then show ?case by (intro exI [of _ s] exI [of _ "\<lambda>_. 0"]) simp
next
  case (Cons e es)
  obtain a b where e: "e = (a, b)" by (cases e)
  obtain pi pj where p: "get_info a (a_map s) = Some pi" "no_fifo pi"
      "get_info b (a_map s) = Some pj" "no_fifo pj" "a \<noteq> b"
    using Cons.prems unfolding free_edges_def e by auto
  let ?n = "next_fifo s"
  let ?s1 = "s\<lparr>a_map := set_info b (setFIFO ?n) (set_info a (setFIFO ?n) (a_map s)),
        fifo_heap := (fifo_heap s)(?n \<mapsto> fifo_for mk align pi),
        next_fifo := ?n + 1, allocated_fifo := insert ?n (allocated_fifo s)\<rparr>"
  have al: "allocate mk align a b s = Returned () ?s1" by (rule allocate_edge [OF p(1,3,2,4,5)])
  have new: "a \<notin> fst ` set es \<union> snd ` set es" "b \<notin> fst ` set es \<union> snd ` set es" "e \<notin> set es"
    using Cons.prems unfolding free_edges_def e by (auto simp: rev_image_eqI)
  have other: "get_info r (a_map ?s1) = get_info r (a_map s)" if "r \<in> fst ` set es \<union> snd ` set es" for r
    using that new(1,2) by auto
  have "free_edges es ?s1"
    using Cons.prems other unfolding free_edges_def e by (simp add: ball_Un)
  then obtain s' F where IH: "run_edges (allocate mk align) es ?s1 = Returned () s'"
      "alloc_ready s' = alloc_ready ?s1"
      "inj_on F (set es)" "F ` set es = {next_fifo ?s1..<next_fifo ?s1 + length es}"
      "allocated_fifo s' = F ` set es \<union> allocated_fifo ?s1"
      "\<forall>e \<in> set es. port_fifo (fst e) s' = Some (F e) \<and> port_fifo (snd e) s' = Some (F e)
          \<and> fifo_heap s' (F e) = Some (fifo_for mk align (the (get_info (fst e) (a_map ?s1))))"
      "\<forall>r. r \<notin> fst ` set es \<union> snd ` set es \<longrightarrow> get_info r (a_map s') = get_info r (a_map ?s1)"
      "\<forall>f < next_fifo ?s1. fifo_heap s' f = fifo_heap ?s1 f"
    using Cons.IH [of ?s1] by blast
  let ?F = "F(e := ?n)"
  have Fes: "?F ` set es = F ` set es" "\<And>x. x \<in> set es \<Longrightarrow> ?F x = F x" using new(3) by auto
  have range: "F ` set es = {?n + 1..<?n + 1 + length es}" using IH(4) by simp
  have nn: "?n \<notin> F ` set es" unfolding range by simp
  have "inj_on ?F (set es)" using IH(3) nn by (rule inj_on_fun_updI)
  moreover have "?F e \<notin> ?F ` (set es - {e})" using nn new(3) by auto
  ultimately have inj: "inj_on ?F (set (e # es))" by (simp only: list.set inj_on_insert simp_thms)
  have img: "?F ` set (e # es) = {?n..<?n + length (e # es)}"
    unfolding list.set image_insert Fes(1) range by auto
  have pa: "port_fifo a s' = Some ?n" "port_fifo b s' = Some ?n"
    using spec [OF IH(7), of a] spec [OF IH(7), of b] new(1,2) p(1,3,5)
    by (simp_all add: port_fifo_def)
  have heap: "fifo_heap s' ?n = Some (fifo_for mk align pi)" using IH(8) by simp
  have rest: "\<forall>x \<in> set es. port_fifo (fst x) s' = Some (?F x) \<and> port_fifo (snd x) s' = Some (?F x)
          \<and> fifo_heap s' (?F x) = Some (fifo_for mk align (the (get_info (fst x) (a_map s))))"
    using IH(6) Fes(2) other by simp
  have "\<forall>x \<in> set (e # es). port_fifo (fst x) s' = Some (?F x) \<and> port_fifo (snd x) s' = Some (?F x)
          \<and> fifo_heap s' (?F x) = Some (fifo_for mk align (the (get_info (fst x) (a_map s))))"
    using rest pa heap p(1) by (simp add: e)
  moreover have "run_edges (allocate mk align) (e # es) s = Returned () s'"
    using al IH(1) by (simp add: e)
  moreover have "allocated_fifo s' = ?F ` set (e # es) \<union> allocated_fifo s"
    unfolding IH(5) list.set image_insert Fes(1) by simp
  moreover have "\<forall>r. r \<notin> fst ` set (e # es) \<union> snd ` set (e # es) \<longrightarrow> get_info r (a_map s') = get_info r (a_map s)"
    using IH(7) by (simp add: e)
  moreover have "\<forall>f < ?n. fifo_heap s' f = fifo_heap s f" using IH(8) by simp
  moreover have "alloc_ready s' = alloc_ready s" using IH(2) by simp
  ultimately show ?case using inj img by blast
qed

text \<open>In a well-formed graph different output ports lead to different input ports.\<close>

lemma out_edge_info:
  assumes "connected g V" and "k \<in> V" and "x \<in> set (out_edges g k)"
  obtains pi pj where "get_info (fst x) g = Some pi" "get_info (snd x) g = Some pj"
    "fst (fst x) = k" "other_kernel pi = Some (fst (snd x))" "snd x = (fst (snd x), In, other_name pi)"
    "fst (snd (fst x)) = Out"
proof -
  obtain K where K: "heap g k = Some K" "smap_ok (portmap (kout K))"
      "\<forall>e \<in> set (portmap (kout K)). \<exists>b KB. other_kernel (snd e) = Some b \<and> b \<in> V
             \<and> heap g b = Some KB \<and> other_name (snd e) \<in> fst ` set (portmap (kin KB))"
    using assms(1,2) unfolding connected_def by blast
  obtain e where e: "e \<in> set (portmap (kout K))" "x = port_edge k e"
    using assms(3) unfolding out_edges_alt [OF K(1)] by auto
  obtain b KB where b: "other_kernel (snd e) = Some b" "heap g b = Some KB"
      "other_name (snd e) \<in> fst ` set (portmap (kin KB))" using K(3) e(1) by blast
  have i: "get_info (k, Out, fst e) g = Some (snd e)"
    using K e smap_find_in [of "portmap (kout K)" "fst e" "snd e"] by (simp add: get_info.simps smap_ok_def)
  obtain pj where "get_info (b, In, other_name (snd e)) g = Some pj"
    using b(2,3) by (cases "get_info (b, In, other_name (snd e)) g") (auto simp: get_info.simps smap_find_None)
  then show ?thesis
    by (intro that [of "snd e" pj]) (simp_all add: i e(2) b(1) port_edge_def)
qed

lemma reachable_free_edges:
  fixes g :: "('k :: linorder, 't) map_state"
  assumes "map_ok g" and "connected g V" and "set ks \<subseteq> V" and "distinct ks"
    and "\<forall>r pi. get_info r g = Some pi \<longrightarrow> no_fifo pi" and "a_map s = g"
  shows "free_edges (concat (map (out_edges g) ks)) s"
proof -
  let ?L = "concat (map (out_edges g) ks)"
  have src: "\<exists>pi pj. get_info (fst x) g = Some pi \<and> get_info (snd x) g = Some pj
      \<and> other_kernel pi = Some (fst (snd x)) \<and> snd x = (fst (snd x), In, other_name pi)
      \<and> fst (snd (fst x)) = Out" if x: "x \<in> set ?L" for x
  proof -
    obtain k where k: "k \<in> V" "x \<in> set (out_edges g k)" using x assms(3) by auto
    show ?thesis by (rule out_edge_info [OF assms(2) k]) blast
  qed
  have d: "distinct ?L" using assms(1,4) by (intro distinct_out_edges) (simp add: map_ok_def)
  have back_edge: "\<exists>pj. get_info (snd x) g = Some pj \<and> fst x = (the (other_kernel pj), Out, other_name pj)"
    if x: "x \<in> set ?L" for x
  proof -
    obtain pi where pi: "get_info (fst x) g = Some pi" "other_kernel pi = Some (fst (snd x))"
        "snd x = (fst (snd x), In, other_name pi)" "fst (snd (fst x)) = Out"
      using src [OF x] by blast
    obtain a n where a: "fst x = (a, Out, n)" using pi(4) by (cases "fst x") auto
    have "peer_ok (a, Out, n) pi g"
      using assms(1) pi(1) a unfolding map_ok_def wired_def by metis
    then obtain pj where "get_info (fst (snd x), In, other_name pi) g = Some pj"
        "other_kernel pj = Some a" "other_name pj = n"
      using pi(2) unfolding peer_ok_def by auto
    then show ?thesis using a pi(3) by (intro exI [of _ pj]) simp
  qed
  have fwd_edge: "\<exists>pi. get_info (fst x) g = Some pi \<and> snd x = (the (other_kernel pi), In, other_name pi)"
    if x: "x \<in> set ?L" for x
    using src [OF x] by (metis option.sel)
  have peer: "fst x = fst y \<longleftrightarrow> snd x = snd y" if x: "x \<in> set ?L" and y: "y \<in> set ?L" for x y
    using back_edge [OF x] back_edge [OF y] fwd_edge [OF x] fwd_edge [OF y] by (metis option.inject)
  have "inj_on fst (set ?L)" "inj_on snd (set ?L)" using peer by (auto simp: inj_on_def prod_eq_iff)
  then have "distinct (map fst ?L)" "distinct (map snd ?L)" using d by (simp_all only: distinct_map simp_thms)
  moreover have "set (map fst ?L) \<inter> set (map snd ?L) = {}"
  proof -
    have o: "fst (snd (fst x)) = Out" if x: "x \<in> set ?L" for x using src [OF x] by blast
    have i: "fst (snd (snd x)) = In" if x: "x \<in> set ?L" for x
      using fwd_edge [OF x] by (metis fst_conv snd_conv)
    have "fst x \<noteq> snd y" if "x \<in> set ?L" "y \<in> set ?L" for x y
      using o [OF that(1)] i [OF that(2)] by (metis port_dir.distinct(1))
    then show ?thesis by (simp only: set_map) blast
  qed
  moreover have "\<exists>pi. get_info r (a_map s) = Some pi \<and> no_fifo pi"
    if "r \<in> set (map fst ?L @ map snd ?L)" for r
  proof -
    from that obtain x where x: "x \<in> set ?L" "r = fst x \<or> r = snd x"
      by (simp only: set_append set_map) blast
    show ?thesis using src [OF x(1)] x(2) assms(5) unfolding assms(6) by metis
  qed
  ultimately show ?thesis unfolding free_edges_def distinct_append by blast
qed

lemma stdalloc_edges:
  fixes g :: "('k :: linorder, 't) map_state" and mk :: "'f factory"
  assumes "map_ok g" and "connected g V" and "finite V" and "S \<subseteq> V" and "card V \<le> fuel"
    and "\<forall>r pi. get_info r g = Some pi \<longrightarrow> no_fifo pi"
    and "E = (\<Union>k \<in> reachable_from (out_edges g) S. set (out_edges g k))"
  shows "\<exists>s F. stdalloc_run mk align fuel S (Allocate_new g) = Returned () s
     \<and> alloc_ready s \<and> inj_on F E \<and> allocated_fifo s = F ` E
     \<and> (\<forall>e \<in> E. port_fifo (fst e) s = Some (F e) \<and> port_fifo (snd e) s = Some (F e)
          \<and> fifo_heap s (F e) = Some (fifo_for mk align (the (get_info (fst e) g))))
     \<and> (\<forall>r. r \<notin> fst ` E \<union> snd ` E \<longrightarrow> port_fifo r s = None)"
proof -
  let ?s0 = "Allocate_new g :: ('k, 't, 'f) alloc_state"
  have m: "a_map ?s0 = g" by (simp add: Allocate_new_def)
  obtain ks where ks: "distinct ks" "set ks = reachable_from (out_edges g) S"
      "BFS_edges a_map (allocate mk align) False fuel S ?s0 =
         run_edges (allocate mk align) (concat (map (out_edges g) ks)) ?s0"
    using bfs_calls_each_edge_gen [of a_map ?s0 V S fuel "allocate mk align" False] assms
      allocate_keeps_wires [of mk align] unfolding m map_ok_def by blast
  let ?L = "concat (map (out_edges g) ks)"
  have E: "set ?L = E" using ks(2) assms(7) by simp
  have "set ks \<subseteq> V" unfolding ks(2) by (rule reachable_from_closed [OF assms(4)]) (rule connected_heads [OF assms(2)])
  then have free: "free_edges ?L ?s0" by (rule reachable_free_edges [OF assms(1,2) _ ks(1) assms(6) m])
  obtain s F where s: "run_edges (allocate mk align) ?L ?s0 = Returned () s"
      "inj_on F (set ?L)" "allocated_fifo s = F ` set ?L \<union> allocated_fifo ?s0"
      "\<forall>e \<in> set ?L. port_fifo (fst e) s = Some (F e) \<and> port_fifo (snd e) s = Some (F e)
          \<and> fifo_heap s (F e) = Some (fifo_for mk align (the (get_info (fst e) (a_map ?s0))))"
      "\<forall>r. r \<notin> fst ` set ?L \<union> snd ` set ?L \<longrightarrow> get_info r (a_map s) = get_info r (a_map ?s0)"
    using run_allocate [OF free, of mk align] by blast
  have run: "stdalloc_run mk align fuel S ?s0 = Returned () (setReady s)"
    using ks(3) s(1) by (simp add: stdalloc_run_def)
  have pf: "port_fifo r (setReady s) = port_fifo r s" for r by (simp add: port_fifo_def setReady_def)
  have none: "port_fifo r s = None" if "r \<notin> fst ` E \<union> snd ` E" for r
  proof -
    have i: "get_info r (a_map s) = get_info r g" using s(5) that unfolding E m by blast
    show ?thesis
    proof (cases "get_info r g")
      case None
      then show ?thesis by (simp add: port_fifo_def i)
    next
      case (Some pi)
      then have "no_fifo pi" using assms(6) by blast
      then show ?thesis using Some by (simp add: port_fifo_def i no_fifo_def getFIFO_def)
    qed
  qed
  show ?thesis
  proof (intro exI [of _ "setReady s"] exI [of _ F] conjI)
    show "stdalloc_run mk align fuel S ?s0 = Returned () (setReady s)" by (rule run)
    show "alloc_ready (setReady s)" by (simp add: setReady_def)
    show "inj_on F E" using s(2) unfolding E .
    show "allocated_fifo (setReady s) = F ` E"
      using s(3) unfolding E by (simp add: setReady_def Allocate_new_def)
    show "\<forall>e \<in> E. port_fifo (fst e) (setReady s) = Some (F e) \<and> port_fifo (snd e) (setReady s) = Some (F e)
          \<and> fifo_heap (setReady s) (F e) = Some (fifo_for mk align (the (get_info (fst e) g)))"
      using s(4) unfolding E m pf by (simp add: setReady_def)
    show "\<forall>r. r \<notin> fst ` E \<union> snd ` E \<longrightarrow> port_fifo r (setReady s) = None"
      unfolding pf using none by blast
  qed
qed

text \<open>
  C14: After the allocator has run over a well-formed, connected graph, the two ports of every
  edge reachable from the source kernels share one FIFO, of the size the source port asks for (its
  memory, its fixed size, or 64 items); no two edges share a FIFO, the destructor knows all of
  them, and the ports of all other edges (those of a cycle that no source leads into, say) have
  none.
\<close>

theorem stdalloc_gives_each_edge_its_fifo:
  fixes g :: "('k :: linorder, 't) map_state" and mk :: "'f factory"
  assumes "map_ok g" and "connected g V" and "finite V" and "S \<subseteq> V" and "card V \<le> fuel"
    and "\<forall>r pi. get_info r g = Some pi \<longrightarrow> no_fifo pi"
    and "E = (\<Union>k \<in> reachable_from (out_edges g) S. set (out_edges g k))"
  shows "\<exists>s F. stdalloc_run mk align fuel S (Allocate_new g) = Returned () s
     \<and> alloc_ready s \<and> inj_on F E \<and> allocated_fifo s = F ` E
     \<and> (\<forall>e \<in> E. port_fifo (fst e) s = Some (F e) \<and> port_fifo (snd e) s = Some (F e)
          \<and> fifo_heap s (F e) = Some (fifo_for mk align (the (get_info (fst e) g))))
     \<and> (\<forall>r. r \<notin> fst ` E \<union> snd ` E \<longrightarrow> port_fifo r s = None)"
  using assms by (rule stdalloc_edges)

lemma diamond_info:
  assumes "get_info r diamond = Some pi"
  shows "no_fifo pi \<and> my_name pi = snd (snd r)"
  using assms
  by (cases r; cases "fst (snd r)")
    (auto simp: get_info.simps no_fifo_def diamond_simps split: if_splits)

lemma diamond_ok: "map_ok (diamond\<lparr>all_set := {1, 2, 3, 4}\<rparr>)"
proof -
  let ?g = "diamond\<lparr>all_set := {1, 2, 3, 4}\<rparr>"
  have g: "get_info r ?g = get_info r diamond" for r by (rule get_info_cong) simp
  have "heap_sorted ?g" using diamond_sorted by (simp add: heap_sorted_def)
  moreover have "named ?g" unfolding named_def g using diamond_info by fastforce
  moreover have "wired ?g"
    unfolding wired_def g
  proof (intro allI impI)
    fix r :: "nat port_ref" and pi assume i: "get_info r diamond = Some pi"
    obtain a d n where r: "r = (a, d, n)" by (cases r)
    show "peer_ok r pi ?g"
      using i unfolding r peer_ok_def prod.case g
      by (cases d) (auto simp: get_info.simps diamond_simps split: if_splits)
  qed
  ultimately show ?thesis by (auto simp: map_ok_def diamond_simps)
qed

theorem stdalloc_gives_each_edge_its_fifo_witness:
  "\<exists>s. \<exists>F :: nat port_ref \<times> nat port_ref \<Rightarrow> nat. stdalloc_run (\<lambda>n al p. (n, p)) 64 4 {1} (Allocate_new (diamond\<lparr>all_set := {1, 2, 3, 4}\<rparr>)) = Returned () s
     \<and> alloc_ready s
     \<and> inj_on F (\<Union>k \<in> reachable_from (out_edges (diamond\<lparr>all_set := {1, 2, 3, 4}\<rparr>)) {1}.
          set (out_edges (diamond\<lparr>all_set := {1, 2, 3, 4}\<rparr>) k))"
proof -
  let ?g = "diamond\<lparr>all_set := {1, 2, 3, 4}\<rparr>"
  have c: "connected ?g {1, 2, 3, 4}" using diamond_connected by (simp add: connected_def)
  have nf: "\<forall>r pi. get_info r ?g = Some pi \<longrightarrow> no_fifo pi"
  proof (intro allI impI)
    fix r :: "nat port_ref" and pi assume "get_info r ?g = Some pi"
    then have "get_info r diamond = Some pi" using get_info_cong [of ?g diamond r] by simp
    then show "no_fifo pi" using diamond_info by blast
  qed
  have v: "finite {1, 2, 3, 4 :: nat}" "{1} \<subseteq> {1, 2, 3, 4 :: nat}" "card {1, 2, 3, 4 :: nat} \<le> 4"
    by simp_all
  from stdalloc_gives_each_edge_its_fifo [OF diamond_ok c v nf refl, of "\<lambda>n al p. (n, p)" 64]
  obtain s and F :: "nat port_ref \<times> nat port_ref \<Rightarrow> nat"
    where "stdalloc_run (\<lambda>n al p. (n, p)) 64 4 {1} (Allocate_new ?g) = Returned () s"
    "alloc_ready s" "inj_on F (\<Union>k \<in> reachable_from (out_edges ?g) {1}. set (out_edges ?g k))"
    by (elim exE conjE) (rule that)
  then show ?thesis by (intro exI conjI)
qed

section \<open>The monitor\<close>

text \<open>
  A FIFO that gives the monitor a list of observations: blocked or not at each look.
\<close>

definition observed_ops :: "(bool list \<times> u64) fifo_ops" where
  "observed_ops =
     \<lparr>write_blocked = (\<lambda>(bs, c). case bs of [] \<Rightarrow> (False, (bs, c)) | b # bs' \<Rightarrow> (b, (bs', c))),
      f_capacity = snd, f_resize = (\<lambda>n al (bs, c). (bs, n))\<rparr>"

fun mon_many ::
  "nat \<Rightarrow> 'f fifo_ops \<Rightarrow> ('k port_ref \<Rightarrow> u64) \<Rightarrow> u64 \<Rightarrow> 'k port_ref \<Rightarrow> 'k port_ref \<Rightarrow> ('k, 't, 'f) dyn_state \<Rightarrow>
   (unit, ('k, 't, 'f) dyn_state) outcome" where
  "mon_many 0 ops addr align a b d = Returned () d"
| "mon_many (Suc n) ops addr align a b d =
     bind_outcome (mon_func ops addr align a b d) (\<lambda>_ d1. mon_many n ops addr align a b d1)"

lemma mon_many_count:
  assumes "get_info a (dyn_map d) = Some pi" and "fixed_buffer_size pi = 0"
    and "getFIFO pi = Some (Some f)" and "fifo_heap (base d) f = Some (obs, c)"
    and "size_map d (dynalloc_hash (addr a) (addr b)) = j" and "j < 4"
  shows "\<exists>d'. mon_many (length obs) observed_ops addr align a b d = Returned () d'
     \<and> fifo_heap (base d') f = Some ([], c * 2 ^ ((j + length (filter id obs)) div 4))
     \<and> size_map d' (dynalloc_hash (addr a) (addr b)) = (j + length (filter id obs)) mod 4"
  using assms
proof (induction obs arbitrary: d c j)
  case Nil
  then show ?case by simp
next
  case (Cons x obs)
  let ?h = "dynalloc_hash (addr a) (addr b)"
  let ?d1 = "set_fifo f (obs, c) d"
  have m: "dyn_map (set_fifo f y e) = dyn_map e" for y and e :: "('a, 'b, bool list \<times> 64 word) dyn_state"
    by (simp add: dyn_map_def set_fifo_def)
  have heap: "fifo_heap (base (set_fifo f y e)) f = Some y" "size_map (set_fifo f y e) = size_map e"
    for y and e :: "('a, 'b, bool list \<times> 64 word) dyn_state"
    by (simp_all add: set_fifo_def)
  have upd: "dyn_map (e\<lparr>size_map := z\<rparr>) = dyn_map e" "base (e\<lparr>size_map := z\<rparr>) = base e"
    for z and e :: "('a, 'b, bool list \<times> 64 word) dyn_state" by (simp_all add: dyn_map_def)
  show ?case
  proof (cases x)
    case False
    have "mon_func observed_ops addr align a b d = Returned () ?d1"
      using Cons.prems False by (simp add: mon_func_def observed_ops_def Let_def)
    then show ?thesis using Cons.IH [of ?d1 c j] Cons.prems False by (simp add: m heap)
  next
    case True
    show ?thesis
    proof (cases "j = 3")
      case True
      let ?d2 = "(set_fifo f (obs, c * 2) (?d1\<lparr>size_map := (size_map ?d1)(?h := j + 1)\<rparr>))
          \<lparr>size_map := (size_map (?d1\<lparr>size_map := (size_map ?d1)(?h := j + 1)\<rparr>))(?h := 0)\<rparr>"
      have "mon_func observed_ops addr align a b d = Returned () ?d2"
        using Cons.prems True \<open>x\<close> by (simp add: mon_func_def observed_ops_def Let_def heap)
      moreover have "c * 2 * 2 ^ (k div 4) = c * 2 ^ ((4 + k) div 4)" for k
      proof -
        have "(4 + k) div 4 = k div 4 + 1" by simp
        then show ?thesis by (simp only: power_add power_one_right ac_simps)
      qed
      ultimately show ?thesis
        using Cons.IH [of ?d2 "c * 2" 0] Cons.prems True \<open>x\<close> by (simp add: m heap upd)
    next
      case False
      let ?d2 = "?d1\<lparr>size_map := (size_map ?d1)(?h := j + 1)\<rparr>"
      have "mon_func observed_ops addr align a b d = Returned () ?d2"
        using Cons.prems False \<open>x\<close> by (simp add: mon_func_def observed_ops_def Let_def heap)
      then show ?thesis
        using Cons.IH [of ?d2 c "j + 1"] Cons.prems False \<open>x\<close> by (simp add: m heap upd)
    qed
  qed
qed


definition monitored :: "(nat, nat, bool list \<times> u64) dyn_state" where
  "monitored =
     \<lparr>base = (Allocate_new (map_new [1 \<mapsto> (fst (kernel_new 1 0))\<lparr>kout := (Port_new 1)
                 \<lparr>portmap := [(5, setFIFO 7 (fresh_info 0 8 1 5))]\<rparr>\<rparr>] 2))
               \<lparr>fifo_heap := [7 \<mapsto> ([True, False, True, True, False, True], 64)]\<rparr>,
      size_map = (\<lambda>_. 0)\<rparr>"


text \<open>
  Two links whose ports lie at addresses that agree in the low 16 bits are counted together.
\<close>

lemma dynalloc_hash_collides:
  "dynalloc_hash 0x10040 0x10080 = dynalloc_hash 0x20040 0x30080"
  by (simp add: dynalloc_hash_def)

end
