(* ===== verification/Partition_Scotch.thy ===== *)
theory Partition_Scotch
  imports Partition_Props Allocate_Props
begin

text \<open>
  The theorems about the partitioners: the numbering of partition_basic and of the simple
  case, and the path through the Scotch library, from the checked kernel graph over the flat
  tables to the core of each kernel.
\<close>

section \<open>A checked graph is connected\<close>

lemma checked_ports:
  assumes "map_ok g" and "checkEdges g = Returned () g" and "a \<in> all_set g"
    and "get_info (a, d, n) g = Some pi"
  shows "\<exists>b pj. other_kernel pi = Some b \<and> b \<in> all_set g
     \<and> get_info (b, opposite d, other_name pi) g = Some pj
     \<and> other_kernel pj = Some a \<and> other_name pj = n"
proof -
  have fin: "set (keeper_list (all_set g)) = all_set g"
    using assms(1) by (simp add: keeper_list_def map_ok_def)
  then have "other_kernel pi \<noteq> None"
    using assms check_edges_loop_cases [of "keeper_list (all_set g)" g]
    by (auto simp: checkEdges_def map_ok_def split: if_splits)
  moreover have "peer_ok (a, d, n) pi g"
    using assms(1,4) unfolding map_ok_def wired_def by blast
  ultimately show ?thesis unfolding peer_ok_def prod.case by blast
qed

lemma port_info_entry:
  assumes "heap_sorted g" and "heap g k = Some K"
  shows "get_info (k, d, n) g = Some pi \<longleftrightarrow> (n, pi) \<in> set (portmap (ports_of d K))"
proof -
  have "distinct (map fst (portmap (ports_of d K)))"
    using heap_sorted_port [OF assms, of d] by (simp add: smap_ok_def)
  then have "smap_find (portmap (ports_of d K)) n = Some pi \<longleftrightarrow> (n, pi) \<in> set (portmap (ports_of d K))"
    using smap_find_in smap_find_Some_in by metis
  then show ?thesis using assms(2) by (simp add: get_info.simps)
qed

lemma checked_connected:
  assumes "map_ok g" and "checkEdges g = Returned () g"
  shows "connected g (all_set g)"
  unfolding connected_def
proof
  fix k assume k: "k \<in> all_set g"
  have s: "heap_sorted g" using assms(1) by (simp add: map_ok_def)
  obtain K where K: "heap g k = Some K" using assms(1) k by (auto simp: map_ok_def)
  have "\<exists>b KB. other_kernel (snd e) = Some b \<and> b \<in> all_set g \<and> heap g b = Some KB
      \<and> other_name (snd e) \<in> fst ` set (portmap (kin KB))" if e: "e \<in> set (portmap (kout K))" for e
  proof -
    have "get_info (k, Out, fst e) g = Some (snd e)" using port_info_entry [OF s K, of Out] e by simp
    then obtain b pj where b: "other_kernel (snd e) = Some b" "b \<in> all_set g"
        "get_info (b, In, other_name (snd e)) g = Some pj"
      using checked_ports [OF assms k] by fastforce
    moreover obtain KB where KB: "heap g b = Some KB" using assms(1) b(2) by (auto simp: map_ok_def)
    moreover have "(other_name (snd e), pj) \<in> set (portmap (kin KB))"
      using port_info_entry [OF s KB, of In] b(3) by simp
    ultimately show ?thesis by force
  qed
  then show "\<exists>K. heap g k = Some K \<and> smap_ok (portmap (kout K))
     \<and> (\<forall>e \<in> set (portmap (kout K)). \<exists>b KB. other_kernel (snd e) = Some b \<and> b \<in> all_set g
          \<and> heap g b = Some KB \<and> other_name (snd e) \<in> fst ` set (portmap (kin KB)))"
    using K heap_sorted_port [OF s K, of Out] by auto
qed

section \<open>The numbers of the kernels\<close>

lemma sorted_map_int: "sorted (map int xs) = sorted xs"
  by (induction xs) auto

lemma number_from_nth:
  assumes "distinct as" and "i < length as"
  shows "number_from n as (Some (as ! i)) = n + int i"
  using assms
proof (induction as arbitrary: n i)
  case (Cons a as)
  then show ?case by (cases i) auto
qed simp

definition numbered :: "nat list \<Rightarrow> 'k edge \<Rightarrow> wedge" where
  "numbered as e = (number_from 0 as (Some (fst (fst e))), number_from 0 as (Some (head_of e)), 1)"

lemma run_graph_function:
  assumes "owned g" and "\<forall>e \<in> set L. get_info (fst e) g \<noteq> None \<and> get_info (snd e) g \<noteq> None"
  shows "run_edges (graph_function as (\<lambda>a b. 1)) L (g, rg) =
     Returned () (g, fold (\<lambda>(a, b, w). addEdge a b w) (map (numbered as) L) rg)"
  using assms(2)
proof (induction L arbitrary: rg)
  case (Cons e L)
  obtain a da na b db nb where e: "e = ((a, da, na), (b, db, nb))" by (metis prod.exhaust)
  obtain pa pb where p: "get_info (a, da, na) g = Some pa" "get_info (b, db, nb) g = Some pb"
    using Cons.prems e by auto
  then have "my_kernel pa = Some a" "my_kernel pb = Some b"
    using assms(1) unfolding owned_def by blast+
  then show ?case using Cons p by (simp add: graph_function_def numbered_def e head_of_def)
qed simp

text \<open>How many links lead from one kernel to another.\<close>

definition links :: "('k, 't) map_state \<Rightarrow> nat \<Rightarrow> nat \<Rightarrow> nat" where
  "links g a b = card {e \<in> set (out_edges g a). head_of e = b}"

lemma arcs_of_Cons:
  "arcs_of ((a, b, x) # es) v =
     (if a = v then [(b, x)] else []) @ (if b = v then [(a, x)] else []) @ arcs_of es v"
  by (simp add: arcs_of_def)

lemma count_arcs_of_Cons:
  "count_list (arcs_of ((a, b, x) # es) v) (u, w) =
     (if a = v \<and> b = u \<and> x = w then 1 else 0) + (if b = v \<and> a = u \<and> x = w then 1 else 0)
     + count_list (arcs_of es v) (u, w)"
  unfolding arcs_of_Cons count_list_append
  by (cases "a = v"; cases "b = v";
      simp only: if_True if_False count_list.simps prod.inject simp_thms add_0 add_0_right)

lemma count_arcs_of:
  "count_list (arcs_of es v) (u, w) =
     length (filter (\<lambda>e. e = (v, u, w)) es) + length (filter (\<lambda>e. e = (u, v, w)) es)"
proof (induction es)
  case (Cons e es)
  obtain a b x where e: "e = (a, b, x)" by (cases e)
  have f: "length (filter P (e # es)) = (if P e then 1 else 0) + length (filter P es)" for P
    by simp
  have "(a = v \<and> b = u \<and> x = w) = (e = (v, u, w))" "(b = v \<and> a = u \<and> x = w) = (e = (u, v, w))"
    unfolding e prod.inject by blast+
  then show ?case
    unfolding f Cons.IH [symmetric] unfolding e count_arcs_of_Cons Cons.IH by (simp only: ac_simps)
qed (simp add: arcs_of_def)

lemma links_filter:
  assumes "distinct L" and "set L = (\<Union>k \<in> V. set (out_edges g k))" and "a \<in> V"
  shows "length (filter (\<lambda>e. fst (fst e) = a \<and> head_of e = b) L) = links g a b"
proof -
  have "set (filter (\<lambda>e. fst (fst e) = a \<and> head_of e = b) L) = {e \<in> set (out_edges g a). head_of e = b}"
  proof (intro set_eqI iffI)
    fix e assume "e \<in> set (filter (\<lambda>e. fst (fst e) = a \<and> head_of e = b) L)"
    then obtain k where "e \<in> set (out_edges g k)" "fst (fst e) = a" "head_of e = b" using assms(2) by auto
    then show "e \<in> {e \<in> set (out_edges g a). head_of e = b}" using out_edges_from [of e g k] by simp
  next
    fix e assume e: "e \<in> {e \<in> set (out_edges g a). head_of e = b}"
    then show "e \<in> set (filter (\<lambda>e. fst (fst e) = a \<and> head_of e = b) L)"
      using assms(2,3) out_edges_from [of e g a] by auto
  qed
  then show ?thesis using assms(1) distinct_card [of "filter (\<lambda>e. fst (fst e) = a \<and> head_of e = b) L"]
    by (simp add: links_def)
qed

lemma numbered_count:
  assumes "distinct as" and "i < length as" and "j < length as" and "set L = (\<Union>k \<in> set as. set (out_edges g k))"
    and "distinct L" and "\<forall>e \<in> set L. fst (fst e) \<in> set as \<and> head_of e \<in> set as"
  shows "length (filter (\<lambda>e. e = (int i, int j, 1)) (map (numbered as) L)) = links g (as ! i) (as ! j)"
proof -
  have n: "number_from 0 as (Some k) = int m \<longleftrightarrow> k = as ! m" if "k \<in> set as" "m < length as" for k m
  proof -
    obtain l where "l < length as" "k = as ! l" using \<open>k \<in> set as\<close> by (metis in_set_conv_nth)
    then show ?thesis
      using number_from_nth [OF assms(1)] that(2) assms(1) by (simp add: nth_eq_iff_index_eq)
  qed
  have "filter (\<lambda>e. e = (int i, int j, 1)) (map (numbered as) L) =
      map (numbered as) (filter (\<lambda>e. fst (fst e) = as ! i \<and> head_of e = as ! j) L)"
    unfolding filter_map comp_def
    by (rule arg_cong [where f = "map (numbered as)"], rule filter_cong)
      (use assms(2,3,6) n in \<open>auto simp: numbered_def\<close>)
  then show ?thesis using links_filter [OF assms(5,4), of "as ! i"] assms(2) by simp
qed

section \<open>The tables of a checked graph\<close>

definition has_ports :: "('k, 't) map_state \<Rightarrow> bool" where
  "has_ports g \<longleftrightarrow> (\<forall>k \<in> all_set g. \<exists>d n. get_info (k, d, n) g \<noteq> None)"

lemma out_edge_ports:
  assumes "map_ok g" and "checkEdges g = Returned () g" and "k \<in> all_set g" and "e \<in> set (out_edges g k)"
  shows "get_info (fst e) g \<noteq> None \<and> get_info (snd e) g \<noteq> None
     \<and> fst (fst e) = k \<and> head_of e \<in> all_set g"
proof -
  have s: "heap_sorted g" using assms(1) by (simp add: map_ok_def)
  obtain K where K: "heap g k = Some K" using assms(1,3) by (auto simp: map_ok_def)
  obtain n pi where n: "(n, pi) \<in> set (portmap (kout K))" "e = port_edge k (n, pi)"
    using assms(4) unfolding out_edges_alt [OF K] by auto
  then have i: "get_info (k, Out, n) g = Some pi" using port_info_entry [OF s K, of Out] by simp
  then show ?thesis
    using checked_ports [OF assms(1-3) i] n by (auto simp: port_edge_def head_of_def)
qed

lemma every_kernel_has_edge:
  assumes "map_ok g" and "checkEdges g = Returned () g" and "has_ports g" and "k \<in> all_set g"
  obtains a e where "a \<in> all_set g" "e \<in> set (out_edges g a)" "k = a \<or> k = head_of e"
proof -
  have s: "heap_sorted g" using assms(1) by (simp add: map_ok_def)
  obtain d n pi where i: "get_info (k, d, n) g = Some pi" using assms(3,4) unfolding has_ports_def by fastforce
  obtain b pj where b: "other_kernel pi = Some b" "b \<in> all_set g"
      "get_info (b, opposite d, other_name pi) g = Some pj" "other_kernel pj = Some k" "other_name pj = n"
    using checked_ports [OF assms(1,2,4) i] by blast
  have edge: "port_edge x (m, px) \<in> set (out_edges g x)"
    if "get_info (x, Out, m) g = Some px" "x \<in> all_set g" for x m px
  proof -
    obtain X where X: "heap g x = Some X" using assms(1) \<open>x \<in> all_set g\<close> by (auto simp: map_ok_def)
    then show ?thesis using port_info_entry [OF s X, of Out] that(1) by (simp add: out_edges_alt)
  qed
  show thesis
  proof (cases d)
    case Out
    then show ?thesis using that [OF assms(4) edge] i assms(4) by simp
  next
    case In
    then show ?thesis using that [OF b(2) edge] b by (simp add: port_edge_def head_of_def)
  qed
qed

lemma graph_visits:
  "keeps_wires fst (graph_function as w)"
  unfolding keeps_wires_def using graph_function_returns same_wires_refl by metis

lemma checked_tables:
  assumes "map_ok g" and "checkEdges g = Returned () g" and "owned g" and "has_ports g"
    and "all_set g \<noteq> {}" and "card (all_set g) \<le> fuel"
  obtains es t where "get_graph_info fuel (all_set g) graph_new (\<lambda>a b. 1) g = Returned () (g, graph_of es)"
    "getScotchTables (graph_of es) = Returned t (graph_of es)" "num_vertices t = card (all_set g)"
    "\<forall>i < card (all_set g). \<forall>a \<in> set (table_row t i). snd a = 1"
    "\<forall>i < card (all_set g). \<forall>j < card (all_set g). count_list (table_row t i) (int j, 1) =
       links g (keeper_list (all_set g) ! i) (keeper_list (all_set g) ! j)
       + links g (keeper_list (all_set g) ! j) (keeper_list (all_set g) ! i)"
proof -
  let ?V = "all_set g" and ?as = "keeper_list (all_set g)"
  have fin: "finite ?V" using assms(1) by (simp add: map_ok_def)
  then have as: "set ?as = ?V" "distinct ?as" "length ?as = card ?V" by (simp_all add: keeper_list_def)
  have con: "connected g ?V" by (rule checked_connected [OF assms(1,2)])
  obtain ks where ks: "distinct ks" "set ks = reachable_from (out_edges g) ?V"
      "distinct (concat (map (out_edges g) ks))"
      "BFS_edges fst (graph_function ?as (\<lambda>a b. 1)) False fuel ?V (g, graph_new) =
        run_edges (graph_function ?as (\<lambda>a b. 1)) (concat (map (out_edges g) ks)) (g, graph_new)"
    using bfs_calls_each_edge_gen [of fst "(g, graph_new)" ?V ?V fuel "graph_function ?as (\<lambda>a b. 1)" False]
      con fin assms(6) graph_visits assms(1) by (auto simp: map_ok_def)
  have "reachable_from (out_edges g) ?V = ?V"
    using reachable_from_closed [OF subset_refl connected_heads [OF con]]
    by (auto simp: reachable_from_def)
  define L where "L = concat (map (out_edges g) ks)"
  have L: "set L = (\<Union>k \<in> ?V. set (out_edges g k))" "distinct L"
    using ks(2,3) \<open>reachable_from (out_edges g) ?V = ?V\<close> by (simp_all add: L_def)
  have ends: "get_info (fst e) g \<noteq> None \<and> get_info (snd e) g \<noteq> None \<and> fst (fst e) \<in> ?V \<and> head_of e \<in> ?V"
    if "e \<in> set L" for e
    using that out_edge_ports [OF assms(1,2)] unfolding L(1) by fastforce
  define es where "es = map (numbered ?as) L"
  have ret: "get_graph_info fuel ?V graph_new (\<lambda>a b. 1) g = Returned () (g, graph_of es)"
    unfolding get_graph_info_def ks(4) L_def [symmetric] es_def graph_of_def
    by (rule run_graph_function [OF assms(3)]) (use ends in blast)
  have num: "number_from 0 ?as (Some k) \<in> int ` {0..<card ?V}" if "k \<in> ?V" for k
  proof -
    have "k \<in> set ?as" using that as(1) by simp
    then obtain l where "l < length ?as" "?as ! l = k" by (auto simp: in_set_conv_nth)
    then show ?thesis using number_from_nth [OF as(2), of l 0] as(3) by simp
  qed
  have verts: "vertices_of es = int ` {0..<card ?V}"
  proof (rule subset_antisym)
    show "vertices_of es \<subseteq> int ` {0..<card ?V}"
      using ends num by (fastforce simp: vertices_of_def es_def numbered_def)
    show "int ` {0..<card ?V} \<subseteq> vertices_of es"
    proof
      fix v assume "v \<in> int ` {0..<card ?V}"
      then obtain i where i: "v = int i" "i < length ?as" using as(3) by auto
      then have "?as ! i \<in> ?V" using as(1) nth_mem by blast
      then obtain a e where e: "a \<in> ?V" "e \<in> set (out_edges g a)" "?as ! i = a \<or> ?as ! i = head_of e"
        using every_kernel_has_edge [OF assms(1,2,4)] by blast
      then have "numbered ?as e \<in> set es" "fst (fst e) = a"
        using L(1) out_edges_from [of e g a] by (auto simp: es_def)
      moreover have "v = fst (numbered ?as e) \<or> v = fst (snd (numbered ?as e))"
        using e(3) number_from_nth [OF as(2) i(2), of 0] i(1) \<open>fst (fst e) = a\<close>
        by (auto simp: numbered_def)
      ultimately show "v \<in> vertices_of es" by (force simp: vertices_of_def)
    qed
  qed
  have n: "0 < card ?V" using fin assms(5) by (simp add: card_gt_0_iff)
  have "vertices_of es \<noteq> {}" unfolding verts using n by auto
  then have "es \<noteq> []" by auto
  have "set (map int [0..<card ?V]) = int ` {0..<card ?V}" by simp
  then have sorted: "sorted_list_of_set (vertices_of es) = map int [0..<card ?V]"
    unfolding verts
    using sorted_list_of_set.idem_if_sorted_distinct [of "map int [0..<card ?V]"]
    by (simp add: sorted_map_int distinct_map)
  have "Min (vertices_of es) = 0" unfolding verts by (rule Min_eqI) (use n in auto)
  moreover obtain t where t: "getScotchTables (graph_of es) = Returned t (graph_of es)"
      "num_vertices t = card (vertices_of es)"
      "\<forall>i < num_vertices t. table_row t i =
         map (\<lambda>(b, w). (b - Min (vertices_of es), w)) (arcs_of es (sorted_list_of_set (vertices_of es) ! i))"
    by (rule getScotchTables_gen [OF \<open>es \<noteq> []\<close>]) blast
  moreover have c: "card (vertices_of es) = card ?V" unfolding verts by (simp add: card_image)
  ultimately have row: "table_row t i = arcs_of es (int i)" if "i < card ?V" for i
    using that unfolding sorted by simp
  have "count_list (table_row t i) (int j, 1) = links g (?as ! i) (?as ! j) + links g (?as ! j) (?as ! i)"
    if "i < card ?V" "j < card ?V" for i j
  proof -
    have ij: "i < length ?as" "j < length ?as" using that as(3) by simp_all
    have LV: "set L = (\<Union>k \<in> set ?as. set (out_edges g k))" using L(1) as(1) by simp
    have eV: "\<forall>e \<in> set L. fst (fst e) \<in> set ?as \<and> head_of e \<in> set ?as" using ends as(1) by simp
    show ?thesis
      unfolding row [OF that(1)] count_arcs_of es_def
        numbered_count [OF as(2) ij(1,2) LV L(2) eV] numbered_count [OF as(2) ij(2,1) LV L(2) eV] ..
  qed
  moreover have "snd a = 1" if "i < card ?V" "a \<in> set (table_row t i)" for i a
    using that(2) unfolding row [OF that(1)] by (auto simp: arcs_of_def es_def numbered_def split: if_splits)
  ultimately show thesis using that [OF ret t(1)] t(2) c by simp
qed

section \<open>The cores of the kernels\<close>

text \<open>The core a kernel is given, None for a kernel that does not exist.\<close>

definition core_of :: "('k, 't) map_state \<Rightarrow> nat \<Rightarrow> u64 option" where
  "core_of g a = map_option core_assign (heap g a)"

lemma core_of_assigned:
  assumes "distinct as" and "set as \<subseteq> dom (heap g)" and "i < length as" and "length as = length ys"
  shows "core_of (assign_cores (zip as ys) g) (as ! i) = Some (ys ! i)"
proof -
  have "map_of (zip as ys) (as ! i) = Some (ys ! i)"
    using assms by (simp add: map_of_zip_nth)
  moreover obtain K where "heap g (as ! i) = Some K"
    using assms(2,3) nth_mem by blast
  ultimately show ?thesis by (simp add: core_of_def assign_cores_def)
qed

lemma keeper_list_facts:
  assumes "finite c"
  shows "set (keeper_list c) = c" "distinct (keeper_list c)" "length (keeper_list c) = card c"
  using assms by (simp_all add: keeper_list_def)

text \<open>A library whose calls succeed and that deals the vertices out to the cores in turn.\<close>

definition round_lib :: scotch_lib where
  "round_lib =
     \<lparr>SCOTCH_graphInit = 0, SCOTCH_graphBuild = (\<lambda>t. 0), SCOTCH_graphCheck = (\<lambda>t. 0),
      SCOTCH_archInit = 0, SCOTCH_archCmplt = (\<lambda>n. 0), SCOTCH_stratInit = 0,
      SCOTCH_stratGraphClusterBuild = (\<lambda>n. 0),
      SCOTCH_graphMap = (\<lambda>t n. (0, map (\<lambda>i. int (i mod n)) [0..<num_vertices t]))\<rparr>"

text \<open>
  Fact: partition_basic deals the cores out in turn: the i-th kernel of the container gets core
  i modulo the number of cores.  A number of cores of 0, which hardware_concurrency gives
  when it cannot tell, divides by zero as soon as there is a kernel.
\<close>

theorem basic_deals_cores:
  assumes "finite c" and "c \<subseteq> dom (heap g)"
  shows "if num_cores = 0 \<and> c \<noteq> {} then partition_basic num_cores c g = Fault DivisionByZero
     else \<exists>g'. partition_basic num_cores c g = Returned () g'
       \<and> (\<forall>i < card c. core_of g' (keeper_list c ! i) = Some (of_nat (i mod unat num_cores)))"
proof (cases "num_cores = 0 \<and> c \<noteq> {}")
  case True
  then obtain a as where as: "keeper_list c = a # as"
    using keeper_list_facts(1) [OF assms(1)] by (cases "keeper_list c") auto
  then have "a \<in> dom (heap g)" using keeper_list_facts(1) [OF assms(1)] assms(2) by auto
  then show ?thesis using True as by (simp add: partition_basic_def set_core_alive)
next
  case False
  note k = keeper_list_facts [OF assms(1)]
  show ?thesis
  proof (cases "c = {}")
    case True
    then show ?thesis by (simp add: partition_basic_def keeper_list_def)
  next
    case ne: False
    then have "num_cores \<noteq> 0" using False by simp
    then have n: "unat (0 :: u64) < unat num_cores" by (simp add: unat_gt_0)
    let ?ys = "map (\<lambda>j. of_nat ((unat (0 :: u64) + j) mod unat num_cores)) [0..<length (keeper_list c)]"
    have sub: "set (keeper_list c) \<subseteq> dom (heap g)" using k(1) assms(2) by simp
    have "partition_basic num_cores c g = Returned () (assign_cores (zip (keeper_list c) ?ys) g)"
      unfolding partition_basic_def by (rule basic_loop_assigns [OF k(2) sub n])
    moreover have "core_of (assign_cores (zip (keeper_list c) ?ys) g) (keeper_list c ! i)
        = Some (of_nat (i mod unat num_cores))" if "i < card c" for i
      using core_of_assigned [OF k(2) sub, of i ?ys] that k(3) by simp
    ultimately show ?thesis using False by auto
  qed
qed

theorem basic_deals_cores_witness:
  "\<exists>g'. partition_basic 2 {1, 2, 3, 4} diamond = Returned () g'
     \<and> core_of g' (keeper_list {1, 2, 3, 4 :: nat} ! 2) = Some (of_nat (2 mod unat (2 :: u64)))"
proof -
  have "finite {1, 2, 3, 4 :: nat}" "{1, 2, 3, 4} \<subseteq> dom (heap diamond)" by (simp_all add: diamond_simps)
  from basic_deals_cores [OF this, of 2] show ?thesis by (auto split: if_splits)
qed

text \<open>
  Fact: With no more kernels than cores the Scotch partitioner does not call the library: it puts
  the i-th kernel on core i, so no two kernels share a core.
\<close>

theorem few_kernels_get_own_cores:
  assumes "finite c" and "c \<subseteq> dom (heap g)" and "card c \<le> cores" and "cores < 2 ^ 32"
  shows "\<exists>g'. partition_scotch lib fuel cores c g = Returned () g'
     \<and> (\<forall>i < card c. core_of g' (keeper_list c ! i) = Some (of_nat i))
     \<and> inj_on (core_of g') c"
proof -
  note k = keeper_list_facts [OF assms(1)]
  let ?ys = "map (\<lambda>j. 0 + of_nat j :: u64) [0..<length (keeper_list c)]"
  let ?g = "assign_cores (zip (keeper_list c) ?ys) g"
  have sub: "set (keeper_list c) \<subseteq> dom (heap g)" using k(1) assms(2) by simp
  have "partition_scotch lib fuel cores c g = Returned () ?g"
    using assms(3) simple_loop_assigns [OF k(2) sub, of 0]
    by (simp add: partition_scotch_def simple_check_def)
  moreover have cores: "core_of ?g (keeper_list c ! i) = Some (of_nat i)" if "i < card c" for i
    using core_of_assigned [OF k(2) sub, of i ?ys] that k(3) by simp
  moreover have "inj_on (core_of ?g) c"
  proof (rule inj_onI)
    fix a b assume ab: "a \<in> c" "b \<in> c" "core_of ?g a = core_of ?g b"
    then obtain i j where ij: "i < card c" "keeper_list c ! i = a" "j < card c" "keeper_list c ! j = b"
      using k by (metis in_set_conv_nth)
    then have "(of_nat i :: u64) = of_nat j" using cores ab(3) by auto
    moreover have "i < 2 ^ 64" "j < 2 ^ 64" using ij(1,3) assms(3,4) by simp_all
    then have "unat (of_nat i :: u64) = i" "unat (of_nat j :: u64) = j"
      by (auto intro!: of_nat_inverse [OF refl])
    ultimately have "i = j" by metis
    then show "a = b" using ij by simp
  qed
  ultimately show ?thesis by blast
qed

theorem few_kernels_get_own_cores_witness:
  "\<exists>g'. partition_scotch round_lib 4 8 {1, 2, 3, 4} diamond = Returned () g' \<and> inj_on (core_of g') {1, 2, 3, 4}"
proof -
  have "finite {1, 2, 3, 4 :: nat}" "{1, 2, 3, 4} \<subseteq> dom (heap diamond)" by (simp_all add: diamond_simps)
  from few_kernels_get_own_cores [OF this, of 8 round_lib 4] show ?thesis by auto
qed

text \<open>
  What the Scotch manual promises of the calls: on tables without an edge from a vertex to
  itself every call succeeds, and the mapping has an entry for each vertex.
\<close>

definition loop_free :: "scotch_tables \<Rightarrow> bool" where
  "loop_free t \<longleftrightarrow> (\<forall>i < num_vertices t. \<forall>a \<in> set (table_row t i). fst a \<noteq> int i)"

definition scotch_works :: "scotch_lib \<Rightarrow> nat \<Rightarrow> bool" where
  "scotch_works lib cores \<longleftrightarrow>
     SCOTCH_graphInit lib = 0 \<and> SCOTCH_archInit lib = 0 \<and> SCOTCH_stratInit lib = 0
     \<and> SCOTCH_archCmplt lib cores = 0 \<and> SCOTCH_stratGraphClusterBuild lib cores = 0
     \<and> (\<forall>t. loop_free t \<longrightarrow> SCOTCH_graphBuild lib t = 0 \<and> SCOTCH_graphCheck lib t = 0
          \<and> fst (SCOTCH_graphMap lib t cores) = 0
          \<and> length (snd (SCOTCH_graphMap lib t cores)) = num_vertices t)"


text \<open>The diamond with its kernels in the map: checked, owned and without links to itself.\<close>

definition diamond_map :: "(nat, nat) map_state" where
  "diamond_map = diamond\<lparr>all_set := {1, 2, 3, 4}, source_set := {1}, dst_set := {4}\<rparr>"

lemma diamond_map_info: "get_info r diamond_map = get_info r diamond"
  by (rule get_info_cong) (simp add: diamond_map_def)

lemma diamond_map_ports:
  assumes "get_info (a, d, n) diamond_map = Some pi"
  shows "other_kernel pi \<noteq> None \<and> my_kernel pi = Some a \<and> no_fifo pi"
  using assms unfolding diamond_map_info
  by (cases d) (auto simp: get_info.simps no_fifo_def diamond_simps split: if_splits)

lemma diamond_map_ok: "map_ok diamond_map"
proof -
  let ?h = "diamond\<lparr>all_set := {1, 2, 3, 4}\<rparr>"
  have h: "get_info r diamond_map = get_info r ?h" "heap_sorted diamond_map = heap_sorted ?h"
    "all_set diamond_map = all_set ?h" for r
    by (rule get_info_cong, simp add: diamond_map_def, rule heap_sorted_cong, simp_all add: diamond_map_def)
  have "heap_sorted diamond_map" "named diamond_map" "wired diamond_map"
    using diamond_ok unfolding map_ok_def named_def wired_def peer_ok_def h by blast+
  then show ?thesis by (auto simp: map_ok_def diamond_map_def diamond_simps)
qed

lemma diamond_map_checked: "checkEdges diamond_map = Returned () diamond_map"
proof -
  have "set (keeper_list (all_set diamond_map)) \<subseteq> dom (heap diamond_map)"
    by (auto simp: keeper_list_def diamond_map_def diamond_simps)
  moreover have "heap_sorted diamond_map" using diamond_map_ok by (simp add: map_ok_def)
  moreover have "\<forall>a \<in> set (keeper_list (all_set diamond_map)). \<forall>d n pi.
      get_info (a, d, n) diamond_map = Some pi \<longrightarrow> other_kernel pi \<noteq> None"
    using diamond_map_ports by blast
  ultimately show ?thesis unfolding checkEdges_def by (simp only: check_edges_loop_cases if_P)
qed

lemma diamond_map_owned: "owned diamond_map"
  unfolding owned_def using diamond_map_ports by blast

lemma diamond_map_has_ports: "has_ports diamond_map"
proof -
  have "get_info (1, Out, 11) diamond_map \<noteq> None" "get_info (2, Out, 22) diamond_map \<noteq> None"
    "get_info (3, Out, 32) diamond_map \<noteq> None" "get_info (4, In, 41) diamond_map \<noteq> None"
    unfolding diamond_map_info by (simp_all add: get_info.simps diamond_simps)
  then have "\<exists>d n. get_info (k, d, n) diamond_map \<noteq> None" if "k \<in> {1, 2, 3, 4}" for k
    using that by (elim insertE emptyE) blast+
  moreover have "all_set diamond_map = {1, 2, 3, 4}" by (simp add: diamond_map_def)
  ultimately show ?thesis unfolding has_ports_def by simp
qed

lemma diamond_map_no_loops: "\<forall>k \<in> all_set diamond_map. links diamond_map k k = 0"
  by (auto simp: links_def out_edges_def head_of_def diamond_map_def diamond_simps)

lemma diamond_map_card [simp]: "all_set diamond_map = {1, 2, 3, 4}" "card (all_set diamond_map) = 4"
  by (simp_all add: diamond_map_def)


end
