(* ===== verification/Exe.thy ===== *)
theory Exe
  imports Partition_Scotch
begin

text \<open>
  raft::map::exe (raftinc/map.hpp) up to the start of the scheduler: the submaps' kernels are
  taken in, the edges are checked, the partitioner runs, and the allocator gives the streams
  their FIFOs before waitTillReady returns.
\<close>

definition exe_prepare ::
  "(nat set \<Rightarrow> ('k, 't) map_state \<Rightarrow> (unit, ('k, 't) map_state) outcome) \<Rightarrow> ('k, 't) map_state \<Rightarrow>
   (unit, ('k, 't) map_state) outcome" where
  "exe_prepare part g =
     bind_outcome (checkEdges (flatten_sub_maps g)) (\<lambda>_ g1. part (all_set g1) g1)"

lemma flatten_no_sub_maps: "sub_maps g = [] \<Longrightarrow> flatten_sub_maps g = g"
  by (simp add: flatten_sub_maps_def)

text \<open>
  Fact: Before anything runs, exe tests every port of every kernel of the map: if one has no other
  end it raises PortUnconnected and the partitioner does not run, otherwise the partitioner gets
  the whole map, unchanged.
\<close>

theorem exe_checks_before_partition:
  assumes "map_ok g" and "sub_maps g = []"
  shows "exe_prepare part g =
     (if \<exists>a \<in> all_set g. \<exists>d n pi. get_info (a, d, n) g = Some pi \<and> other_kernel pi = None
      then Raised PortUnconnected g else part (all_set g) g)"
proof -
  let ?open = "\<exists>a \<in> all_set g. \<exists>d n pi. get_info (a, d, n) g = Some pi \<and> other_kernel pi = None"
  let ?all = "\<forall>a \<in> all_set g. \<forall>d n pi. get_info (a, d, n) g = Some pi \<longrightarrow> other_kernel pi \<noteq> None"
  have "set (keeper_list (all_set g)) = all_set g" "all_set g \<subseteq> dom (heap g)" "heap_sorted g"
    using assms(1) by (simp_all add: keeper_list_def map_ok_def)
  then have check: "checkEdges g = (if ?all then Returned () g else Raised PortUnconnected g)"
    unfolding checkEdges_def by (subst check_edges_loop_cases) simp_all
  have all: "?all = (\<not> ?open)"
    unfolding Ball_def Bex_def by (simp only: not_ex de_Morgan_conj imp_conv_disj ex_simps all_simps)
  note prepare = exe_prepare_def flatten_no_sub_maps [OF assms(2)] check all
  show ?thesis
  proof (cases ?open)
    case True
    then show ?thesis unfolding prepare by (simp only: if_P not_not if_not_P bind_outcome.simps simp_thms if_False if_True)
  next
    case False
    then show ?thesis unfolding prepare by (simp only: if_P not_not if_not_P bind_outcome.simps simp_thms if_False if_True)
  qed
qed

theorem exe_checks_before_partition_witness:
  "exe_prepare partition_dummy diamond_map = Returned () diamond_map"
  using exe_checks_before_partition [OF diamond_map_ok, of partition_dummy] diamond_map_ports
  by (auto simp: partition_dummy_def diamond_map_def diamond_simps split: if_splits)

context partitioner
begin

lemma prepared_graph:
  assumes "map_ok g" and "sub_maps g = []" and "exe_prepare part g = Returned u g'"
  shows "map_ok g'" "connected g' (all_set g')" "out_edges g' = out_edges g"
    "get_info r g' = get_info r g" "all_set g' = all_set g" "source_set g' = source_set g"
proof -
  have *: "checkEdges g = Returned () g" "part (all_set g) g = Returned u g'"
  proof -
    obtain v g1 where g1: "checkEdges g = Returned v g1" "part (all_set g1) g1 = Returned u g'"
      using assms(3) unfolding exe_prepare_def flatten_no_sub_maps [OF assms(2)]
      by (cases "checkEdges g") auto
    moreover have "checkEdges g = Returned () g \<or> checkEdges g = Raised PortUnconnected g"
      using assms(1) check_edges_loop_cases [of "keeper_list (all_set g)" g]
      by (simp add: checkEdges_def keeper_list_def map_ok_def)
    ultimately show "checkEdges g = Returned () g" "part (all_set g) g = Returned u g'" by auto
  qed
  note o = part_cores [OF *(2)]
  show "map_ok g'" by (rule keeps_map_ok [OF *(2) assms(1)])
  show "connected g' (all_set g')"
    unfolding only_cores_fields [OF o]
    by (rule keeps_connected [OF *(2) checked_connected [OF assms(1) *(1)]])
  show "out_edges g' = out_edges g" by (rule keeps_edges [OF *(2)])
  show "get_info r g' = get_info r g" by (rule only_cores_info [OF o])
  show "all_set g' = all_set g" "source_set g' = source_set g" by (simp_all add: only_cores_fields [OF o])
qed

lemma prepared_allocates:
  assumes "map_ok g" and "sub_maps g = []" and "exe_prepare part g = Returned u g'"
    and "card (all_set g) \<le> fuel" and "\<forall>r pi. get_info r g = Some pi \<longrightarrow> no_fifo pi"
    and "E = (\<Union>k \<in> reachable_from (out_edges g) (source_set g). set (out_edges g k))"
  shows "\<exists>d F. dynalloc_start mk align fuel (source_set g') (Allocate_new g') = Returned () d
     \<and> alloc_ready (base d) \<and> inj_on F E \<and> allocated_fifo (base d) = F ` E
     \<and> (\<forall>e \<in> E. port_fifo (fst e) (base d) = Some (F e) \<and> port_fifo (snd e) (base d) = Some (F e))"
proof -
  note p = prepared_graph [OF assms(1-3)]
  have v: "finite (all_set g')" "source_set g' \<subseteq> all_set g'" "card (all_set g') \<le> fuel"
    using p(1) assms(4) unfolding p(5) by (simp_all add: map_ok_def p(5))
  have nf: "\<forall>r pi. get_info r g' = Some pi \<longrightarrow> no_fifo pi" unfolding p(4) by (rule assms(5))
  have E: "E = (\<Union>k \<in> reachable_from (out_edges g') (source_set g'). set (out_edges g' k))"
    unfolding p(3,6) by (rule assms(6))
  from stdalloc_edges [OF p(1,2) v nf E, of mk align]
  obtain s F where "stdalloc_run mk align fuel (source_set g') (Allocate_new g') = Returned () s"
      "alloc_ready s" "inj_on F E" "allocated_fifo s = F ` E"
      "\<forall>e \<in> E. port_fifo (fst e) s = Some (F e) \<and> port_fifo (snd e) s = Some (F e)"
    by (elim exE conjE) (rule that, assumption+, blast)
  then show ?thesis by (intro exI [of _ "\<lparr>base = s, size_map = (\<lambda>_. 0)\<rparr>"] exI [of _ F])
      (simp add: dynalloc_start_def)
qed

end

text \<open>
  Fact: Whichever partitioner is used, once exe has checked and partitioned a map without submaps,
  the default allocator returns and is ready, and the two ports of every edge that can be
  reached from a source kernel share a FIFO of their own.
\<close>

theorem exe_allocates_reachable_edges:
  assumes "map_ok g" and "sub_maps g = []" and "\<forall>r pi. get_info r g = Some pi \<longrightarrow> no_fifo pi"
    and "part \<in> {partition_dummy, partition_basic n, partition_scotch lib fuel cores}"
    and "exe_prepare part g = Returned u g'" and "card (all_set g) \<le> fuel"
    and "E = (\<Union>k \<in> reachable_from (out_edges g) (source_set g). set (out_edges g k))"
  shows "\<exists>d F. dynalloc_start mk align fuel (source_set g') (Allocate_new g') = Returned () d
     \<and> alloc_ready (base d) \<and> inj_on F E \<and> allocated_fifo (base d) = F ` E
     \<and> (\<forall>e \<in> E. port_fifo (fst e) (base d) = Some (F e) \<and> port_fifo (snd e) (base d) = Some (F e))"
  using assms(4,5)
    dummy.prepared_allocates [OF assms(1,2) _ assms(6,3,7), of u g' mk align]
    basic.prepared_allocates [OF assms(1,2) _ assms(6,3,7), of n u g' mk align]
    scotch.prepared_allocates [OF assms(1,2) _ assms(6,3,7), of lib fuel cores u g' mk align]
  by auto

theorem exe_allocates_reachable_edges_witness:
  "\<exists>g' d. exe_prepare partition_dummy diamond_map = Returned () g'
     \<and> dynalloc_start (\<lambda>n al p. (n, p)) 64 4 (source_set g') (Allocate_new g') = Returned () d
     \<and> alloc_ready (base d)"
proof -
  have s: "sub_maps diamond_map = []" "card (all_set diamond_map) \<le> 4"
    by (simp_all add: diamond_map_def diamond_simps)
  have e: "exe_prepare partition_dummy diamond_map = Returned () diamond_map"
    unfolding exe_prepare_def flatten_no_sub_maps [OF s(1)] diamond_map_checked
    by (simp add: partition_dummy_def)
  have nf: "\<forall>r pi. get_info r diamond_map = Some pi \<longrightarrow> no_fifo pi"
    using diamond_map_ports by (metis prod.exhaust)
  obtain d and F :: "nat edge \<Rightarrow> nat"
    where "dynalloc_start (\<lambda>n al p. (n, p)) 64 4 (source_set diamond_map) (Allocate_new diamond_map) = Returned () d"
      "alloc_ready (base d)"
    using exe_allocates_reachable_edges [OF diamond_map_ok s(1) nf _ e s(2) refl,
        where mk = "\<lambda>n al p. (n, p)" and align = 64 and n = 1 and lib = round_lib and cores = 2] by auto
  then show ?thesis using e by blast
qed

end
