(* ===== verification/Execution.thy ===== *)
theory Execution
  imports Scheduler_Props
begin

text \<open>
  The threads of a running map: simple_schedule::start creates one thread for each kernel and
  then looks for finished ones (src/simpleschedule.cpp); a thread runs its kernel until it is
  finished (simple_run, and kernelRun of src/schedule.cpp).  Threads and start take turns step
  by step.  A step is one call on a stream, or one write of the finished flag: that such a
  call is atomic for a reader and a writer of one ring buffer is shown in Ring_Spsc.
\<close>

section \<open>The code of a kernel\<close>

text \<open>
  One call of the user's run: its pops and pushes in order, each chosen from the values popped
  before, then the status it returns and the members the kernel keeps for its next run.
\<close>

datatype ('a, 's) action =
    Return kstatus 's
  | Pop nat "'a \<times> signal \<Rightarrow> ('a, 's) action"
  | Push nat "'a \<times> signal" "('a, 's) action"

text \<open>The uninterrupted call.\<close>

primrec run_action ::
  "(nat \<Rightarrow> alloc_kind) \<Rightarrow> ('a, 's) action \<Rightarrow> 'a streams \<Rightarrow> (kstatus \<times> 's, 'a streams) outcome" where
  "run_action kinds (Return r s) = (\<lambda>w. Returned (r, s) w)"
| "run_action kinds (Pop i f) =
     (\<lambda>w. bind_outcome (at_port i (pop_elem (kinds i)) w) (\<lambda>e w1. run_action kinds (f e) w1))"
| "run_action kinds (Push i e a) =
     (\<lambda>w. bind_outcome (at_port i (push_elem e) w) (\<lambda>_ w1. run_action kinds a w1))"

text \<open>A kernel with its ports, its scheduling behaviour, its code and its members.\<close>

record ('a, 's) node =
  n_input :: "nat list"
  n_output :: "nat list"
  n_behav :: u8
  n_code :: "'s \<Rightarrow> ('a, 's) action"
  n_start :: 's

definition as_kernel :: "(nat \<Rightarrow> alloc_kind) \<Rightarrow> ('a, 's) node \<Rightarrow> 's \<Rightarrow> 'a sched_kernel" where
  "as_kernel kinds nd st =
     \<lparr>k_id = 0, k_input = n_input nd, k_output = n_output nd, k_sched_behav = n_behav nd,
      k_run = (\<lambda>w. bind_outcome (run_action kinds (n_code nd st) w) (\<lambda>r. Returned (fst r))),
      k_internal_alloc = False\<rparr>"

section \<open>A thread\<close>

text \<open>
  Where a thread stands in simple_run and kernelRun.  Closing goes through the output ports
  one by one.  The flag in the later phases is what kernelRun is going to return.
\<close>

datatype ('a, 's) phase =
    Loop_test
  | Has_data
  | In_run "('a, 's) action"
  | Close_stop "nat list"
  | Set_stop
  | Ports_valid bool
  | Data_again bool
  | Close_drained bool "nat list"
  | Set_drained bool
  | Pass_done bool
  | Exited
  | Aborted "exn + fault"

text \<open>stopped records that run returned stop: it is read by the proofs only.\<close>

record ('a, 's) kthread =
  th_info :: thread_info
  th_phase :: "('a, 's) phase"
  th_local :: 's
  stopped :: bool

text \<open>The streams, with what was pushed on and popped from each so far.\<close>

record 'a world =
  fifos :: "'a streams"
  sent :: "nat \<Rightarrow> ('a \<times> signal) list"
  got :: "nat \<Rightarrow> ('a \<times> signal) list"

definition goto :: "('a, 's) phase \<Rightarrow> ('a, 's) kthread \<Rightarrow> ('a, 's) kthread" where
  "goto p t = t\<lparr>th_phase := p\<rparr>"

definition set_finished :: "('a, 's) kthread \<Rightarrow> ('a, 's) kthread" where
  "set_finished t = t\<lparr>th_info := (th_info t)\<lparr>ti_finished := True\<rparr>\<rparr>"

text \<open>
  A call that spins is tried again in the next step; an exception that leaves the thread's
  function, and undefined behaviour, end the program.
\<close>

fun after_call ::
  "('r, 'a streams) outcome \<Rightarrow> ('r \<Rightarrow> 'a world \<Rightarrow> ('a, 's) kthread \<times> 'a world) \<Rightarrow>
   ('a, 's) kthread \<Rightarrow> 'a world \<Rightarrow> ('a, 's) kthread \<times> 'a world" where
  "after_call (Returned r f) k t w = k r (w\<lparr>fifos := f\<rparr>)"
| "after_call (Spin f) k t w = (t, w\<lparr>fifos := f\<rparr>)"
| "after_call (Raised e f) k t w = (goto (Aborted (Inl e)) t, w\<lparr>fifos := f\<rparr>)"
| "after_call (Fault x) k t w = (goto (Aborted (Inr x)) t, w)"

fun action_step ::
  "(nat \<Rightarrow> alloc_kind) \<Rightarrow> ('a, 's) node \<Rightarrow> ('a, 's) action \<Rightarrow> ('a, 's) kthread \<Rightarrow> 'a world \<Rightarrow>
   ('a, 's) kthread \<times> 'a world" where
  "action_step kinds nd (Return r s) t w =
     (let t1 = t\<lparr>th_local := s\<rparr>
      in if r = stop then (goto (Close_stop (n_output nd)) (t1\<lparr>stopped := True\<rparr>), w)
         else (goto (Ports_valid True) t1, w))"
| "action_step kinds nd (Pop i f) t w =
     after_call (at_port i (pop_elem (kinds i)) (fifos w))
       (\<lambda>e w1. (goto (In_run (f e)) t, w1\<lparr>got := (got w1)(i := got w1 i @ [e])\<rparr>)) t w"
| "action_step kinds nd (Push i e a) t w =
     after_call (at_port i (push_elem e) (fifos w))
       (\<lambda>_ w1. (goto (In_run a) t, w1\<lparr>sent := (sent w1)(i := sent w1 i @ [e])\<rparr>)) t w"

definition close_port :: "nat \<Rightarrow> 'a world \<Rightarrow> 'a world" where
  "close_port i w = w\<lparr>fifos := (fifos w)(i := invalidate (fifos w i))\<rparr>"

definition thread_step ::
  "(nat \<Rightarrow> alloc_kind) \<Rightarrow> ('a, 's) node \<Rightarrow> ('a, 's) kthread \<Rightarrow> 'a world \<Rightarrow> ('a, 's) kthread \<times> 'a world" where
  "thread_step kinds nd t w =
     (let k = as_kernel kinds nd (th_local t)
      in case th_phase t of
           Loop_test \<Rightarrow> (goto (if ti_finished (th_info t) then Exited else Has_data) t, w)
         | Has_data \<Rightarrow>
             after_call (kernelHasInputData k (fifos w))
               (\<lambda>has w1. (goto (if has then In_run (n_code nd (th_local t)) else Ports_valid False) t, w1)) t w
         | In_run a \<Rightarrow> action_step kinds nd a t w
         | Close_stop [] \<Rightarrow> (goto Set_stop t, w)
         | Close_stop (i # is) \<Rightarrow> (goto (Close_stop is) t, close_port i w)
         | Set_stop \<Rightarrow> (goto (Ports_valid True) (set_finished t), w)
         | Ports_valid rc \<Rightarrow>
             (goto (if kernelHasNoInputPorts k (fifos w) then Data_again rc else Pass_done rc) t, w)
         | Data_again rc \<Rightarrow>
             after_call (kernelHasInputData k (fifos w))
               (\<lambda>has w1. (goto (if has then Pass_done rc else Close_drained rc (n_output nd)) t, w1)) t w
         | Close_drained rc [] \<Rightarrow> (goto (Set_drained rc) t, w)
         | Close_drained rc (i # is) \<Rightarrow> (goto (Close_drained rc is) t, close_port i w)
         | Set_drained rc \<Rightarrow> (goto (Pass_done rc) (set_finished t), w)
         | Pass_done rc \<Rightarrow> (goto Loop_test t, w)
         | Exited \<Rightarrow> (t, w)
         | Aborted x \<Rightarrow> (t, w))"

section \<open>The program\<close>

text \<open>
  start first creates the threads, then goes through the list of threads again and again: Look
  n keep is a pass that has come to thread n, with the flag keep_going.
\<close>

datatype main_pc = Create nat | Look nat bool | Start_returned

record ('a, 's) exec =
  world_of :: "'a world"
  threads :: "('a, 's) kthread list"
  main_at :: main_pc

definition new_thread :: "nat \<Rightarrow> ('a, 's) node \<Rightarrow> ('a, 's) kthread" where
  "new_thread j nd =
     \<lparr>th_info = \<lparr>ti_kernel = j, ti_finished = False, ti_term = False\<rparr>, th_phase = Loop_test,
      th_local = n_start nd, stopped = False\<rparr>"

fun has_exited :: "('a, 's) phase \<Rightarrow> bool" where
  "has_exited Exited = True"
| "has_exited _ = False"

lemma has_exited_iff: "has_exited p \<longleftrightarrow> p = Exited"
  by (cases p) simp_all

text \<open>A thread that has set its flag is joined; join returns when the thread has ended.\<close>

definition look_at :: "('a, 's) kthread \<Rightarrow> bool \<Rightarrow> (('a, 's) kthread \<times> bool) option" where
  "look_at t keep =
     (if \<not> ti_term (th_info t) then
        (if ti_finished (th_info t)
         then (if has_exited (th_phase t) then Some (t\<lparr>th_info := (th_info t)\<lparr>ti_term := True\<rparr>\<rparr>, keep)
               else None)
         else Some (t, True))
      else Some (t, keep))"

definition main_step :: "('a, 's) node list \<Rightarrow> ('a, 's) exec \<Rightarrow> ('a, 's) exec" where
  "main_step nds s =
     (case main_at s of
        Create n \<Rightarrow>
          (if n < length nds
           then s\<lparr>threads := threads s @ [new_thread n (nds ! n)], main_at := Create (n + 1)\<rparr>
           else s\<lparr>main_at := Look 0 False\<rparr>)
      | Look n keep \<Rightarrow>
          (if n < length (threads s)
           then (case look_at (threads s ! n) keep of
                   None \<Rightarrow> s
                 | Some (t, keep1) \<Rightarrow> s\<lparr>threads := (threads s)[n := t], main_at := Look (n + 1) keep1\<rparr>)
           else s\<lparr>main_at := (if keep then Look 0 False else Start_returned)\<rparr>)
      | Start_returned \<Rightarrow> s)"

definition kernel_step :: "(nat \<Rightarrow> alloc_kind) \<Rightarrow> ('a, 's) node list \<Rightarrow> nat \<Rightarrow> ('a, 's) exec \<Rightarrow> ('a, 's) exec" where
  "kernel_step kinds nds j s =
     (let (t, w) = thread_step kinds (nds ! j) (threads s ! j) (world_of s)
      in s\<lparr>threads := (threads s)[j := t], world_of := w\<rparr>)"

definition aborted :: "('a, 's) exec \<Rightarrow> bool" where
  "aborted s \<longleftrightarrow> list_ex (\<lambda>t. case th_phase t of Aborted _ \<Rightarrow> True | _ \<Rightarrow> False) (threads s)"

inductive exec_step :: "(nat \<Rightarrow> alloc_kind) \<Rightarrow> ('a, 's) node list \<Rightarrow> ('a, 's) exec \<Rightarrow> ('a, 's) exec \<Rightarrow> bool"
  for kinds nds where
  main: "\<not> aborted s \<Longrightarrow> exec_step kinds nds s (main_step nds s)"
| kernel: "\<not> aborted s \<Longrightarrow> j < length (threads s) \<Longrightarrow> exec_step kinds nds s (kernel_step kinds nds j s)"

definition exec_init :: "'a streams \<Rightarrow> ('a, 's) exec" where
  "exec_init f =
     \<lparr>world_of = \<lparr>fifos = f, sent = (\<lambda>_. []), got = (\<lambda>_. [])\<rparr>, threads = [], main_at = Create 0\<rparr>"

inductive exec_reachable :: "(nat \<Rightarrow> alloc_kind) \<Rightarrow> ('a, 's) node list \<Rightarrow> ('a, 's) exec \<Rightarrow> ('a, 's) exec \<Rightarrow> bool"
  for kinds nds s0 where
  start: "exec_reachable kinds nds s0 s0"
| step: "exec_reachable kinds nds s0 s \<Longrightarrow> exec_step kinds nds s t \<Longrightarrow> exec_reachable kinds nds s0 t"

text \<open>A schedule given as a list: None lets start act, Some j the thread j.\<close>

fun run_exec :: "(nat \<Rightarrow> alloc_kind) \<Rightarrow> ('a, 's) node list \<Rightarrow> nat option list \<Rightarrow> ('a, 's) exec \<Rightarrow> ('a, 's) exec" where
  "run_exec kinds nds [] s = s"
| "run_exec kinds nds (x # xs) s =
     run_exec kinds nds xs
       (if aborted s then s
        else case x of
               None \<Rightarrow> main_step nds s
             | Some j \<Rightarrow> if j < length (threads s) then kernel_step kinds nds j s else s)"

lemma exec_reachable_trans:
  "exec_reachable kinds nds t u \<Longrightarrow> exec_reachable kinds nds s t \<Longrightarrow> exec_reachable kinds nds s u"
  by (induction rule: exec_reachable.induct) (auto intro: exec_reachable.step)

lemma run_exec_reachable: "exec_reachable kinds nds s (run_exec kinds nds xs s)"
proof (induction xs arbitrary: s)
  case (Cons x xs)
  have "exec_reachable kinds nds s (if aborted s then s
        else case x of
               None \<Rightarrow> main_step nds s
             | Some j \<Rightarrow> if j < length (threads s) then kernel_step kinds nds j s else s)"
    by (auto split: option.split intro: exec_reachable.intros exec_step.intros)
  then show ?case using exec_reachable_trans [OF Cons.IH] by simp
qed (simp add: exec_reachable.start)

end
