(* ===== verification/Execution_Pass.thy ===== *)
theory Execution_Pass
  imports Execution
begin

text \<open>
  A thread that is not interrupted: its steps from the test for data to the end of the pass
  compute kernelRun.
\<close>

definition alone :: "(nat \<Rightarrow> alloc_kind) \<Rightarrow> ('a, 's) node \<Rightarrow> ('a, 's) kthread \<times> 'a world \<Rightarrow> ('a, 's) kthread \<times> 'a world \<Rightarrow> bool" where
  "alone kinds nd x y \<longleftrightarrow> (\<exists>n. ((\<lambda>(t, w). thread_step kinds nd t w) ^^ n) x = y)"

lemma alone_refl: "alone kinds nd x x"
  unfolding alone_def by (intro exI [of _ 0]) simp

lemma alone_step:
  assumes "thread_step kinds nd t w = x" and "alone kinds nd x y"
  shows "alone kinds nd (t, w) y"
proof -
  obtain n where "((\<lambda>(t, w). thread_step kinds nd t w) ^^ n) x = y" using assms(2) by (auto simp: alone_def)
  then show ?thesis using assms(1) unfolding alone_def
    by (intro exI [of _ "Suc n"]) (simp add: funpow_swap1)
qed

lemma alone_trans: "alone kinds nd x y \<Longrightarrow> alone kinds nd y z \<Longrightarrow> alone kinds nd x z"
  unfolding alone_def by (metis funpow_add comp_apply)

lemma goto_simps [simp]:
  "th_phase (goto p t) = p" "th_info (goto p t) = th_info t" "th_local (goto p t) = th_local t"
  "stopped (goto p t) = stopped t" "goto q (goto p t) = goto q t"
  by (simp_all add: goto_def)

lemma goto_same: "th_phase t = p \<Longrightarrow> goto p t = t"
  by (cases t) (simp add: goto_def)

lemma set_finished_simps [simp]:
  "ti_finished (th_info (set_finished t))" "ti_term (th_info (set_finished t)) = ti_term (th_info t)"
  "th_phase (set_finished t) = th_phase t" "th_local (set_finished t) = th_local t"
  "stopped (set_finished t) = stopped t"
  by (simp_all add: set_finished_def)

lemma as_kernel_simps [simp]:
  "k_input (as_kernel kinds nd st) = n_input nd" "k_output (as_kernel kinds nd st) = n_output nd"
  "k_sched_behav (as_kernel kinds nd st) = n_behav nd"
  "k_run (as_kernel kinds nd st) w =
     bind_outcome (run_action kinds (n_code nd st) w) (\<lambda>r. Returned (fst r))"
  by (simp_all add: as_kernel_def)

lemma alone_action:
  assumes "run_action kinds a (fifos w) = Returned (r, st) f" and "th_phase t = In_run a"
  shows "\<exists>w1. fifos w1 = f \<and> alone kinds nd (t, w) (goto (In_run (Return r st)) t, w1)"
  using assms
proof (induction a arbitrary: t w)
  case (Return r' st')
  then show ?case by (intro exI [of _ w]) (auto simp: goto_same alone_refl)
next
  case (Pop i g)
  then obtain e f1 where e: "at_port i (pop_elem (kinds i)) (fifos w) = Returned e f1"
      "run_action kinds (g e) f1 = Returned (r, st) f"
    by (cases "at_port i (pop_elem (kinds i)) (fifos w)") auto
  let ?w = "w\<lparr>fifos := f1, got := (got w)(i := got w i @ [e])\<rparr>"
  obtain w1 where w1: "fifos w1 = f"
      "alone kinds nd (goto (In_run (g e)) t, ?w) (goto (In_run (Return r st)) (goto (In_run (g e)) t), w1)"
    using Pop.IH [of "g e" ?w "goto (In_run (g e)) t"] e(2) by auto
  have "thread_step kinds nd t w = (goto (In_run (g e)) t, ?w)"
    using Pop.prems(2) e(1) by (simp add: thread_step_def)
  from alone_step [OF this w1(2)] w1(1) show ?case by auto
next
  case (Push i e a)
  then obtain f1 where e: "at_port i (push_elem e) (fifos w) = Returned () f1"
      "run_action kinds a f1 = Returned (r, st) f"
    by (cases "at_port i (push_elem e) (fifos w)") auto
  let ?w = "w\<lparr>fifos := f1, sent := (sent w)(i := sent w i @ [e])\<rparr>"
  obtain w1 where w1: "fifos w1 = f"
      "alone kinds nd (goto (In_run a) t, ?w) (goto (In_run (Return r st)) (goto (In_run a) t), w1)"
    using Push.IH [of ?w "goto (In_run a) t"] e(2) by auto
  have "thread_step kinds nd t w = (goto (In_run a) t, ?w)"
    using Push.prems(2) e(1) by (simp add: thread_step_def)
  from alone_step [OF this w1(2)] w1(1) show ?case by auto
qed

lemma alone_close:
  "alone kinds nd (goto (Close_stop is) t, w)
     (goto Set_stop t, w\<lparr>fifos := fold (\<lambda>i f. f(i := invalidate (f i))) is (fifos w)\<rparr>)"
  "alone kinds nd (goto (Close_drained rc is) t, w)
     (goto (Set_drained rc) t, w\<lparr>fifos := fold (\<lambda>i f. f(i := invalidate (f i))) is (fifos w)\<rparr>)"
proof (induction "is" arbitrary: w)
  case Nil
  {
    case 1
    show ?case by (rule alone_step [OF _ alone_refl]) (simp add: thread_step_def)
  next
    case 2
    show ?case by (rule alone_step [OF _ alone_refl]) (simp add: thread_step_def)
  }
next
  case (Cons i "is")
  {
    case 1
    show ?case using Cons.IH(1) [of "close_port i w"]
      by (intro alone_step [OF refl]) (simp add: thread_step_def close_port_def)
  next
    case 2
    show ?case using Cons.IH(2) [of "close_port i w"]
      by (intro alone_step [OF refl]) (simp add: thread_step_def close_port_def)
  }
qed

text \<open>The two halves of kernelRun.\<close>

lemma alone_first:
  assumes "kernelRun_first (as_kernel kinds nd (th_local t)) False (fifos w) = Returned (rc, fin) f"
    and "th_phase t = Has_data" and "\<not> ti_finished (th_info t)"
  shows "\<exists>t1 w1. alone kinds nd (t, w) (t1, w1) \<and> th_phase t1 = Ports_valid rc \<and> fifos w1 = f
    \<and> ti_finished (th_info t1) = fin"
proof -
  let ?k = "as_kernel kinds nd (th_local t)" and ?a = "n_code nd (th_local t)"
  obtain has f1 where has: "kernelHasInputData ?k (fifos w) = Returned has f1"
    using assms(1) by (cases "kernelHasInputData ?k (fifos w)") (auto simp: kernelRun_first_def)
  let ?w1 = "w\<lparr>fifos := f1\<rparr>"
  have step: "thread_step kinds nd t w = (goto (if has then In_run ?a else Ports_valid False) t, ?w1)"
    using has assms(2) by (simp add: thread_step_def)
  show ?thesis
  proof (cases has)
    case False
    then show ?thesis using alone_step [OF step alone_refl] has assms(1,3)
      by (intro exI [of _ "goto (Ports_valid False) t"] exI [of _ ?w1]) (auto simp: kernelRun_first_def)
  next
    case True
    obtain r st f2 where r: "run_action kinds ?a f1 = Returned (r, st) f2"
      using has True assms(1) by (cases "run_action kinds ?a f1") (auto simp: kernelRun_first_def)
    obtain w2 where w2: "fifos w2 = f2"
        "alone kinds nd (goto (In_run ?a) t, ?w1) (goto (In_run (Return r st)) t, w2)"
      using alone_action [of kinds ?a ?w1 r st f2 "goto (In_run ?a) t" nd] r by auto
    have to: "alone kinds nd (t, w) (goto (In_run (Return r st)) t, w2)"
      using alone_step [OF step] True w2(2) by simp
    show ?thesis
    proof (cases r)
      case proceed
      have "alone kinds nd (t, w) (goto (Ports_valid True) (t\<lparr>th_local := st\<rparr>), w2)"
        by (rule alone_trans [OF to alone_step [OF _ alone_refl]])
          (simp add: thread_step_def proceed goto_def)
      then show ?thesis using has True r proceed assms w2(1)
        by (intro exI [of _ "goto (Ports_valid True) (t\<lparr>th_local := st\<rparr>)"] exI [of _ w2])
          (auto simp: kernelRun_first_def)
    next
      case stop
      let ?t = "t\<lparr>th_local := st, stopped := True\<rparr>"
        and ?w = "w2\<lparr>fifos := invalidateOutputPorts ?k f2\<rparr>"
      have "alone kinds nd (t, w) (goto Set_stop ?t, ?w)"
        using alone_close(1) [of kinds nd "n_output nd" ?t w2] w2(1)
        by (intro alone_trans [OF to] alone_step [OF refl])
          (simp add: thread_step_def stop goto_def invalidateOutputPorts_def)
      then have "alone kinds nd (t, w) (goto (Ports_valid True) (set_finished ?t), ?w)"
        by (rule alone_trans) (rule alone_step [OF _ alone_refl], simp add: thread_step_def set_finished_def goto_def)
      then show ?thesis using has True r stop assms
        by (intro exI [of _ "goto (Ports_valid True) (set_finished ?t)"] exI [of _ ?w])
          (auto simp: kernelRun_first_def)
    qed
  qed
qed

lemma alone_second:
  assumes "kernelRun_second (\<lambda>w. w) (as_kernel kinds nd st) rc fin (fifos w) = Returned (rc', fin') f"
    and "th_phase t = Ports_valid rc" and "ti_finished (th_info t) = fin"
  shows "\<exists>t1 w1. alone kinds nd (t, w) (t1, w1) \<and> th_phase t1 = Pass_done rc' \<and> fifos w1 = f
    \<and> ti_finished (th_info t1) = fin'"
proof -
  let ?k = "as_kernel kinds nd (th_local t)"
  have same: "kernelHasNoInputPorts (as_kernel kinds nd st) = kernelHasNoInputPorts ?k"
    "kernelHasInputData (as_kernel kinds nd st) = kernelHasInputData ?k"
    "invalidateOutputPorts (as_kernel kinds nd st) = invalidateOutputPorts ?k"
    by (rule ext, simp add: kernelHasNoInputPorts_def kernelHasInputData_def invalidateOutputPorts_def)+
  note run = assms(1) [unfolded kernelRun_second_def same]
  show ?thesis
  proof (cases "kernelHasNoInputPorts ?k (fifos w)")
    case False
    then have "thread_step kinds nd t w = (goto (Pass_done rc) t, w)"
      using assms(2) by (simp add: thread_step_def)
    then show ?thesis using alone_step [OF _ alone_refl] run False assms(3) by fastforce
  next
    case True
    have step1: "thread_step kinds nd t w = (goto (Data_again rc) t, w)"
      using assms(2) True by (simp add: thread_step_def)
    obtain has f1 where has: "kernelHasInputData ?k (fifos w) = Returned has f1"
      using run True by (cases "kernelHasInputData ?k (fifos w)") auto
    let ?w1 = "w\<lparr>fifos := f1\<rparr>"
    have step2: "thread_step kinds nd (goto (Data_again rc) t) w =
        (goto (if has then Pass_done rc else Close_drained rc (n_output nd)) t, ?w1)"
      using has by (simp add: thread_step_def)
    show ?thesis
    proof (cases has)
      case True
      then show ?thesis
        using alone_step [OF step1 alone_step [OF step2 alone_refl]] run has \<open>kernelHasNoInputPorts ?k (fifos w)\<close> assms(3)
        by (intro exI [of _ "goto (Pass_done rc) t"] exI [of _ ?w1]) auto
    next
      case False
      let ?w = "?w1\<lparr>fifos := invalidateOutputPorts ?k f1\<rparr>"
      have "alone kinds nd (goto (Close_drained rc (n_output nd)) t, ?w1) (goto (Set_drained rc) t, ?w)"
        using alone_close(2) [of kinds nd rc "n_output nd" t ?w1] by (simp add: invalidateOutputPorts_def)
      then have "alone kinds nd (t, w) (goto (Set_drained rc) t, ?w)"
        using alone_step [OF step1 alone_step [OF step2]] False by simp
      then have "alone kinds nd (t, w) (goto (Pass_done rc) (set_finished t), ?w)"
        by (rule alone_trans) (rule alone_step [OF _ alone_refl], simp add: thread_step_def set_finished_def goto_def)
      then show ?thesis using run has False True
        by (intro exI [of _ "goto (Pass_done rc) (set_finished t)"] exI [of _ ?w]) auto
    qed
  qed
qed


end
