(* ===== verification/Execution_Inv.thy ===== *)
theory Execution_Inv
  imports Execution_Pass
begin

text \<open>
  The invariant of a running map, thread by thread: what a thread may assume of the others
  (rely), what it does to the streams (guarantee), and that start counts correctly.
\<close>

section \<open>Programs\<close>

text \<open>A run uses the ports of its kernel only.\<close>

primrec action_ok :: "nat set \<Rightarrow> nat set \<Rightarrow> ('a, 's) action \<Rightarrow> bool" where
  "action_ok ins outs (Return r s) = True"
| "action_ok ins outs (Pop i f) = (i \<in> ins \<and> (\<forall>e. action_ok ins outs (f e)))"
| "action_ok ins outs (Push i e a) = (i \<in> outs \<and> action_ok ins outs a)"

definition node_ok :: "('a, 's) node \<Rightarrow> bool" where
  "node_ok nd \<longleftrightarrow> (n_behav nd = any_port \<or> n_behav nd = all_port) \<and>
     (\<forall>st. action_ok (set (n_input nd)) (set (n_output nd)) (n_code nd st))"

text \<open>
  A stream connects at most one output port to at most one input port.
\<close>

definition streams_private :: "('a, 's) node list \<Rightarrow> bool" where
  "streams_private nds \<longleftrightarrow>
     (\<forall>j < length nds. \<forall>k < length nds. j \<noteq> k \<longrightarrow>
        set (n_output (nds ! j)) \<inter> set (n_output (nds ! k)) = {} \<and>
        set (n_input (nds ! j)) \<inter> set (n_input (nds ! k)) = {})"

definition program_ok :: "('a, 's) node list \<Rightarrow> bool" where
  "program_ok nds \<longleftrightarrow> streams_private nds \<and> (\<forall>nd \<in> set nds. node_ok nd)"

text \<open>The streams at the start: new, open and empty, with some capacity.\<close>

definition streams_new :: "'a streams \<Rightarrow> bool" where
  "streams_new f \<longleftrightarrow> (\<forall>i. ring_inv (f i) \<and> elems (f i) = [] \<and> \<not> is_invalid (f i) \<and> 0 < cap (f i))"

section \<open>Streams\<close>

definition world_ok :: "'a streams \<Rightarrow> 'a world \<Rightarrow> bool" where
  "world_ok f0 w \<longleftrightarrow>
     (\<forall>i. ring_inv (fifos w i) \<and> sent w i = got w i @ elems (fifos w i) \<and>
        cap (fifos w i) = cap (f0 i) \<and> room (fifos w i) = room (f0 i) - length (sent w i))"

text \<open>No counter of a stream has overflowed yet.\<close>

definition in_lifetime :: "'a streams \<Rightarrow> 'a world \<Rightarrow> bool" where
  "in_lifetime f0 w \<longleftrightarrow> (\<forall>i. length (sent w i) < room (f0 i))"

lemma world_okD:
  assumes "world_ok f0 w"
  shows "ring_inv (fifos w i)" "sent w i = got w i @ elems (fifos w i)"
    "cap (fifos w i) = cap (f0 i)" "room (fifos w i) = room (f0 i) - length (sent w i)"
  using assms by (simp_all add: world_ok_def)

lemma world_ok_quiet: "world_ok f0 w \<Longrightarrow> quiet (fifos w)"
  by (simp add: world_ok_def quiet_def ring_inv_def)

lemma world_room: "world_ok f0 w \<Longrightarrow> in_lifetime f0 w \<Longrightarrow> 0 < room (fifos w i)"
  by (simp add: world_ok_def in_lifetime_def)

lemma same_queue_stream:
  assumes "same_queue s t"
  shows "ring_inv t = ring_inv s" "elems t = elems s" "cap t = cap s" "room t = room s"
    "is_invalid t = is_invalid s" "queue t = queue s"
  using same_queue_ring [OF assms] same_queue_simps [OF assms] by simp_all

lemma push_elem_keeps_open:
  assumes "ring_inv s" and "push_elem e s = Returned () t"
  shows "is_invalid t = is_invalid s"
proof -
  have s: "fifo_ok s" "\<not> resizing s" using assms(1) by (simp_all add: ring_inv_def)
  show ?thesis
  proof (cases "length (queue s) < cap s")
    case True
    obtain u where "push_elem e s = Returned () u" "wrote s (pushed (Some (fst e)) s) (snd e) u"
      using local_push_cases(2) [OF s(1,2) True] unfolding push_elem_def by metis
    then show ?thesis using assms(2) by (simp add: wrote_def same_frame_simps)
  next
    case False
    then have "length (elems s) = cap s" using fifo_ok_queue_le [OF s(1)] by simp
    then obtain u where "push_elem e s = Spin u" using push_elem_full [OF assms(1), of e] by blast
    then show ?thesis using assms(2) by simp
  qed
qed

text \<open>A call on one stream: what it can do.\<close>

lemma pop_at:
  assumes "world_ok f0 w" and "in_lifetime f0 w"
  obtains (took) e q f where "elems (fifos w i) = e # q" "at_port i (pop_elem (kinds i)) (fifos w) = Returned e f"
      "ring_inv (f i)" "elems (f i) = q" "cap (f i) = cap (fifos w i)" "room (f i) = room (fifos w i)"
      "is_invalid (f i) = is_invalid (fifos w i)" "\<And>j. j \<noteq> i \<Longrightarrow> f j = fifos w j"
  | (wait) f where "elems (fifos w i) = []" "\<not> is_invalid (fifos w i)"
      "at_port i (pop_elem (kinds i)) (fifos w) = Spin f" "\<And>j. same_queue (fifos w j) (f j)"
  | (throw) f where "elems (fifos w i) = []" "is_invalid (fifos w i)"
      "at_port i (pop_elem (kinds i)) (fifos w) = Raised ClosedPortAccess f" "\<And>j. same_queue (fifos w j) (f j)"
proof (cases "elems (fifos w i)")
  case (Cons e q)
  obtain u where "pop_elem (kinds i) (fifos w i) = Returned e u" "ring_inv u" "elems u = q"
      "cap u = cap (fifos w i)" "room u = room (fifos w i)" "is_invalid u = is_invalid (fifos w i)"
    using pop_elem_takes [OF world_okD(1) [OF assms(1)] Cons world_room [OF assms]] by blast
  then show thesis by (intro took [OF Cons, of "(fifos w)(i := u)"]) (simp_all add: at_port_def)
next
  case Nil
  note p = pop_elem_empty [OF world_okD(1) [OF assms(1)] Nil, of "kinds i"]
  let ?f = "(fifos w)(i := enterBuffer dm_pop (fifos w i))"
  show thesis
  proof (cases "is_invalid (fifos w i)")
    case True
    show thesis by (rule throw [OF Nil True, of ?f]) (simp_all add: at_port_def p True)
  next
    case False
    show thesis by (rule wait [OF Nil False, of ?f]) (simp_all add: at_port_def p False)
  qed
qed

lemma push_at:
  assumes "world_ok f0 w" and "in_lifetime f0 w"
  obtains (put) f where "length (elems (fifos w i)) < cap (f0 i)" "at_port i (push_elem e) (fifos w) = Returned () f"
      "ring_inv (f i)" "elems (f i) = elems (fifos w i) @ [e]" "cap (f i) = cap (fifos w i)"
      "room (f i) = room (fifos w i) - 1" "is_invalid (f i) = is_invalid (fifos w i)"
      "\<And>j. j \<noteq> i \<Longrightarrow> f j = fifos w j"
  | (wait) f where "length (elems (fifos w i)) = cap (f0 i)"
      "at_port i (push_elem e) (fifos w) = Spin f" "\<And>j. same_queue (fifos w j) (f j)"
proof (cases "length (elems (fifos w i)) < cap (fifos w i)")
  case True
  note r = world_okD(1) [OF assms(1), of i]
  obtain u where u: "push_elem e (fifos w i) = Returned () u" "ring_inv u" "elems u = elems (fifos w i) @ [e]"
      "cap u = cap (fifos w i)" "room u = room (fifos w i) - 1"
    using push_elem_accepts [OF r True world_room [OF assms]] by blast
  show thesis
    by (rule put [of "(fifos w)(i := u)"])
      (use True u push_elem_keeps_open [OF r u(1)] world_okD(3) [OF assms(1), of i] in \<open>simp_all add: at_port_def\<close>)
next
  case False
  note r = world_okD(1) [OF assms(1), of i]
  have full: "length (elems (fifos w i)) = cap (fifos w i)"
    using False r fifo_ok_queue_le [of "fifos w i"] by (simp add: ring_inv_def)
  obtain u where u: "push_elem e (fifos w i) = Spin u" "same_queue (fifos w i) u"
    using push_elem_full [OF r full] by blast
  show thesis
    by (rule wait [of "(fifos w)(i := u)"])
      (use full u world_okD(3) [OF assms(1), of i] in \<open>simp_all add: at_port_def\<close>)
qed

lemma world_ok_same:
  assumes "world_ok f0 w" and "\<And>j. same_queue (fifos w j) (f j)"
  shows "world_ok f0 (w\<lparr>fifos := f\<rparr>)"
  using assms(1) by (simp add: world_ok_def same_queue_stream [OF assms(2)])

lemma world_ok_close: "world_ok f0 w \<Longrightarrow> world_ok f0 (close_port i w)"
  by (simp add: world_ok_def close_port_def)

section \<open>Threads\<close>

fun closing_phase :: "('a, 's) phase \<Rightarrow> bool" where
  "closing_phase (Close_stop _) = True"
| "closing_phase Set_stop = True"
| "closing_phase (Close_drained _ _) = True"
| "closing_phase (Set_drained _) = True"
| "closing_phase _ = False"

definition closing :: "('a, 's) kthread \<Rightarrow> bool" where
  "closing t \<longleftrightarrow> ti_finished (th_info t) \<or> closing_phase (th_phase t)"

definition closed_all :: "nat list \<Rightarrow> 'a streams \<Rightarrow> bool" where
  "closed_all is f \<longleftrightarrow> (\<forall>i \<in> set is. is_invalid (f i))"

text \<open>The kernel will never have the data it waits for.\<close>

definition drained :: "('a, 's) node \<Rightarrow> 'a streams \<Rightarrow> bool" where
  "drained nd f \<longleftrightarrow> closed_all (n_input nd) f \<and> n_input nd \<noteq> [] \<and>
     (if n_behav nd = any_port then \<forall>i \<in> set (n_input nd). queue (f i) = []
      else \<exists>i \<in> set (n_input nd). queue (f i) = [])"

fun phase_ok :: "('a, 's) node \<Rightarrow> ('a, 's) kthread \<Rightarrow> 'a streams \<Rightarrow> ('a, 's) phase \<Rightarrow> bool" where
  "phase_ok nd t f Has_data = (\<not> ti_finished (th_info t))"
| "phase_ok nd t f (In_run a) =
     (\<not> ti_finished (th_info t) \<and> action_ok (set (n_input nd)) (set (n_output nd)) a)"
| "phase_ok nd t f (Close_stop is) =
     (stopped t \<and> set is \<subseteq> set (n_output nd) \<and> (\<forall>i \<in> set (n_output nd). i \<notin> set is \<longrightarrow> is_invalid (f i)))"
| "phase_ok nd t f Set_stop = (stopped t \<and> closed_all (n_output nd) f)"
| "phase_ok nd t f (Data_again rc) = closed_all (n_input nd) f"
| "phase_ok nd t f (Close_drained rc is) =
     (drained nd f \<and> set is \<subseteq> set (n_output nd) \<and> (\<forall>i \<in> set (n_output nd). i \<notin> set is \<longrightarrow> is_invalid (f i)))"
| "phase_ok nd t f (Set_drained rc) = (drained nd f \<and> closed_all (n_output nd) f)"
| "phase_ok nd t f Exited = ti_finished (th_info t)"
| "phase_ok nd t f (Aborted x) =
     (x = Inl ClosedPortAccess \<and> (\<exists>i \<in> set (n_input nd). is_invalid (f i) \<and> queue (f i) = []))"
| "phase_ok nd t f _ = True"

definition thread_ok :: "('a, 's) node \<Rightarrow> ('a, 's) kthread \<Rightarrow> 'a streams \<Rightarrow> bool" where
  "thread_ok nd t f \<longleftrightarrow>
     (\<not> closing t \<longrightarrow> (\<forall>i \<in> set (n_output nd). \<not> is_invalid (f i))) \<and>
     (ti_finished (th_info t) \<longrightarrow> closed_all (n_output nd) f \<and> (stopped t \<or> drained nd f)) \<and>
     phase_ok nd t f (th_phase t)"

text \<open>What one thread does to the streams, as far as the others can see.\<close>

definition guarantee :: "('a, 's) node \<Rightarrow> 'a streams \<Rightarrow> 'a streams \<Rightarrow> bool" where
  "guarantee nd f f' \<longleftrightarrow>
     (\<forall>i. (is_invalid (f i) \<longrightarrow> is_invalid (f' i)) \<and>
       (i \<notin> set (n_output nd) \<longrightarrow> is_invalid (f' i) = is_invalid (f i)) \<and>
       (i \<notin> set (n_input nd) \<and> is_invalid (f i) \<longrightarrow> queue (f' i) = queue (f i)) \<and>
       (i \<notin> set (n_input nd) \<and> queue (f i) \<noteq> [] \<longrightarrow> queue (f' i) \<noteq> []))"

lemma guarantee_refl [simp]: "guarantee nd f f"
  by (simp add: guarantee_def)

lemma guarantee_same:
  assumes "\<And>j. same_queue (f j) (f' j)"
  shows "guarantee nd f f'"
  by (simp add: guarantee_def same_queue_stream [OF assms])

lemma drained_stable:
  assumes "drained nd f" and "guarantee md f f'" and "set (n_input nd) \<inter> set (n_input md) = {}"
  shows "drained nd f'"
proof -
  have "queue (f' i) = queue (f i)" if "i \<in> set (n_input nd)" for i
    using assms that by (auto simp: drained_def closed_all_def guarantee_def)
  then show ?thesis using assms(1,2) by (auto simp: drained_def closed_all_def guarantee_def)
qed

lemma closed_all_stable: "closed_all is f \<Longrightarrow> guarantee md f f' \<Longrightarrow> closed_all is f'"
  by (simp add: closed_all_def guarantee_def)

lemma phase_ok_stable:
  assumes "phase_ok nd t f p" and "guarantee md f f'" and "set (n_input nd) \<inter> set (n_input md) = {}"
  shows "phase_ok nd t f' p"
proof -
  have "is_invalid (f' i) \<and> queue (f' i) = []" if "i \<in> set (n_input nd)" "is_invalid (f i)" "queue (f i) = []" for i
    using assms(2,3) that by (auto simp: guarantee_def)
  then show ?thesis
    using assms(1) drained_stable [OF _ assms(2,3)] closed_all_stable [OF _ assms(2)] assms(2)
    by (cases p) (auto simp: guarantee_def)
qed

lemma thread_ok_stable:
  assumes "thread_ok nd t f" and "guarantee md f f'"
    and "set (n_input nd) \<inter> set (n_input md) = {}" and "set (n_output nd) \<inter> set (n_output md) = {}"
  shows "thread_ok nd t f'"
proof -
  have same: "is_invalid (f' i) = is_invalid (f i)" if "i \<in> set (n_output nd)" for i
    using assms(2,4) that by (auto simp: guarantee_def)
  show ?thesis
    using assms(1) phase_ok_stable [OF _ assms(2,3)] drained_stable [OF _ assms(2,3)]
      closed_all_stable [OF _ assms(2)] same
    by (auto simp: thread_ok_def)
qed

section \<open>Steps of a thread\<close>

definition step_ok :: "'a streams \<Rightarrow> ('a, 's) node \<Rightarrow> 'a world \<Rightarrow> ('a, 's) kthread \<times> 'a world \<Rightarrow> bool" where
  "step_ok f0 nd w tw \<longleftrightarrow>
     world_ok f0 (snd tw) \<and> thread_ok nd (fst tw) (fifos (snd tw)) \<and> guarantee nd (fifos w) (fifos (snd tw))"

lemma step_ok_goto:
  assumes "world_ok f0 w" and "thread_ok nd t (fifos w)" and "phase_ok nd t (fifos w) p"
    and "closing t \<Longrightarrow> ti_finished (th_info t) \<or> closing_phase p"
  shows "step_ok f0 nd w (goto p t, w)"
proof -
  have "phase_ok nd (goto p t) (fifos w) p" using assms(3) by (cases p) simp_all
  then show ?thesis using assms by (auto simp: step_ok_def thread_ok_def closing_def)
qed

lemma step_ok_quiet:
  assumes "world_ok f0 w" and "thread_ok nd t (fifos w)" and "\<And>j. same_queue (fifos w j) (f j)"
  shows "step_ok f0 nd w (t, w\<lparr>fifos := f\<rparr>)"
  using world_ok_same [OF assms(1,3)] guarantee_same [of "fifos w" f, OF assms(3)] assms(2)
    thread_ok_stable [OF assms(2), of "nd\<lparr>n_input := [], n_output := []\<rparr>" f]
    guarantee_same [of "fifos w" f "nd\<lparr>n_input := [], n_output := []\<rparr>", OF assms(3)]
  by (simp add: step_ok_def)

lemma step_ok_trans:
  assumes "step_ok f0 nd w (t1, w1)" and "step_ok f0 nd w1 tw"
  shows "step_ok f0 nd w tw"
  using assms by (auto simp: step_ok_def guarantee_def)

lemma step_ok_close:
  assumes "world_ok f0 w" and "thread_ok nd t (fifos w)" and "i \<in> set (n_output nd)"
    and "th_phase t = Close_stop (i # is) \<and> p = Close_stop is \<or>
      th_phase t = Close_drained rc (i # is) \<and> p = Close_drained rc is"
  shows "step_ok f0 nd w (goto p t, close_port i w)"
proof -
  have g: "guarantee nd (fifos w) (fifos (close_port i w))"
    using assms(3) by (simp add: guarantee_def close_port_def)
  have keep: "drained nd (fifos w) \<Longrightarrow> drained nd (fifos (close_port i w))"
    "closed_all (n_output nd) (fifos w) \<Longrightarrow> closed_all (n_output nd) (fifos (close_port i w))"
    by (auto simp: drained_def closed_all_def close_port_def)
  have "thread_ok nd (goto p t) (fifos (close_port i w))"
    using assms(2,4) keep by (auto simp: thread_ok_def closing_def) (auto simp: close_port_def)
  then show ?thesis using g world_ok_close [OF assms(1)] by (simp add: step_ok_def)
qed

lemma kernelHasInputData_world:
  assumes "world_ok f0 w" and "node_ok nd"
  shows "kernelHasInputData (as_kernel kinds nd st) (fifos w) =
    Returned (wants_data (as_kernel kinds nd st) (fifos w)) (fifos w)"
  using kernelHasInputData_eq [OF world_ok_quiet [OF assms(1)]] assms(2) by (simp add: node_ok_def)

lemma drained_eq:
  assumes "node_ok nd"
  shows "drained nd f \<longleftrightarrow> closed_all (n_input nd) f \<and> \<not> wants_data (as_kernel kinds nd st) f"
  using assms by (auto simp: drained_def wants_data_def node_ok_def)

lemma step_ok_action:
  assumes w: "world_ok f0 w" "in_lifetime f0 w" and t: "thread_ok nd t (fifos w)" "th_phase t = In_run a"
  shows "step_ok f0 nd w (action_step kinds nd a t w)"
proof (cases a)
  case (Return r st)
  have nf: "\<not> ti_finished (th_info t)" "\<forall>i \<in> set (n_output nd). \<not> is_invalid (fifos w i)"
    using t by (auto simp: thread_ok_def closing_def)
  show ?thesis using w(1) nf
    by (auto simp: Return Let_def step_ok_def thread_ok_def closing_def)
next
  case (Pop i f)
  have i: "i \<in> set (n_input nd)" "\<not> ti_finished (th_info t)" "\<forall>i \<in> set (n_output nd). \<not> is_invalid (fifos w i)"
    "\<And>e. action_ok (set (n_input nd)) (set (n_output nd)) (f e)"
    using t by (auto simp: thread_ok_def closing_def Pop)
  show ?thesis
  proof (cases rule: pop_at [OF w, of i kinds, case_names took wait throw])
    case (took e q g)
    have inv: "is_invalid (g j) = is_invalid (fifos w j)" for j using took(7,8) by (cases "j = i") simp_all
    have "g j = fifos w j" if "j \<notin> set (n_input nd)" for j
      using took(8) [of j] i(1) that by auto
    then have g: "guarantee nd (fifos w) g" using inv by (simp add: guarantee_def)
    have "world_ok f0 (w\<lparr>fifos := g, got := (got w)(i := got w i @ [e])\<rparr>)"
      using w(1) took by (auto simp: world_ok_def simp del: elems_length)
    then show ?thesis using took(2) g i inv by (auto simp: Pop step_ok_def thread_ok_def closing_def)
  next
    case (wait g)
    then show ?thesis using step_ok_quiet [OF w(1) t(1)] by (simp add: Pop)
  next
    case (throw g)
    have "step_ok f0 nd w (goto (Aborted (Inl ClosedPortAccess)) t, w)"
      by (rule step_ok_goto [OF w(1) t(1)])
        (use t(2) i(1) throw(1,2) elems_length [of "fifos w i"] in \<open>auto simp: closing_def simp del: elems_length\<close>)
    then have "thread_ok nd (goto (Aborted (Inl ClosedPortAccess)) t) (fifos w)" by (simp add: step_ok_def)
    from step_ok_quiet [OF w(1) this throw(4)] show ?thesis using throw(3) by (simp add: Pop)
  qed
next
  case (Push i e b)
  have i: "i \<in> set (n_output nd)" "\<not> ti_finished (th_info t)" "\<forall>i \<in> set (n_output nd). \<not> is_invalid (fifos w i)"
    "action_ok (set (n_input nd)) (set (n_output nd)) b"
    using t by (auto simp: thread_ok_def closing_def Push)
  show ?thesis
  proof (cases rule: push_at [OF w, of i e, case_names put wait])
    case (put g)
    have inv: "is_invalid (g j) = is_invalid (fifos w j)" for j using put(7,8) by (cases "j = i") simp_all
    have "g j = fifos w j" if "is_invalid (fifos w j)" for j
      using put(8) [of j] i(1,3) that by auto
    moreover have "queue (g j) \<noteq> []" if "queue (fifos w j) \<noteq> []" for j
      using put(4) put(8) [of j] that elems_length [of "g i"] by (cases "j = i") (auto simp del: elems_length)
    ultimately have g: "guarantee nd (fifos w) g" using inv by (simp add: guarantee_def)
    have "world_ok f0 (w\<lparr>fifos := g, sent := (sent w)(i := sent w i @ [e])\<rparr>)"
      using w(1) put by (auto simp: world_ok_def simp del: elems_length)
    then show ?thesis using put(2) g i inv by (auto simp: Push step_ok_def thread_ok_def closing_def)
  next
    case (wait g)
    then show ?thesis using step_ok_quiet [OF w(1) t(1)] by (simp add: Push)
  qed
qed

lemma thread_step_ok:
  assumes w: "world_ok f0 w" "in_lifetime f0 w" and t: "thread_ok nd t (fifos w)" and nd: "node_ok nd"
  shows "step_ok f0 nd w (thread_step kinds nd t w)"
proof -
  note ok = t [unfolded thread_ok_def]
  note data = kernelHasInputData_world [OF w(1) nd] and dr = drained_eq [OF nd, of _ kinds "th_local t"]
  note go = step_ok_goto [OF w(1) t]
  show ?thesis
  proof (cases "th_phase t")
    case Has_data
    have "action_ok (set (n_input nd)) (set (n_output nd)) (n_code nd (th_local t))"
      using nd by (simp add: node_ok_def)
    then show ?thesis using ok by (auto simp: thread_step_def Has_data data closing_def intro!: go)
  next
    case (In_run a)
    then show ?thesis using step_ok_action [OF w t In_run] by (simp add: thread_step_def)
  next
    case (Close_stop js)
    show ?thesis
    proof (cases js)
      case Nil
      then show ?thesis using ok Close_stop
        by (auto simp: thread_step_def closing_def closed_all_def intro!: go)
    next
      case (Cons i "is")
      then show ?thesis using ok Close_stop step_ok_close [OF w(1) t, of i "is"]
        by (simp add: thread_step_def)
    qed
  next
    case (Close_drained rc js)
    show ?thesis
    proof (cases js)
      case Nil
      then show ?thesis using ok Close_drained
        by (auto simp: thread_step_def closing_def closed_all_def intro!: go)
    next
      case (Cons i "is")
      then show ?thesis using ok Close_drained step_ok_close [OF w(1) t, of i "is"]
        by (simp add: thread_step_def)
    qed
  next
    case Set_stop
    then show ?thesis using ok w(1) by (auto simp: thread_step_def step_ok_def thread_ok_def closing_def)
  next
    case (Ports_valid rc)
    then show ?thesis using ok
      by (auto simp: thread_step_def kernelHasNoInputPorts_eq closing_def closed_all_def intro!: go)
  next
    case (Data_again rc)
    then show ?thesis using ok by (auto simp: thread_step_def data dr closing_def intro!: go)
  next
    case (Set_drained rc)
    then show ?thesis using ok w(1) by (auto simp: thread_step_def step_ok_def thread_ok_def closing_def)
  next
    case Loop_test
    then show ?thesis using ok by (auto simp: thread_step_def closing_def intro!: go)
  next
    case (Pass_done rc)
    then show ?thesis using ok by (auto simp: thread_step_def closing_def intro!: go)
  qed (use w(1) t in \<open>simp_all add: thread_step_def step_ok_def\<close>)
qed

end
