(* ===== verification/Execution_Props.thy ===== *)
theory Execution_Props
  imports Execution_Inv
begin

text \<open>
  The properties of a running map: order and conservation on every stream, what holds when
  start returns, and which errors can end a program.
\<close>

section \<open>The invariant of the program\<close>

fun main_ok :: "nat \<Rightarrow> ('a, 's) exec \<Rightarrow> main_pc \<Rightarrow> bool" where
  "main_ok c s (Create n) = (n = length (threads s))"
| "main_ok c s (Look n keep) =
     (length (threads s) = c \<and> n \<le> c \<and> (keep \<or> (\<forall>j < n. ti_term (th_info (threads s ! j)))))"
| "main_ok c s Start_returned = (length (threads s) = c \<and> (\<forall>j < c. ti_term (th_info (threads s ! j))))"

definition exec_ok :: "'a streams \<Rightarrow> ('a, 's) node list \<Rightarrow> ('a, 's) exec \<Rightarrow> bool" where
  "exec_ok f0 nds s \<longleftrightarrow>
     world_ok f0 (world_of s) \<and> length (threads s) \<le> length nds \<and>
     (\<forall>j < length (threads s). thread_ok (nds ! j) (threads s ! j) (fifos (world_of s)) \<and>
        (ti_term (th_info (threads s ! j)) \<longrightarrow> th_phase (threads s ! j) = Exited)) \<and>
     (\<forall>j < length nds. length (threads s) \<le> j \<longrightarrow>
        (\<forall>i \<in> set (n_output (nds ! j)). \<not> is_invalid (fifos (world_of s) i))) \<and>
     main_ok (length nds) s (main_at s)"

lemma exec_okD:
  assumes "exec_ok f0 nds s"
  shows "world_ok f0 (world_of s)" "length (threads s) \<le> length nds"
    "j < length (threads s) \<Longrightarrow> thread_ok (nds ! j) (threads s ! j) (fifos (world_of s))"
    "j < length (threads s) \<Longrightarrow> ti_term (th_info (threads s ! j)) \<Longrightarrow> th_phase (threads s ! j) = Exited"
    "j < length nds \<Longrightarrow> length (threads s) \<le> j \<Longrightarrow> i \<in> set (n_output (nds ! j)) \<Longrightarrow> \<not> is_invalid (fifos (world_of s) i)"
    "main_ok (length nds) s (main_at s)"
  using assms unfolding exec_ok_def by blast+

lemma program_okD:
  assumes "program_ok nds" and "j < length nds"
  shows "node_ok (nds ! j)"
    "k < length nds \<Longrightarrow> j \<noteq> k \<Longrightarrow> set (n_output (nds ! j)) \<inter> set (n_output (nds ! k)) = {}"
    "k < length nds \<Longrightarrow> j \<noteq> k \<Longrightarrow> set (n_input (nds ! j)) \<inter> set (n_input (nds ! k)) = {}"
  using assms by (auto simp: program_ok_def streams_private_def)

lemma exec_init_ok:
  fixes nds :: "('a, 's) node list"
  assumes "streams_new f0"
  shows "exec_ok f0 nds (exec_init f0)"
proof -
  let ?s = "exec_init f0 :: ('a, 's) exec"
  have s: "threads ?s = []" "main_at ?s = Create 0"
      "world_of ?s = \<lparr>fifos = f0, sent = (\<lambda>_. []), got = (\<lambda>_. [])\<rparr>"
    by (simp_all add: exec_init_def)
  have "world_ok f0 (world_of ?s)" "\<not> is_invalid (fifos (world_of ?s) i)" for i
    using assms unfolding world_ok_def streams_new_def s by simp_all
  then show ?thesis unfolding exec_ok_def by (simp add: s(1,2))
qed

lemma look_at_cases:
  assumes "look_at t keep = Some (t1, keep1)"
  obtains (join) "th_phase t = Exited" "keep1 = keep" "t1 = t\<lparr>th_info := (th_info t)\<lparr>ti_term := True\<rparr>\<rparr>"
  | (busy) "t1 = t" "keep1"
  | (old) "ti_term (th_info t)" "t1 = t" "keep1 = keep"
proof (cases "ti_term (th_info t)")
  case True
  with assms show thesis by (intro old) (simp_all add: look_at_def)
next
  case not_joined: False
  show thesis
  proof (cases "ti_finished (th_info t)")
    case True
    with assms not_joined show thesis by (intro join) (simp_all add: look_at_def has_exited_iff split: if_splits)
  next
    case False
    with assms not_joined show thesis by (intro busy) (simp_all add: look_at_def)
  qed
qed

lemma thread_ok_term:
  "thread_ok nd (t\<lparr>th_info := (th_info t)\<lparr>ti_term := True\<rparr>\<rparr>) f = thread_ok nd t f"
proof -
  have "phase_ok nd (t\<lparr>th_info := (th_info t)\<lparr>ti_term := True\<rparr>\<rparr>) f p = phase_ok nd t f p" for p
    by (cases p) simp_all
  then show ?thesis by (simp add: thread_ok_def closing_def)
qed

lemma look_at_ok:
  assumes ok: "exec_ok f0 nds s" and at: "main_at s = Look n keep" "n < length (threads s)"
    and look: "look_at (threads s ! n) keep = Some (t, keep1)"
  shows "exec_ok f0 nds (s\<lparr>threads := (threads s)[n := t], main_at := Look (n + 1) keep1\<rparr>)"
proof -
  note o = exec_okD [OF ok]
  have main: "length (threads s) = length nds" "keep \<or> (\<forall>j < n. ti_term (th_info (threads s ! j)))"
    using o(6) at by simp_all
  show ?thesis
  proof (cases rule: look_at_cases [OF look, case_names join busy old])
    case join
    have "thread_ok (nds ! n) t (fifos (world_of s))" using o(3) [OF at(2)] by (simp add: join thread_ok_term)
    then show ?thesis using ok main at by (auto simp: exec_ok_def nth_list_update join less_Suc_eq)
  next
    case busy
    then show ?thesis using ok main at by (auto simp: exec_ok_def)
  next
    case old
    then show ?thesis using ok main at by (auto simp: exec_ok_def less_Suc_eq)
  qed
qed

lemma main_step_ok:
  assumes "exec_ok f0 nds s"
  shows "exec_ok f0 nds (main_step nds s)"
proof (cases "main_at s")
  case (Create n)
  show ?thesis
  proof (cases "n < length nds")
    case True
    have "n = length (threads s)" using exec_okD(6) [OF assms] Create by simp
    then show ?thesis using assms Create True
      by (auto simp: main_step_def exec_ok_def nth_append new_thread_def thread_ok_def closing_def less_Suc_eq)
  next
    case False
    then show ?thesis using assms Create by (simp add: main_step_def exec_ok_def)
  qed
next
  case (Look n keep)
  show ?thesis
  proof (cases "n < length (threads s)")
    case True
    then show ?thesis using assms Look look_at_ok [OF assms Look True]
      by (auto simp: main_step_def split: option.split)
  next
    case False
    then show ?thesis using assms Look by (auto simp: main_step_def exec_ok_def)
  qed
qed (use assms in \<open>simp add: main_step_def\<close>)

lemma thread_step_term:
  "ti_term (th_info (fst (thread_step kinds nd t w))) = ti_term (th_info t)"
  "th_phase t = Exited \<Longrightarrow> thread_step kinds nd t w = (t, w)"
proof -
  have call: "(\<And>r f. ti_term (th_info (fst (k r (w\<lparr>fifos := f\<rparr>)))) = ti_term (th_info t)) \<Longrightarrow>
      ti_term (th_info (fst (after_call x k t w))) = ti_term (th_info t)" for x and k
    by (cases x) simp_all
  have "ti_term (th_info (fst (action_step kinds nd a t w))) = ti_term (th_info t)" for a
    by (cases a) (simp_all add: Let_def call)
  then show "ti_term (th_info (fst (thread_step kinds nd t w))) = ti_term (th_info t)"
    by (auto simp: thread_step_def Let_def call split: phase.split list.split)
qed (simp add: thread_step_def)

lemma kernel_step_ok:
  assumes ok: "exec_ok f0 nds s" and program_ok: "program_ok nds" and life: "in_lifetime f0 (world_of s)"
    and j: "j < length (threads s)"
  shows "exec_ok f0 nds (kernel_step kinds nds j s)"
proof -
  obtain t w where tw: "thread_step kinds (nds ! j) (threads s ! j) (world_of s) = (t, w)" by fastforce
  note o = exec_okD [OF ok]
  have jn: "j < length nds" using j o(2) by simp
  note wd = program_okD [OF program_ok jn]
  have "step_ok f0 (nds ! j) (world_of s) (t, w)"
    using thread_step_ok [OF o(1) life o(3) [OF j] wd(1), of kinds] tw by simp
  then have st: "world_ok f0 w" "thread_ok (nds ! j) t (fifos w)" "guarantee (nds ! j) (fifos (world_of s)) (fifos w)"
    by (simp_all add: step_ok_def)
  have joined: "ti_term (th_info t) = ti_term (th_info (threads s ! j))"
    using thread_step_term(1) [of kinds "nds ! j" "threads s ! j" "world_of s"] tw by simp
  have ex: "ti_term (th_info t) \<Longrightarrow> th_phase t = Exited"
    using joined o(4) [OF j] thread_step_term(2) [of "threads s ! j" kinds "nds ! j" "world_of s"] tw by simp
  have others: "thread_ok (nds ! k) (threads s ! k) (fifos w)" if "k < length (threads s)" "k \<noteq> j" for k
    using thread_ok_stable [OF o(3) [OF that(1)] st(3)] wd(2,3) [of k] that o(2) by (auto simp: Int_commute)
  have fresh: "\<not> is_invalid (fifos w i)"
    if "k < length nds" "length (threads s) \<le> k" "i \<in> set (n_output (nds ! k))" for i k
    using o(5) [OF that] st(3) wd(2) [of k] that j by (auto simp: guarantee_def)
  have main: "main_ok (length nds) (kernel_step kinds nds j s) (main_at s)"
    using o(6) j by (cases "main_at s") (auto simp: kernel_step_def tw nth_list_update joined)
  show ?thesis
    using main st(1,2) ex others fresh o(2,4) j by (auto simp: exec_ok_def kernel_step_def tw nth_list_update)
qed

section \<open>Reachable states\<close>

lemma thread_step_sent: "length (sent w i) \<le> length (sent (snd (thread_step kinds nd t w)) i)"
proof -
  have call: "(\<And>r f. length (sent w i) \<le> length (sent (snd (k r (w\<lparr>fifos := f\<rparr>))) i)) \<Longrightarrow>
      length (sent w i) \<le> length (sent (snd (after_call x k t w)) i)" for x and k
    by (cases x) simp_all
  have "length (sent w i) \<le> length (sent (snd (action_step kinds nd a t w)) i)" for a
    by (cases a) (simp_all add: Let_def call)
  then show ?thesis
    by (auto simp: thread_step_def Let_def close_port_def call split: phase.split list.split)
qed

lemma exec_step_sent:
  "exec_step kinds nds s t \<Longrightarrow> length (sent (world_of s) i) \<le> length (sent (world_of t) i)"
proof (induction rule: exec_step.induct)
  case (main s)
  then show ?case by (auto simp: main_step_def split: main_pc.split option.split)
next
  case (kernel s j)
  then show ?case
    using thread_step_sent [of "world_of s" i kinds "nds ! j" "threads s ! j"]
    by (simp add: kernel_step_def case_prod_beta)
qed

lemma exec_step_lifetime:
  "exec_step kinds nds s t \<Longrightarrow> in_lifetime f0 (world_of t) \<Longrightarrow> in_lifetime f0 (world_of s)"
  unfolding in_lifetime_def using exec_step_sent le_less_trans by metis

lemma exec_reachable_ok:
  assumes "exec_reachable kinds nds (exec_init f0) s" and "program_ok nds" and "streams_new f0"
    and "in_lifetime f0 (world_of s)"
  shows "exec_ok f0 nds s"
  using assms(1,4)
proof (induction rule: exec_reachable.induct)
  case start
  show ?case by (rule exec_init_ok [OF assms(3)])
next
  case (step t u)
  have life: "in_lifetime f0 (world_of t)" by (rule exec_step_lifetime [OF step.hyps(2) step.prems])
  note ok = step.IH [OF life]
  from step.hyps(2) show ?case
    by cases (use ok life in \<open>auto intro: main_step_ok kernel_step_ok [OF _ assms(2)]\<close>)
qed

section \<open>What holds of a running map\<close>

lemma drained_got:
  assumes "exec_ok f0 nds s" and "drained nd (fifos (world_of s))" and "n_behav nd = any_port" and "i \<in> set (n_input nd)"
  shows "got (world_of s) i = sent (world_of s) i"
proof -
  have "queue (fifos (world_of s) i) = []" using assms(2-4) by (simp add: drained_def)
  then show ?thesis using world_okD(2) [OF exec_okD(1) [OF assms(1)], of i] by (simp add: elems_def)
qed

lemma exec_order:
  assumes "program_ok nds" and "streams_new f0" and "exec_reachable kinds nds (exec_init f0) s"
    and "in_lifetime f0 (world_of s)"
  shows "sent (world_of s) i = got (world_of s) i @ elems (fifos (world_of s) i)
    \<and> length (elems (fifos (world_of s) i)) \<le> cap (f0 i)"
proof -
  note w = world_okD [OF exec_okD(1) [OF exec_reachable_ok [OF assms(3,1,2,4)]], of i]
  have "length (elems (fifos (world_of s) i)) \<le> cap (fifos (world_of s) i)"
    using w(1) fifo_ok_queue_le [of "fifos (world_of s) i"] by (simp add: ring_inv_def)
  then show ?thesis using w(2,3) by simp
qed

text \<open>
  C10: at every moment of a running map, however its threads are interleaved, what has been taken
  from a stream is a prefix of what was put into it, in order: the rest is held by the stream,
  and never exceeds its capacity.
\<close>

theorem streams_keep_order:
  assumes "program_ok nds" and "streams_new f0" and "exec_reachable kinds nds (exec_init f0) s"
    and "in_lifetime f0 (world_of s)"
  shows "sent (world_of s) i = got (world_of s) i @ elems (fifos (world_of s) i)
    \<and> length (elems (fifos (world_of s) i)) \<le> cap (f0 i)"
  using assms by (rule exec_order)

lemma exec_ended:
  assumes "program_ok nds" and "streams_new f0" and "exec_reachable kinds nds (exec_init f0) s"
    and "in_lifetime f0 (world_of s)" and "main_at s = Start_returned" and "j < length nds"
  shows "j < length (threads s)" "th_phase (threads s ! j) = Exited" "ti_term (th_info (threads s ! j))"
    "closed_all (n_output (nds ! j)) (fifos (world_of s))"
    "stopped (threads s ! j) \<or> drained (nds ! j) (fifos (world_of s))"
proof -
  have ok: "exec_ok f0 nds s" by (rule exec_reachable_ok [OF assms(3,1,2,4)])
  show joined: "j < length (threads s)" "ti_term (th_info (threads s ! j))"
    using exec_okD(6) [OF ok] assms(5,6) by simp_all
  show ended: "th_phase (threads s ! j) = Exited" using exec_okD(4) [OF ok joined(1)] joined(2) by simp
  have "thread_ok (nds ! j) (threads s ! j) (fifos (world_of s))" using exec_okD(3) [OF ok joined(1)] by simp
  then show "closed_all (n_output (nds ! j)) (fifos (world_of s))"
    "stopped (threads s ! j) \<or> drained (nds ! j) (fifos (world_of s))"
    using ended by (simp_all add: thread_ok_def)
qed

lemma exec_complete:
  assumes "program_ok nds" and "streams_new f0" and "exec_reachable kinds nds (exec_init f0) s"
    and "in_lifetime f0 (world_of s)" and "main_at s = Start_returned" and "j < length nds"
    and "nd = nds ! j" and "t = threads s ! j"
  shows "th_phase t = Exited \<and> ti_term (th_info t) \<and> closed_all (n_output nd) (fifos (world_of s)) \<and>
    (stopped t \<or> closed_all (n_input nd) (fifos (world_of s)) \<and>
       (n_behav nd = any_port \<longrightarrow> (\<forall>i \<in> set (n_input nd). got (world_of s) i = sent (world_of s) i)))"
  using exec_ended [OF assms(1-6)] drained_got [OF exec_reachable_ok [OF assms(3,1,2,4)], of nd] assms(7,8)
  by (auto simp: drained_def)

text \<open>
  C6: when start has returned, every kernel of the map has a thread that has ended and was
  joined; all its outputs are closed; and unless its run returned stop, its inputs are closed too
  and, for a kernel that runs when any input has data, it has taken all that was sent to it.
\<close>

theorem start_returns_complete:
  assumes "program_ok nds" and "streams_new f0" and "exec_reachable kinds nds (exec_init f0) s"
    and "in_lifetime f0 (world_of s)" and "main_at s = Start_returned" and "j < length nds"
    and "nd = nds ! j" and "t = threads s ! j"
  shows "th_phase t = Exited \<and> ti_term (th_info t) \<and> closed_all (n_output nd) (fifos (world_of s)) \<and>
    (stopped t \<or> closed_all (n_input nd) (fifos (world_of s)) \<and>
       (n_behav nd = any_port \<longrightarrow> (\<forall>i \<in> set (n_input nd). got (world_of s) i = sent (world_of s) i)))"
  using assms by (rule exec_complete)


end
