(* ===== verification/Execution_Live.thy ===== *)
theory Execution_Live
  imports Execution_Props
begin

text \<open>
  A map that ends.  The kernels are numbered so that every stream goes from a lower number to a
  higher one; sources run a bounded number of times, and the other kernels have one input and
  take one element from it in each run.  From every reachable state the program can go on so
  that start returns: it never gets stuck on full streams, and no kernel waits for ever.
\<close>

section \<open>Programs that end\<close>

primrec pushes_only :: "(kstatus \<Rightarrow> 's \<Rightarrow> bool) \<Rightarrow> ('a, 's) action \<Rightarrow> bool" where
  "pushes_only P (Return r s) = P r s"
| "pushes_only P (Pop i f) = False"
| "pushes_only P (Push i e a) = pushes_only P a"

text \<open>Each run of a source that goes on lowers the rank of its members.\<close>

definition source_ok :: "('s \<Rightarrow> nat) \<Rightarrow> ('a, 's) node \<Rightarrow> bool" where
  "source_ok rank nd \<longleftrightarrow> n_input nd = [] \<and>
     (\<forall>st. pushes_only (\<lambda>r st'. r = proceed \<longrightarrow> rank st' < rank st) (n_code nd st))"

definition goes_on :: "('a, 's) action \<Rightarrow> bool" where
  "goes_on = pushes_only (\<lambda>r st. r = proceed)"

definition goes_on_after :: "('e \<Rightarrow> ('a, 's) action) \<Rightarrow> bool" where
  "goes_on_after g \<longleftrightarrow> (\<forall>e. goes_on (g e))"

lemma goes_on_afterD: "goes_on_after g \<Longrightarrow> goes_on (g e)"
  by (simp add: goes_on_after_def)

definition worker_ok :: "('a, 's) node \<Rightarrow> bool" where
  "worker_ok nd \<longleftrightarrow> (\<exists>i. n_input nd = [i] \<and>
     (\<forall>st. \<exists>g. n_code nd st = Pop i g \<and> goes_on_after g))"

definition feed_forward :: "('a, 's) node list \<Rightarrow> bool" where
  "feed_forward nds \<longleftrightarrow> (\<forall>j < length nds.
     (\<forall>i \<in> set (n_output (nds ! j)). \<exists>k. j < k \<and> k < length nds \<and> i \<in> set (n_input (nds ! k))) \<and>
     (\<forall>i \<in> set (n_input (nds ! j)). \<exists>k < j. i \<in> set (n_output (nds ! k))))"

definition finite_program ::
  "(nat \<Rightarrow> alloc_kind) \<Rightarrow> (nat \<Rightarrow> 's \<Rightarrow> nat) \<Rightarrow> ('a, 's) node list \<Rightarrow> 'a streams \<Rightarrow> bool" where
  "finite_program kinds rank nds f0 \<longleftrightarrow>
     program_ok nds \<and> streams_new f0 \<and> feed_forward nds \<and>
     (\<forall>j < length nds. source_ok (rank j) (nds ! j) \<or> worker_ok (nds ! j)) \<and>
     (\<forall>s. exec_reachable kinds nds (exec_init f0) s \<longrightarrow> in_lifetime f0 (world_of s))"

lemma finite_programD:
  assumes "finite_program kinds rank nds f0"
  shows "program_ok nds" "streams_new f0" "feed_forward nds"
    "j < length nds \<Longrightarrow> source_ok (rank j) (nds ! j) \<or> worker_ok (nds ! j)"
    "exec_reachable kinds nds (exec_init f0) s \<Longrightarrow> in_lifetime f0 (world_of s)"
  using assms unfolding finite_program_def by blast+

lemma feed_forwardD:
  assumes "feed_forward nds" and "j < length nds"
  shows "i \<in> set (n_output (nds ! j)) \<Longrightarrow> \<exists>k. j < k \<and> k < length nds \<and> i \<in> set (n_input (nds ! k))"
    "i \<in> set (n_input (nds ! j)) \<Longrightarrow> \<exists>k < j. i \<in> set (n_output (nds ! k))"
  using assms unfolding feed_forward_def by blast+

section \<open>Threads of such a program\<close>

text \<open>A worker in a run is at its pop, with an element there, or only has pushes left.\<close>

fun live_phase :: "('s \<Rightarrow> nat) \<Rightarrow> ('a, 's) node \<Rightarrow> ('a, 's) kthread \<Rightarrow> 'a streams \<Rightarrow> ('a, 's) phase \<Rightarrow> bool" where
  "live_phase rank nd t f (In_run a) =
     (if n_input nd = [] then pushes_only (\<lambda>r st'. r = proceed \<longrightarrow> rank st' < rank (th_local t)) a
      else goes_on a \<or> (\<exists>i g. n_input nd = [i] \<and> a = Pop i g \<and> goes_on_after g \<and> queue (f i) \<noteq> []))"
| "live_phase rank nd t f (Close_stop is) = (n_input nd = [])"
| "live_phase rank nd t f Set_stop = (n_input nd = [])"
| "live_phase rank nd t f (Aborted x) = False"
| "live_phase rank nd t f _ = True"

definition live_thread :: "('s \<Rightarrow> nat) \<Rightarrow> ('a, 's) node \<Rightarrow> ('a, 's) kthread \<Rightarrow> 'a streams \<Rightarrow> bool" where
  "live_thread rank nd t f \<longleftrightarrow> (stopped t \<longrightarrow> n_input nd = []) \<and> live_phase rank nd t f (th_phase t)"

lemma live_thread_stable:
  assumes "live_thread rank nd t f" and "guarantee md f f'" and "set (n_input nd) \<inter> set (n_input md) = {}"
  shows "live_thread rank nd t f'"
proof -
  have "queue (f' i) \<noteq> []" if "n_input nd = [i]" "queue (f i) \<noteq> []" for i
    using assms(2,3) that by (auto simp: guarantee_def)
  then have "live_phase rank nd t f p \<Longrightarrow> live_phase rank nd t f' p" for p
    by (cases p) (auto split: if_splits)
  then show ?thesis using assms(1) by (simp add: live_thread_def)
qed

lemma live_goto:
  "live_thread rank nd t f \<Longrightarrow> live_phase rank nd t f' p \<Longrightarrow> live_thread rank nd (goto p t) f'"
  by (cases p) (simp_all add: live_thread_def split: if_splits)

lemma worker_wants:
  assumes "node_ok nd" and "n_input nd = [i]"
  shows "wants_data (as_kernel kinds nd st) f \<longleftrightarrow> queue (f i) \<noteq> []"
  using assms by (simp add: wants_data_def)

lemma source_wants: "n_input nd = [] \<Longrightarrow> wants_data (as_kernel kinds nd st) f"
  by (simp add: wants_data_def)

lemma live_action_step:
  assumes w: "world_ok f0 w" "in_lifetime f0 w" and live: "live_thread rank nd t (fifos w)"
    and run: "th_phase t = In_run a" and nd: "source_ok rank nd \<or> worker_ok nd"
  shows "live_thread rank nd (fst (action_step kinds nd a t w)) (fifos (snd (action_step kinds nd a t w)))"
proof (cases a)
  case (Return r st)
  then show ?thesis using live run
    by (cases r) (auto simp: live_thread_def goes_on_def Let_def goto_def split: if_splits)
next
  case (Pop i g)
  then have p: "n_input nd = [i]" "goes_on_after g" "queue (fifos w i) \<noteq> []" "stopped t \<longrightarrow> n_input nd = []"
    using live run by (auto simp: live_thread_def goes_on_def split: if_splits)
  then obtain e q f where "at_port i (pop_elem (kinds i)) (fifos w) = Returned e f"
    by (cases rule: pop_at [OF w, of i kinds, case_names took wait throw]) (auto simp: elems_def)
  then show ?thesis using p goes_on_afterD [OF p(2), of e] by (simp add: Pop live_thread_def)
next
  case (Push i e b)
  then have b: "if n_input nd = [] then pushes_only (\<lambda>r st'. r = proceed \<longrightarrow> rank st' < rank (th_local t)) b
      else goes_on b" "stopped t \<longrightarrow> n_input nd = []"
    using live run by (auto simp: live_thread_def goes_on_def split: if_splits)
  show ?thesis
  proof (cases rule: push_at [OF w, of i e, case_names put wait])
    case (put f)
    then show ?thesis using b by (simp add: Push live_thread_def)
  next
    case (wait f)
    then show ?thesis using b run by (auto simp: Push live_thread_def goes_on_def split: if_splits)
  qed
qed

lemma live_thread_step:
  assumes w: "world_ok f0 w" "in_lifetime f0 w" and ok: "thread_ok nd t (fifos w)" "node_ok nd"
    and live: "live_thread rank nd t (fifos w)" and nd: "source_ok rank nd \<or> worker_ok nd"
  shows "live_thread rank nd (fst (thread_step kinds nd t w)) (fifos (snd (thread_step kinds nd t w)))"
proof (cases "th_phase t")
  case Has_data
  have "live_phase rank nd t (fifos w) (In_run (n_code nd (th_local t)))"
    if "wants_data (as_kernel kinds nd (th_local t)) (fifos w)"
  proof (cases "n_input nd = []")
    case True
    then show ?thesis using nd by (auto simp: source_ok_def worker_ok_def)
  next
    case False
    then obtain i g where i: "n_input nd = [i]" "n_code nd (th_local t) = Pop i g" "goes_on_after g"
      using nd unfolding source_ok_def worker_ok_def by blast
    then show ?thesis using that worker_wants [OF ok(2) i(1)] by simp
  qed
  then show ?thesis using Has_data live
    by (auto simp: thread_step_def kernelHasInputData_world [OF w(1) ok(2)] intro!: live_goto)
next
  case (In_run a)
  then show ?thesis using live_action_step [OF w live In_run nd] by (simp add: thread_step_def)
next
  case (Close_stop js)
  then show ?thesis using live
    by (cases js) (auto simp: thread_step_def live_thread_def)
next
  case (Close_drained rc js)
  then show ?thesis using live
    by (cases js) (auto simp: thread_step_def live_thread_def)
next
  case (Data_again rc)
  then show ?thesis using live
    by (auto simp: thread_step_def kernelHasInputData_world [OF w(1) ok(2)] live_thread_def)
qed (use live in \<open>auto simp: thread_step_def live_thread_def\<close>)

section \<open>Reachable states of such a program\<close>

definition live_exec :: "(nat \<Rightarrow> 's \<Rightarrow> nat) \<Rightarrow> ('a, 's) node list \<Rightarrow> ('a, 's) exec \<Rightarrow> bool" where
  "live_exec rank nds s \<longleftrightarrow>
     (\<forall>j < length (threads s). live_thread (rank j) (nds ! j) (threads s ! j) (fifos (world_of s)))"

lemma live_not_aborted: "live_exec rank nds s \<Longrightarrow> \<not> aborted s"
  by (auto simp: live_exec_def aborted_def list_ex_length live_thread_def split: phase.splits)

lemma live_thread_term:
  "live_thread rank nd (t\<lparr>th_info := i\<rparr>) f = live_thread rank nd t f"
proof -
  have "live_phase rank nd (t\<lparr>th_info := i\<rparr>) f p = live_phase rank nd t f p" for p by (cases p) simp_all
  then show ?thesis by (simp add: live_thread_def)
qed

lemma live_main_step:
  assumes "exec_ok f0 nds s" and "live_exec rank nds s"
  shows "live_exec rank nds (main_step nds s)"
proof (cases "main_at s")
  case (Create n)
  then have "n = length (threads s)" using exec_okD(6) [OF assms(1)] by simp
  then show ?thesis using assms(2) Create
    by (auto simp: main_step_def live_exec_def nth_append less_Suc_eq new_thread_def live_thread_def)
next
  case (Look n keep)
  have "live_exec rank nds (s\<lparr>threads := (threads s)[n := t], main_at := Look (n + 1) keep1\<rparr>)"
    if "n < length (threads s)" "look_at (threads s ! n) keep = Some (t, keep1)" for t keep1
  proof -
    have "live_thread (rank n) (nds ! n) t (fifos (world_of s))"
      using assms(2) that(1)
      by (cases rule: look_at_cases [OF that(2), case_names join busy old]) (simp_all add: live_exec_def live_thread_term)
    then show ?thesis using assms(2) that(1) by (simp add: live_exec_def nth_list_update)
  qed
  then show ?thesis using assms(2) Look by (auto simp: main_step_def live_exec_def split: option.split)
qed (use assms in \<open>simp add: main_step_def\<close>)

lemma live_kernel_step:
  assumes ok: "exec_ok f0 nds s" and life: "in_lifetime f0 (world_of s)" and live: "live_exec rank nds s"
    and program_ok: "program_ok nds" and kinds_ok: "\<forall>j < length nds. source_ok (rank j) (nds ! j) \<or> worker_ok (nds ! j)"
    and j: "j < length (threads s)"
  shows "live_exec rank nds (kernel_step kinds nds j s)"
proof -
  obtain t w where tw: "thread_step kinds (nds ! j) (threads s ! j) (world_of s) = (t, w)" by fastforce
  note o = exec_okD [OF ok]
  have jn: "j < length nds" using j o(2) by simp
  have l: "live_thread (rank k) (nds ! k) (threads s ! k) (fifos (world_of s))" if "k < length (threads s)" for k
    using live that by (simp add: live_exec_def)
  have "live_thread (rank j) (nds ! j) t (fifos w)"
    using live_thread_step [OF o(1) life o(3) [OF j] program_okD(1) [OF program_ok jn] l [OF j], of kinds] kinds_ok jn tw by simp
  moreover have "guarantee (nds ! j) (fifos (world_of s)) (fifos w)"
    using thread_step_ok [OF o(1) life o(3) [OF j] program_okD(1) [OF program_ok jn], of kinds] tw by (simp add: step_ok_def)
  then have "live_thread (rank k) (nds ! k) (threads s ! k) (fifos w)" if "k < length (threads s)" "k \<noteq> j" for k
    using live_thread_stable [OF l [OF that(1)]] program_okD(3) [OF program_ok _ jn, of k] that o(2) by simp
  ultimately show ?thesis
    using j by (simp add: live_exec_def kernel_step_def tw nth_list_update)
qed

text \<open>A state of the program that can be reached, with what is known of it.\<close>

definition good ::
  "(nat \<Rightarrow> alloc_kind) \<Rightarrow> (nat \<Rightarrow> 's \<Rightarrow> nat) \<Rightarrow> ('a, 's) node list \<Rightarrow> 'a streams \<Rightarrow> ('a, 's) exec \<Rightarrow> bool" where
  "good kinds rank nds f0 s \<longleftrightarrow>
     exec_reachable kinds nds (exec_init f0) s \<and> exec_ok f0 nds s \<and> live_exec rank nds s"

lemma good_kernel_step:
  assumes fin: "finite_program kinds rank nds f0" and s: "good kinds rank nds f0 s" and j: "j < length (threads s)"
  shows "good kinds rank nds f0 (kernel_step kinds nds j s)"
proof -
  note p = finite_programD [OF fin] and g = s [unfolded good_def]
  note life = p(5) [OF conjunct1 [OF g]]
  have "exec_reachable kinds nds (exec_init f0) (kernel_step kinds nds j s)"
    using exec_reachable.step [OF conjunct1 [OF g] exec_step.kernel [OF live_not_aborted j]] g by blast
  then show ?thesis
    using g kernel_step_ok [OF _ p(1) life j] live_kernel_step [OF _ life _ p(1) _ j] p(4) by (auto simp: good_def)
qed

lemma good_main_step:
  assumes fin: "finite_program kinds rank nds f0" and s: "good kinds rank nds f0 s"
  shows "good kinds rank nds f0 (main_step nds s)"
proof -
  have "exec_reachable kinds nds (exec_init f0) (main_step nds s)"
    using s live_not_aborted [of rank nds s] by (auto simp: good_def intro: exec_reachable.step [OF _ exec_step.main])
  then show ?thesis using s main_step_ok live_main_step by (auto simp: good_def)
qed

lemma reachable_good:
  assumes fin: "finite_program kinds rank nds f0" and "exec_reachable kinds nds (exec_init f0) s"
  shows "good kinds rank nds f0 s"
  using assms(2)
proof (induction rule: exec_reachable.induct)
  case start
  show ?case using exec_init_ok [OF finite_programD(2) [OF fin]]
    by (simp add: good_def exec_reachable.start live_exec_def exec_init_def)
next
  case (step s t)
  from step.hyps(2) show ?case
    by cases (use step.IH in \<open>auto intro: good_main_step [OF fin] good_kernel_step [OF fin]\<close>)
qed

end
