(* ===== verification/Execution_Finish.thy ===== *)
theory Execution_Finish
  imports Execution_Live
begin

text \<open>
  The threads of a program that ends (Execution_Live) one after the other: a kernel can always
  complete its run, since the kernels after it make room in its output streams; so the kernels
  can end in the order of their numbers, and then start returns.
\<close>

section \<open>Steps of the kernels from one number on\<close>

inductive go :: "(nat \<Rightarrow> alloc_kind) \<Rightarrow> ('a, 's) node list \<Rightarrow> nat \<Rightarrow> ('a, 's) exec \<Rightarrow> ('a, 's) exec \<Rightarrow> bool"
  for kinds nds m s where
  go_refl: "go kinds nds m s s"
| go_step: "go kinds nds m s t \<Longrightarrow> m \<le> j \<Longrightarrow> j < length (threads t) \<Longrightarrow> go kinds nds m s (kernel_step kinds nds j t)"

lemma go_trans: "go kinds nds m t u \<Longrightarrow> go kinds nds m s t \<Longrightarrow> go kinds nds m s u"
  by (induction rule: go.induct) (auto intro: go_step)

lemma go_weaken: "go kinds nds m s t \<Longrightarrow> n \<le> m \<Longrightarrow> go kinds nds n s t"
  by (induction rule: go.induct) (auto intro: go.intros)

lemma kernel_step_simps [simp]:
  "length (threads (kernel_step kinds nds j s)) = length (threads s)"
  "main_at (kernel_step kinds nds j s) = main_at s"
  "k \<noteq> j \<Longrightarrow> threads (kernel_step kinds nds j s) ! k = threads s ! k"
  by (simp_all add: kernel_step_def case_prod_beta)

lemma go_frame:
  assumes "go kinds nds m s t"
  shows "length (threads t) = length (threads s)" "main_at t = main_at s"
    "k < m \<Longrightarrow> threads t ! k = threads s ! k"
  using assms by (induction rule: go.induct) auto

lemma go_good:
  "go kinds nds m s t \<Longrightarrow> finite_program kinds rank nds f0 \<Longrightarrow> good kinds rank nds f0 s \<Longrightarrow> good kinds rank nds f0 t"
  by (induction rule: go.induct) (auto intro: good_kernel_step)

lemma go_reachable:
  assumes "finite_program kinds rank nds f0" and "good kinds rank nds f0 s" and "go kinds nds m s t"
  shows "exec_reachable kinds nds s t"
  using assms(3)
proof (induction rule: go.induct)
  case (go_step t j)
  have "good kinds rank nds f0 t" by (rule go_good [OF go_step.hyps(1) assms(1,2)])
  then have "\<not> aborted t" using live_not_aborted by (auto simp: good_def)
  then show ?case using go_step by (auto intro: exec_reachable.step exec_step.kernel)
qed (rule exec_reachable.start)

section \<open>Steps of one kernel alone\<close>

lemma go_alone_pow:
  assumes "((\<lambda>(t, w). thread_step kinds (nds ! j) t w) ^^ n) (threads s ! j, world_of s) = (t, w)"
    and "j < length (threads s)"
  shows "\<exists>u. go kinds nds j s u \<and> threads u ! j = t \<and> world_of u = w"
  using assms
proof (induction n arbitrary: t w)
  case 0
  then show ?case by (auto intro: go_refl)
next
  case (Suc n)
  obtain t1 w1 where 1: "((\<lambda>(t, w). thread_step kinds (nds ! j) t w) ^^ n) (threads s ! j, world_of s) = (t1, w1)"
    by fastforce
  then obtain u where u: "go kinds nds j s u" "threads u ! j = t1" "world_of u = w1"
    using Suc.IH [OF _ Suc.prems(2)] by blast
  have "thread_step kinds (nds ! j) t1 w1 = (t, w)" using Suc.prems(1) 1 by simp
  moreover have "j < length (threads u)" using go_frame(1) [OF u(1)] Suc.prems(2) by simp
  ultimately show ?case using go_step [OF u(1), of j] u(2,3)
    by (intro exI [of _ "kernel_step kinds nds j u"]) (simp add: kernel_step_def)
qed

lemma go_alone:
  assumes "alone kinds (nds ! j) (threads s ! j, world_of s) (t, w)" and "j < length (threads s)"
  obtains u where "go kinds nds j s u" "threads u ! j = t" "world_of u = w"
  using go_alone_pow assms unfolding alone_def by metis

text \<open>The end of a pass: the thread comes back to the test of its loop by itself.\<close>

definition ends_pass :: "(nat \<Rightarrow> alloc_kind) \<Rightarrow> ('a, 's) node \<Rightarrow> ('a, 's) kthread \<Rightarrow> 'a world \<Rightarrow> bool" where
  "ends_pass kinds nd t w \<longleftrightarrow>
     (\<exists>t1 w1. alone kinds nd (t, w) (t1, w1) \<and> th_phase t1 = Loop_test \<and> th_local t1 = th_local t \<and>
        (closing t \<longrightarrow> ti_finished (th_info t1)) \<and> (\<forall>i. queue (fifos w1 i) = queue (fifos w i)))"

lemma ends_pass_from:
  assumes "alone kinds nd (t, w) (t1, w1)" and "ends_pass kinds nd t1 w1" and "th_local t1 = th_local t"
    and "closing t \<Longrightarrow> closing t1" and "\<And>i. queue (fifos w1 i) = queue (fifos w i)"
  shows "ends_pass kinds nd t w"
  using assms alone_trans [OF assms(1)] unfolding ends_pass_def by metis

lemma ends_loop: "th_phase t = Loop_test \<Longrightarrow> ends_pass kinds nd t w"
  unfolding ends_pass_def closing_def using alone_refl by (intro exI [of _ t] exI [of _ w]) auto

lemma ends_next:
  assumes "thread_step kinds nd t w = (t1, w)" and "ends_pass kinds nd t1 w" and "th_local t1 = th_local t"
    and "closing t \<Longrightarrow> closing t1"
  shows "ends_pass kinds nd t w"
proof -
  have "alone kinds nd (t, w) (t1, w)" by (rule alone_step [OF assms(1) alone_refl])
  then show ?thesis by (rule ends_pass_from) (simp_all add: assms(2-4))
qed

lemma ends_pass_done: "th_phase t = Pass_done rc \<Longrightarrow> ends_pass kinds nd t w"
  by (rule ends_next [of _ _ _ _ "goto Loop_test t"]) (simp_all add: thread_step_def ends_loop closing_def)

lemma ends_set_drained: "th_phase t = Set_drained rc \<Longrightarrow> ends_pass kinds nd t w"
  by (rule ends_next [of _ _ _ _ "goto (Pass_done rc) (set_finished t)"])
    (simp_all add: thread_step_def ends_pass_done closing_def)

lemma ends_close_drained:
  assumes "th_phase t = Close_drained rc is"
  shows "ends_pass kinds nd t w"
  using alone_close(2) [of kinds nd rc "is" t w] unfolding goto_same [OF assms]
  by (rule ends_pass_from) (simp_all add: ends_set_drained closing_def fold_invalidate)

lemma ends_data_again:
  assumes "th_phase t = Data_again rc" and "world_ok f0 w" and "node_ok nd"
  shows "ends_pass kinds nd t w"
proof -
  let ?p = "if wants_data (as_kernel kinds nd (th_local t)) (fifos w) then Pass_done rc
    else Close_drained rc (n_output nd)"
  have "thread_step kinds nd t w = (goto ?p t, w)"
    using assms(1) by (simp add: thread_step_def kernelHasInputData_world [OF assms(2,3)])
  then show ?thesis
    by (rule ends_next) (auto simp: closing_def assms(1) intro: ends_pass_done ends_close_drained)
qed

lemma ends_ports_valid:
  assumes "th_phase t = Ports_valid rc" and "world_ok f0 w" and "node_ok nd"
  shows "ends_pass kinds nd t w"
proof -
  let ?p = "if kernelHasNoInputPorts (as_kernel kinds nd (th_local t)) (fifos w) then Data_again rc else Pass_done rc"
  have "thread_step kinds nd t w = (goto ?p t, w)"
    using assms(1) by (simp add: thread_step_def)
  then show ?thesis
    by (rule ends_next) (auto simp: closing_def assms(1) intro: ends_pass_done ends_data_again [OF _ assms(2,3)])
qed

lemma ends_set_stop:
  assumes "th_phase t = Set_stop" and "world_ok f0 w" and "node_ok nd"
  shows "ends_pass kinds nd t w"
  by (rule ends_next [of _ _ _ _ "goto (Ports_valid True) (set_finished t)"])
    (simp_all add: thread_step_def assms(1) closing_def ends_ports_valid [OF _ assms(2,3)])

lemma world_ok_closes:
  "world_ok f0 w \<Longrightarrow> world_ok f0 (w\<lparr>fifos := fold (\<lambda>i f. f(i := invalidate (f i))) is (fifos w)\<rparr>)"
  by (simp add: world_ok_def fold_invalidate)

lemma ends_close_stop:
  assumes "th_phase t = Close_stop is" and "world_ok f0 w" and "node_ok nd"
  shows "ends_pass kinds nd t w"
  using alone_close(1) [of kinds nd "is" t w] unfolding goto_same [OF assms(1)]
  by (rule ends_pass_from)
    (simp_all add: ends_set_stop [OF _ world_ok_closes [OF assms(2)] assms(3)] closing_def fold_invalidate)

lemmas ends_passes = ends_loop ends_pass_done ends_set_drained ends_close_drained ends_data_again
  ends_ports_valid ends_set_stop ends_close_stop

lemma ends_rest:
  assumes w: "world_ok f0 w" "node_ok nd"
    and ph: "th_phase t \<noteq> Has_data" "\<And>a. th_phase t \<noteq> In_run a" "th_phase t \<noteq> Exited"
      "\<And>x. th_phase t \<noteq> Aborted x"
  shows "ends_pass kinds nd t w"
proof (cases "th_phase t")
  case Loop_test
  then show ?thesis by (rule ends_loop)
next
  case (Close_stop js)
  then show ?thesis by (rule ends_close_stop [OF _ w])
next
  case Set_stop
  then show ?thesis by (rule ends_set_stop [OF _ w])
next
  case (Ports_valid rc)
  then show ?thesis by (rule ends_ports_valid [OF _ w])
next
  case (Data_again rc)
  then show ?thesis by (rule ends_data_again [OF _ w])
next
  case (Close_drained rc js)
  then show ?thesis by (rule ends_close_drained)
next
  case (Set_drained rc)
  then show ?thesis by (rule ends_set_drained)
next
  case (Pass_done rc)
  then show ?thesis by (rule ends_pass_done)
qed (use ph in simp_all)

text \<open>A worker whose input is closed and empty ends for good.\<close>

lemma drained_ends:
  assumes "th_phase t = Ports_valid rc" and "world_ok f0 w" and "node_ok nd" and "drained nd (fifos w)"
  shows "\<exists>t1 w1. alone kinds nd (t, w) (t1, w1) \<and> th_phase t1 = Loop_test \<and> ti_finished (th_info t1)"
proof -
  have dr: "kernelHasNoInputPorts (as_kernel kinds nd (th_local t)) (fifos w)"
      "\<not> wants_data (as_kernel kinds nd (th_local t)) (fifos w)"
    using assms(4) drained_eq [OF assms(3)] by (auto simp: kernelHasNoInputPorts_eq closed_all_def)
  let ?t = "goto (Close_drained rc (n_output nd)) t"
  have "thread_step kinds nd (goto (Data_again rc) t) w = (?t, w)"
    using dr(2) by (simp add: thread_step_def kernelHasInputData_world [OF assms(2,3)])
  moreover have "thread_step kinds nd t w = (goto (Data_again rc) t, w)"
    using assms(1) dr(1) by (simp add: thread_step_def)
  ultimately have "alone kinds nd (t, w) (?t, w)"
    using alone_step [OF _ alone_step [OF _ alone_refl]] by metis
  moreover have "closing ?t" "ends_pass kinds nd ?t w"
    using ends_close_drained [of ?t rc "n_output nd"] by (simp_all add: closing_def)
  ultimately show ?thesis unfolding ends_pass_def using alone_trans by metis
qed

section \<open>Streams written by earlier kernels\<close>

lemma queue_length:
  assumes "world_ok f0 w"
  shows "length (queue (fifos w i)) = length (sent w i) - length (got w i)"
proof -
  have "length (elems (fifos w i)) = length (sent w i) - length (got w i)"
    using world_okD(2) [OF assms, of i] by (simp del: elems_length)
  then show ?thesis by simp
qed

lemma thread_step_got: "length (got w i) \<le> length (got (snd (thread_step kinds nd t w)) i)"
proof -
  have call: "(\<And>r f. length (got w i) \<le> length (got (snd (k r (w\<lparr>fifos := f\<rparr>))) i)) \<Longrightarrow>
      length (got w i) \<le> length (got (snd (after_call x k t w)) i)" for x and k
    by (cases x) simp_all
  have "length (got w i) \<le> length (got (snd (action_step kinds nd a t w)) i)" for a
    by (cases a) (simp_all add: Let_def call)
  then show ?thesis
    by (auto simp: thread_step_def Let_def close_port_def call split: phase.split list.split)
qed

lemma thread_step_sent_own:
  assumes "thread_ok nd t (fifos w)" and "i \<notin> set (n_output nd)"
  shows "sent (snd (thread_step kinds nd t w)) i = sent w i"
proof -
  have call: "(\<And>r f. sent (snd (k r (w\<lparr>fifos := f\<rparr>))) i = sent w i) \<Longrightarrow>
      sent (snd (after_call x k t w)) i = sent w i" for x and k
    by (cases x) simp_all
  have "k \<noteq> i" if "th_phase t = In_run (Push k e b)" for k e b
    using assms that by (auto simp: thread_ok_def)
  then have "sent (snd (action_step kinds nd a t w)) i = sent w i" if "th_phase t = In_run a" for a
    using that by (cases a) (auto simp: Let_def intro!: call)
  then show ?thesis
    by (auto simp: thread_step_def Let_def close_port_def call split: phase.split list.split)
qed

text \<open>A stream whose producer does not act only loses elements, and stays open or closed.\<close>

definition drains :: "nat \<Rightarrow> ('a, 's) exec \<Rightarrow> ('a, 's) exec \<Rightarrow> bool" where
  "drains i s t \<longleftrightarrow>
     is_invalid (fifos (world_of t) i) = is_invalid (fifos (world_of s) i) \<and>
     length (queue (fifos (world_of t) i)) \<le> length (queue (fifos (world_of s) i))"

lemma kernel_step_drains:
  assumes fin: "finite_program kinds rank nds f0" and s: "good kinds rank nds f0 s" and j: "j < length (threads s)"
    and i: "i \<notin> set (n_output (nds ! j))"
  shows "drains i s (kernel_step kinds nds j s)"
proof -
  obtain t w where tw: "thread_step kinds (nds ! j) (threads s ! j) (world_of s) = (t, w)" by fastforce
  have ok: "exec_ok f0 nds s" using s by (simp add: good_def)
  note o = exec_okD [OF ok] and p = finite_programD [OF fin]
  have jn: "j < length nds" using j o(2) by simp
  have life: "in_lifetime f0 (world_of s)" using s p(5) by (simp add: good_def)
  have st: "world_ok f0 w" "guarantee (nds ! j) (fifos (world_of s)) (fifos w)"
    using thread_step_ok [OF o(1) life o(3) [OF j] program_okD(1) [OF p(1) jn], of kinds] tw by (simp_all add: step_ok_def)
  have "sent w i = sent (world_of s) i" "length (got (world_of s) i) \<le> length (got w i)"
    using thread_step_sent_own [OF o(3) [OF j] i, of kinds]
      thread_step_got [of "world_of s" i kinds "nds ! j" "threads s ! j"] tw by simp_all
  then show ?thesis
    using st i by (auto simp: drains_def kernel_step_def tw guarantee_def queue_length [OF st(1)] queue_length [OF o(1)])
qed

lemma go_drains:
  assumes fin: "finite_program kinds rank nds f0" and s: "good kinds rank nds f0 s" and go: "go kinds nds m s t"
    and i: "i \<in> set (n_output (nds ! p))" "p < m" "p < length nds"
  shows "drains i s t"
  using go
proof (induction rule: go.induct)
  case (go_step t j)
  have t: "good kinds rank nds f0 t" by (rule go_good [OF go_step.hyps(1) fin s])
  have "j < length nds" using t go_step.hyps(3) exec_okD(2) [of f0 nds t] by (simp add: good_def)
  then have "i \<notin> set (n_output (nds ! j))"
    using program_okD(2) [OF finite_programD(1) [OF fin] i(3), of j] i(1,2) go_step.hyps(2) by auto
  from kernel_step_drains [OF fin t go_step.hyps(3) this] go_step.IH show ?case by (simp add: drains_def)
qed (simp add: drains_def)

section \<open>A worker takes an element\<close>

lemma pop_step:
  assumes "world_ok f0 w" and "in_lifetime f0 w" and "th_phase t = In_run (Pop i g)" and "queue (fifos w i) \<noteq> []"
  obtains e w1 where "thread_step kinds nd t w = (goto (In_run (g e)) t, w1)"
    "length (queue (fifos w1 i)) < length (queue (fifos w i))" "world_ok f0 w1"
proof -
  have ne: "elems (fifos w i) \<noteq> []" using assms(4) by (simp add: elems_def)
  show thesis
  proof (cases rule: pop_at [OF assms(1,2), of i kinds, case_names took wait throw])
    case (took e q f)
    let ?w1 = "w\<lparr>fifos := f, got := (got w)(i := got w i @ [e])\<rparr>"
    have "thread_step kinds nd t w = (goto (In_run (g e)) t, ?w1)"
      using assms(3) took(2) by (simp add: thread_step_def)
    moreover have "length (elems (f i)) < length (elems (fifos w i))" using took(1,4) by (simp del: elems_length)
    moreover have "world_ok f0 ?w1"
      using assms(1) took by (auto simp: world_ok_def simp del: elems_length)
    ultimately show thesis using that by simp
  qed (use ne in simp_all)
qed

lemma alone_to_run:
  assumes "world_ok f0 w" and "node_ok nd" and "wants_data (as_kernel kinds nd (th_local t)) (fifos w)"
    and "\<not> ti_finished (th_info t)" and "th_phase t = Loop_test \<or> th_phase t = Has_data"
  shows "alone kinds nd (t, w) (goto (In_run (n_code nd (th_local t))) t, w)"
proof -
  have run: "thread_step kinds nd u w = (goto (In_run (n_code nd (th_local u))) u, w)"
    if "th_phase u = Has_data" "th_local u = th_local t" for u
    using that assms(3) by (simp add: thread_step_def kernelHasInputData_world [OF assms(1,2)])
  from assms(5) show ?thesis
  proof
    assume "th_phase t = Loop_test"
    then have "thread_step kinds nd t w = (goto Has_data t, w)" using assms(4) by (simp add: thread_step_def)
    then show ?thesis
      by (rule alone_step) (use alone_step [OF run [of "goto Has_data t"] alone_refl] in simp)
  next
    assume "th_phase t = Has_data"
    then show ?thesis using alone_step [OF run [of t] alone_refl] by simp
  qed
qed

text \<open>From every phase of a worker outside its run to the next pop, while its input is open.\<close>

lemma alone_to_pop:
  assumes "world_ok f0 w" and "node_ok nd" and "n_input nd = [i]" and "queue (fifos w i) \<noteq> []"
    and "\<not> is_invalid (fifos w i)" and "\<not> ti_finished (th_info t)"
    and "th_phase t = Loop_test \<or> th_phase t = Has_data \<or> (\<exists>rc. th_phase t = Ports_valid rc \<or> th_phase t = Pass_done rc)"
  shows "alone kinds nd (t, w) (goto (In_run (n_code nd (th_local t))) t, w)"
proof -
  have run: "alone kinds nd (u, w) (goto (In_run (n_code nd (th_local t))) u, w)"
    if "th_phase u = Loop_test \<or> th_phase u = Has_data" "th_local u = th_local t" "th_info u = th_info t" for u
    using alone_to_run [OF assms(1,2), of kinds u] that assms(4,6) worker_wants [OF assms(2,3)] by simp
  have passed: "alone kinds nd (u, w) (goto (In_run (n_code nd (th_local t))) u, w)"
    if "th_phase u = Pass_done rc" "th_local u = th_local t" "th_info u = th_info t" for u rc
  proof -
    have "thread_step kinds nd u w = (goto Loop_test u, w)" using that by (simp add: thread_step_def)
    then show ?thesis by (rule alone_step) (use run [of "goto Loop_test u"] that in simp)
  qed
  have "alone kinds nd (t, w) (goto (In_run (n_code nd (th_local t))) t, w)" if "th_phase t = Ports_valid rc" for rc
  proof -
    have "thread_step kinds nd t w = (goto (Pass_done rc) t, w)"
      using that assms(3,5) by (simp add: thread_step_def kernelHasNoInputPorts_eq)
    then show ?thesis by (rule alone_step) (use passed [of "goto (Pass_done rc) t" rc] in simp)
  qed
  then show ?thesis using assms(7) run [of t] passed [of t] by blast
qed

end
