(* ===== verification/Execution_End.thy ===== *)
theory Execution_End
  imports Execution_Finish
begin

text \<open>
  Every program of Execution_Live can end: runs can be completed, kernels end in the order of
  their numbers, and start joins them all and returns.
\<close>

section \<open>Good states with all threads\<close>

definition staffed ::
  "(nat \<Rightarrow> alloc_kind) \<Rightarrow> (nat \<Rightarrow> 's \<Rightarrow> nat) \<Rightarrow> ('a, 's) node list \<Rightarrow> 'a streams \<Rightarrow> ('a, 's) exec \<Rightarrow> bool" where
  "staffed kinds rank nds f0 s \<longleftrightarrow>
     finite_program kinds rank nds f0 \<and> good kinds rank nds f0 s \<and> length (threads s) = length nds"

lemma staffedD:
  assumes "staffed kinds rank nds f0 s"
  shows "finite_program kinds rank nds f0" "good kinds rank nds f0 s" "length (threads s) = length nds"
    "world_ok f0 (world_of s)" "in_lifetime f0 (world_of s)"
    "j < length nds \<Longrightarrow> thread_ok (nds ! j) (threads s ! j) (fifos (world_of s))"
    "j < length nds \<Longrightarrow> live_thread (rank j) (nds ! j) (threads s ! j) (fifos (world_of s))"
    "j < length nds \<Longrightarrow> node_ok (nds ! j)"
    "main_ok (length nds) s (main_at s)"
proof -
  have s: "finite_program kinds rank nds f0" "exec_reachable kinds nds (exec_init f0) s" "exec_ok f0 nds s"
      "live_exec rank nds s" "length (threads s) = length nds"
    using assms by (simp_all add: staffed_def good_def)
  note o = exec_okD [OF s(3)]
  show "world_ok f0 (world_of s)" by (rule o(1))
  show "in_lifetime f0 (world_of s)" by (rule finite_programD(5) [OF s(1,2)])
  show "main_ok (length nds) s (main_at s)" by (rule o(6))
  show "j < length nds \<Longrightarrow> thread_ok (nds ! j) (threads s ! j) (fifos (world_of s))" using o(3) s(5) by simp
  show "j < length nds \<Longrightarrow> live_thread (rank j) (nds ! j) (threads s ! j) (fifos (world_of s))"
    using s(4,5) by (simp add: live_exec_def)
  show "j < length nds \<Longrightarrow> node_ok (nds ! j)" by (rule program_okD(1) [OF finite_programD(1) [OF s(1)]])
qed (use assms in \<open>simp_all add: staffed_def\<close>)

lemma staffed_go:
  assumes "staffed kinds rank nds f0 s" and "go kinds nds m s t"
  shows "staffed kinds rank nds f0 t"
  using assms go_good [OF assms(2)] go_frame(1) [OF assms(2)] by (simp add: staffed_def)

lemma staffed_alone:
  assumes "staffed kinds rank nds f0 s" and "j < length nds"
    and "alone kinds (nds ! j) (threads s ! j, world_of s) (t, w)"
  obtains u where "staffed kinds rank nds f0 u" "go kinds nds j s u" "threads u ! j = t" "world_of u = w"
proof -
  have "j < length (threads s)" using staffedD(3) [OF assms(1)] assms(2) by simp
  from go_alone [OF assms(3) this] show thesis using that staffed_go [OF assms(1)] by blast
qed

lemma staffed_step:
  assumes "staffed kinds rank nds f0 s" and "j < length nds"
    and "thread_step kinds (nds ! j) (threads s ! j) (world_of s) = (t, w)"
  obtains u where "staffed kinds rank nds f0 u" "go kinds nds j s u" "threads u ! j = t" "world_of u = w"
  using staffed_alone [OF assms(1,2) alone_step [OF assms(3) alone_refl]] by blast

lemma staffed_drains:
  assumes "staffed kinds rank nds f0 s" and "go kinds nds m s t"
    and "i \<in> set (n_output (nds ! p))" and "p < m" and "p < length nds"
  shows "drains i s t"
  using go_drains [OF staffedD(1,2) [OF assms(1)] assms(2-5)] .

lemma drains_trans: "drains i s t \<Longrightarrow> drains i t u \<Longrightarrow> drains i s u"
  by (auto simp: drains_def)

text \<open>The producer of a worker's input has a lower number.\<close>

lemma worker_producer:
  assumes "staffed kinds rank nds f0 s" and "k < length nds" and "n_input (nds ! k) = [i]"
  obtains p where "p < k" "p < length nds" "i \<in> set (n_output (nds ! p))"
  using feed_forwardD(2) [OF finite_programD(3) [OF staffedD(1) [OF assms(1)]] assms(2), of i] assms(2,3) by auto

section \<open>Completing a run\<close>

text \<open>Kernel j can complete its run, whatever its pushes wait for.\<close>

definition completes ::
  "(nat \<Rightarrow> alloc_kind) \<Rightarrow> (nat \<Rightarrow> 's \<Rightarrow> nat) \<Rightarrow> ('a, 's) node list \<Rightarrow> 'a streams \<Rightarrow> nat \<Rightarrow> bool" where
  "completes kinds rank nds f0 j \<longleftrightarrow>
     (\<forall>s a Q. staffed kinds rank nds f0 s \<longrightarrow> th_phase (threads s ! j) = In_run a \<longrightarrow> pushes_only Q a \<longrightarrow>
        (\<exists>u r st. go kinds nds j s u \<and> threads u ! j = goto (In_run (Return r st)) (threads s ! j) \<and> Q r st))"

lemma worker_open_phase:
  assumes ok: "thread_ok nd t f" and live: "live_thread rank nd t f" and i: "n_input nd = [i]" "\<not> is_invalid (f i)"
  shows "\<not> ti_finished (th_info t)"
    "(\<exists>a. th_phase t = In_run a) \<or> th_phase t = Loop_test \<or> th_phase t = Has_data \<or>
       (\<exists>rc. th_phase t = Ports_valid rc \<or> th_phase t = Pass_done rc)"
proof -
  have nd: "\<not> drained nd f" "\<not> stopped t" "\<not> closed_all (n_input nd) f"
    using live i by (simp_all add: drained_def closed_all_def live_thread_def)
  then show nf: "\<not> ti_finished (th_info t)" using ok by (auto simp: thread_ok_def)
  show "(\<exists>a. th_phase t = In_run a) \<or> th_phase t = Loop_test \<or> th_phase t = Has_data \<or>
       (\<exists>rc. th_phase t = Ports_valid rc \<or> th_phase t = Pass_done rc)"
    using ok live nd nf i(1) by (cases "th_phase t") (auto simp: thread_ok_def live_thread_def)
qed

lemma worker_code:
  assumes "source_ok rank nd \<or> worker_ok nd" and "n_input nd = [i]"
  obtains g where "n_code nd st = Pop i g" "goes_on_after g"
  using assms unfolding source_ok_def worker_ok_def by force

text \<open>A worker at its pop, or outside its run, takes an element by itself.\<close>

lemma takes_alone:
  assumes s: "staffed kinds rank nds f0 s" and k: "k < length nds" and i: "n_input (nds ! k) = [i]"
    and q: "\<not> is_invalid (fifos (world_of s) i)" "queue (fifos (world_of s) i) \<noteq> []"
    and ph: "(\<exists>g. th_phase (threads s ! k) = In_run (Pop i g)) \<or> \<not> (\<exists>a. th_phase (threads s ! k) = In_run a)"
  shows "\<exists>u. go kinds nds k s u \<and> length (queue (fifos (world_of u) i)) < length (queue (fifos (world_of s) i))"
proof -
  note d = staffedD [OF s]
  note open_phase = worker_open_phase [OF d(6,7) [OF k] i q(1)]
  obtain g where code: "n_code (nds ! k) (th_local (threads s ! k)) = Pop i g"
    using worker_code [OF finite_programD(4) [OF d(1) k] i] .
  have "\<exists>g. alone kinds (nds ! k) (threads s ! k, world_of s) (goto (In_run (Pop i g)) (threads s ! k), world_of s)"
  proof (cases "\<exists>g. th_phase (threads s ! k) = In_run (Pop i g)")
    case True
    then obtain h where "th_phase (threads s ! k) = In_run (Pop i h)" ..
    then show ?thesis using alone_refl goto_same by metis
  next
    case False
    then show ?thesis
      using alone_to_pop [OF d(4) d(8) [OF k] i q(2,1) open_phase(1)] open_phase(2) ph code by metis
  qed
  then obtain h where "alone kinds (nds ! k) (threads s ! k, world_of s) (goto (In_run (Pop i h)) (threads s ! k), world_of s)" ..
  then obtain u where u: "staffed kinds rank nds f0 u" "go kinds nds k s u"
      "threads u ! k = goto (In_run (Pop i h)) (threads s ! k)" "world_of u = world_of s"
    using staffed_alone [OF s k] by blast
  have "th_phase (threads u ! k) = In_run (Pop i h)" "queue (fifos (world_of u) i) \<noteq> []"
    using u(3,4) q(2) by simp_all
  then obtain e w1 where pop: "thread_step kinds (nds ! k) (threads u ! k) (world_of u) = (goto (In_run (h e)) (threads u ! k), w1)"
      "length (queue (fifos w1 i)) < length (queue (fifos (world_of u) i))"
    using pop_step [OF staffedD(4,5) [OF u(1)]] by blast
  obtain v where "go kinds nds k u v" "world_of v = w1" using staffed_step [OF u(1) k pop(1)] by blast
  then show ?thesis using go_trans u(2) pop(2) u(4) by metis
qed

lemma goes_on_returns: "pushes_only (\<lambda>r st. r = proceed) a \<longleftrightarrow> goes_on a"
  by (simp add: goes_on_def)

lemma worker_takes:
  assumes s: "staffed kinds rank nds f0 s" and k: "k < length nds" and i: "n_input (nds ! k) = [i]"
    and q: "\<not> is_invalid (fifos (world_of s) i)" "queue (fifos (world_of s) i) \<noteq> []"
    and completes: "completes kinds rank nds f0 k"
  shows "\<exists>u. go kinds nds k s u \<and> length (queue (fifos (world_of u) i)) < length (queue (fifos (world_of s) i))"
proof (cases "(\<exists>g. th_phase (threads s ! k) = In_run (Pop i g)) \<or> \<not> (\<exists>a. th_phase (threads s ! k) = In_run a)")
  case True
  then show ?thesis by (rule takes_alone [OF s k i q])
next
  case False
  then obtain a where a: "th_phase (threads s ! k) = In_run a" "\<nexists>g. a = Pop i g" by auto
  then have "goes_on a" using staffedD(7) [OF s k] i by (auto simp: live_thread_def)
  then obtain u st where u: "go kinds nds k s u" "threads u ! k = goto (In_run (Return proceed st)) (threads s ! k)"
    using completes s a(1) unfolding completes_def goes_on_def by blast
  note su = staffed_go [OF s u(1)]
  have "thread_step kinds (nds ! k) (threads u ! k) (world_of u) =
      (goto (Ports_valid True) ((threads u ! k)\<lparr>th_local := st\<rparr>), world_of u)"
    by (simp add: thread_step_def u(2))
  then obtain v where v: "staffed kinds rank nds f0 v" "go kinds nds k u v"
      "th_phase (threads v ! k) = Ports_valid True" "world_of v = world_of u"
    using staffed_step [OF su k] by (metis goto_simps(1))
  have sv: "go kinds nds k s v" by (rule go_trans [OF v(2) u(1)])
  obtain p where "p < k" "p < length nds" "i \<in> set (n_output (nds ! p))" by (rule worker_producer [OF s k i])
  then have dr: "drains i s v" using staffed_drains [OF s sv] by blast
  show ?thesis
  proof (cases "length (queue (fifos (world_of v) i)) < length (queue (fifos (world_of s) i))")
    case True
    with sv show ?thesis by blast
  next
    case False
    then have qv: "\<not> is_invalid (fifos (world_of v) i)" "queue (fifos (world_of v) i) \<noteq> []"
      using q dr by (auto simp: drains_def)
    obtain x where "go kinds nds k v x" "length (queue (fifos (world_of x) i)) < length (queue (fifos (world_of v) i))"
      using takes_alone [OF v(1) k i qv] v(3) by auto
    then show ?thesis using go_trans sv dr unfolding drains_def by (meson less_le_trans)
  qed
qed

text \<open>Room for a push: the consumer of a full stream takes an element.\<close>

lemma room_for_push:
  assumes s: "staffed kinds rank nds f0 s" and j: "j < length nds" and i: "i \<in> set (n_output (nds ! j))"
    and open_out: "\<not> is_invalid (fifos (world_of s) i)"
    and completes: "\<And>k. j < k \<Longrightarrow> k < length nds \<Longrightarrow> completes kinds rank nds f0 k"
  shows "\<exists>u. go kinds nds (Suc j) s u \<and> length (elems (fifos (world_of u) i)) < cap (f0 i)"
proof (cases "length (elems (fifos (world_of s) i)) < cap (f0 i)")
  case True
  then show ?thesis using go_refl by blast
next
  case False
  note d = staffedD [OF s]
  have "length (elems (fifos (world_of s) i)) \<le> cap (f0 i)"
    using world_okD(1,3) [OF d(4), of i] fifo_ok_queue_le [of "fifos (world_of s) i"] by (simp add: ring_inv_def)
  then have full: "length (queue (fifos (world_of s) i)) = cap (f0 i)" using False by simp
  moreover have "0 < cap (f0 i)" using finite_programD(2) [OF d(1)] by (simp add: streams_new_def)
  ultimately have ne: "queue (fifos (world_of s) i) \<noteq> []" by auto
  obtain k where k: "j < k" "k < length nds" "i \<in> set (n_input (nds ! k))"
    using feed_forwardD(1) [OF finite_programD(3) [OF d(1)] j i] by blast
  have "source_ok (rank k) (nds ! k) \<or> worker_ok (nds ! k)" by (rule finite_programD(4) [OF d(1) k(2)])
  then have "n_input (nds ! k) = [i]" using k(3) by (auto simp: source_ok_def worker_ok_def)
  then obtain u where "go kinds nds k s u" "length (queue (fifos (world_of u) i)) < length (queue (fifos (world_of s) i))"
    using worker_takes [OF s k(2) _ open_out ne completes [OF k(1,2)]] by blast
  then show ?thesis using go_weaken [of kinds nds k s u "Suc j"] k(1) full by auto
qed

lemma completes_all: "j < length nds \<Longrightarrow> completes kinds rank nds f0 j"
proof (induction "length nds - j" arbitrary: j rule: less_induct)
  case less
  have later: "completes kinds rank nds f0 k" if "j < k" "k < length nds" for k
    using less.hyps [of k] that by simp
  have "\<exists>u r st. go kinds nds j s u \<and> threads u ! j = goto (In_run (Return r st)) (threads s ! j) \<and> Q r st"
    if "staffed kinds rank nds f0 s" "th_phase (threads s ! j) = In_run a" "pushes_only Q a" for s a Q
    using that
  proof (induction a arbitrary: s)
    case (Return r st)
    then show ?case using go_refl goto_same by (metis pushes_only.simps(1))
  next
    case (Push i e b)
    note d = staffedD [OF Push.prems(1)]
    have i: "i \<in> set (n_output (nds ! j))" "\<not> is_invalid (fifos (world_of s) i)"
      using d(6) [OF less.prems] Push.prems(2) by (auto simp: thread_ok_def closing_def)
    obtain u where u: "go kinds nds (Suc j) s u" "length (elems (fifos (world_of u) i)) < cap (f0 i)"
      using room_for_push [OF Push.prems(1) less.prems i later] by blast
    note su = staffed_go [OF Push.prems(1) u(1)]
    have same: "threads u ! j = threads s ! j" using go_frame(3) [OF u(1)] by simp
    obtain f where f: "at_port i (push_elem e) (fifos (world_of u)) = Returned () f"
      by (cases rule: push_at [OF staffedD(4,5) [OF su], of i e, case_names put wait]) (use u(2) in auto)
    obtain v where v: "staffed kinds rank nds f0 v" "go kinds nds j u v" "threads v ! j = goto (In_run b) (threads s ! j)"
      using staffed_step [OF su less.prems] f Push.prems(2) same by (auto simp: thread_step_def)
    have sv: "go kinds nds j s v" using go_trans [OF v(2)] go_weaken [OF u(1), of j] by simp
    obtain x r st where "go kinds nds j v x" "threads x ! j = goto (In_run (Return r st)) (threads v ! j)" "Q r st"
      using Push.IH [OF v(1)] v(3) Push.prems(3) by auto
    then show ?case using go_trans [OF _ sv] v(3) by (metis goto_simps(5))
  qed simp
  then show ?case unfolding completes_def by blast
qed

end
