(* ===== verification/Execution_Done.thy ===== *)
theory Execution_Done
  imports Execution_End
begin

text \<open>
  The ends of the kernels and of start, for the programs of Execution_Live, and the theorem
  that start can always return.
\<close>

section \<open>The rest of a pass\<close>

lemma pass_rest:
  assumes s: "staffed kinds rank nds f0 s" and j: "j < length nds"
    and ends: "ends_pass kinds (nds ! j) (threads s ! j) (world_of s)"
  shows "\<exists>u. go kinds nds j s u \<and> th_phase (threads u ! j) = Loop_test \<and>
    th_local (threads u ! j) = th_local (threads s ! j) \<and>
    (closing (threads s ! j) \<longrightarrow> ti_finished (th_info (threads u ! j)))"
proof -
  obtain t1 w1 where t1: "alone kinds (nds ! j) (threads s ! j, world_of s) (t1, w1)" "th_phase t1 = Loop_test"
      "th_local t1 = th_local (threads s ! j)" "closing (threads s ! j) \<longrightarrow> ti_finished (th_info t1)"
    using ends unfolding ends_pass_def by blast
  obtain u where "go kinds nds j s u" "threads u ! j = t1" using staffed_alone [OF s j t1(1)] by blast
  then show ?thesis using t1 by blast
qed

lemma returned_rest:
  assumes s: "staffed kinds rank nds f0 s" and j: "j < length nds"
    and ph: "th_phase (threads s ! j) = In_run (Return r st)"
  shows "\<exists>u. go kinds nds j s u \<and> th_phase (threads u ! j) = Loop_test \<and> th_local (threads u ! j) = st \<and>
    (r = stop \<longrightarrow> ti_finished (th_info (threads u ! j)))"
proof -
  let ?t = "(threads s ! j)\<lparr>th_local := st\<rparr>"
  let ?t1 = "if r = stop then goto (Close_stop (n_output (nds ! j))) (?t\<lparr>stopped := True\<rparr>) else goto (Ports_valid True) ?t"
  have "thread_step kinds (nds ! j) (threads s ! j) (world_of s) = (?t1, world_of s)"
    by (simp add: thread_step_def ph Let_def)
  then obtain v where v: "staffed kinds rank nds f0 v" "go kinds nds j s v" "threads v ! j = ?t1" "world_of v = world_of s"
    using staffed_step [OF s j] by blast
  have "ends_pass kinds (nds ! j) (threads v ! j) (world_of v)"
    using ends_passes(6) [OF _ staffedD(4) [OF v(1)] staffedD(8) [OF s j]]
      ends_passes(8) [OF _ staffedD(4) [OF v(1)] staffedD(8) [OF s j]] v(3) by (simp split: if_splits)
  from pass_rest [OF v(1) j this] obtain u where u: "go kinds nds j v u" "th_phase (threads u ! j) = Loop_test"
      "th_local (threads u ! j) = st" "closing (threads v ! j) \<longrightarrow> ti_finished (th_info (threads u ! j))"
    using v(3) by (auto split: if_splits)
  have "r = stop \<longrightarrow> closing (threads v ! j)" using v(3) by (simp add: closing_def)
  then show ?thesis using go_trans [OF u(1) v(2)] u(2-4) by blast
qed

lemma run_rest:
  assumes s: "staffed kinds rank nds f0 s" and j: "j < length nds"
    and ph: "th_phase (threads s ! j) = In_run a" "pushes_only Q a"
  shows "\<exists>u r st. go kinds nds j s u \<and> th_phase (threads u ! j) = Loop_test \<and> th_local (threads u ! j) = st \<and>
    (r = stop \<longrightarrow> ti_finished (th_info (threads u ! j))) \<and> Q r st"
proof -
  obtain v r st where v: "go kinds nds j s v" "threads v ! j = goto (In_run (Return r st)) (threads s ! j)" "Q r st"
    using completes_all [OF j] s ph unfolding completes_def by blast
  have "th_phase (threads v ! j) = In_run (Return r st)" by (simp add: v(2))
  from returned_rest [OF staffed_go [OF s v(1)] j this] show ?thesis using go_trans [OF _ v(1)] v(3) by blast
qed

text \<open>From a pop on: the queue has become shorter when the pass ends.\<close>

lemma pop_rest:
  assumes s: "staffed kinds rank nds f0 s" and j: "j < length nds" and i: "n_input (nds ! j) = [i]"
    and ph: "th_phase (threads s ! j) = In_run (Pop i g)" "goes_on_after g" "queue (fifos (world_of s) i) \<noteq> []"
  shows "\<exists>u. go kinds nds j s u \<and> th_phase (threads u ! j) = Loop_test \<and>
    length (queue (fifos (world_of u) i)) < length (queue (fifos (world_of s) i))"
proof -
  obtain e w1 where e: "thread_step kinds (nds ! j) (threads s ! j) (world_of s) = (goto (In_run (g e)) (threads s ! j), w1)"
      "length (queue (fifos w1 i)) < length (queue (fifos (world_of s) i))"
    using pop_step [OF staffedD(4,5) [OF s] ph(1,3)] by blast
  obtain v where v: "staffed kinds rank nds f0 v" "go kinds nds j s v"
      "threads v ! j = goto (In_run (g e)) (threads s ! j)" "world_of v = w1"
    using staffed_step [OF s j e(1)] by blast
  have "th_phase (threads v ! j) = In_run (g e)" "pushes_only (\<lambda>r st. r = proceed) (g e)"
    using v(3) goes_on_afterD [OF ph(2)] by (simp_all add: goes_on_def)
  from run_rest [OF v(1) j this] obtain u where u: "go kinds nds j v u" "th_phase (threads u ! j) = Loop_test"
    by blast
  obtain p where "p < j" "p < length nds" "i \<in> set (n_output (nds ! p))" by (rule worker_producer [OF s j i])
  then have "drains i v u" using staffed_drains [OF v(1) u(1)] by blast
  then show ?thesis using go_trans [OF u(1) v(2)] u(2) e(2) v(4) unfolding drains_def by (meson le_less_trans)
qed

section \<open>The end of a kernel\<close>

definition work_left :: "(nat \<Rightarrow> 's \<Rightarrow> nat) \<Rightarrow> ('a, 's) node list \<Rightarrow> nat \<Rightarrow> ('a, 's) exec \<Rightarrow> nat" where
  "work_left rank nds j s =
     (case n_input (nds ! j) of
        [] \<Rightarrow> rank j (th_local (threads s ! j))
      | i # _ \<Rightarrow> length (queue (fifos (world_of s) i)))"

lemma input_closed:
  assumes s: "staffed kinds rank nds f0 s" and j: "j < length nds" and i: "n_input (nds ! j) = [i]"
    and before: "\<forall>p < j. th_phase (threads s ! p) = Exited"
  shows "closed_all (n_input (nds ! j)) (fifos (world_of s))"
proof -
  obtain p where p: "p < j" "p < length nds" "i \<in> set (n_output (nds ! p))" by (rule worker_producer [OF s j i])
  then have "closed_all (n_output (nds ! p)) (fifos (world_of s))"
    using staffedD(6) [OF s p(2)] before by (auto simp: thread_ok_def)
  then show ?thesis using p(3) i by (simp add: closed_all_def)
qed

lemma source_pass:
  assumes s: "staffed kinds rank nds f0 s" and j: "j < length nds" and i: "n_input (nds ! j) = []"
    and ph: "th_phase (threads s ! j) = Loop_test" "\<not> ti_finished (th_info (threads s ! j))"
  shows "\<exists>u. go kinds nds j s u \<and> th_phase (threads u ! j) = Loop_test \<and>
    (ti_finished (th_info (threads u ! j)) \<or> work_left rank nds j u < work_left rank nds j s)"
proof -
  note d = staffedD [OF s]
  let ?st = "th_local (threads s ! j)"
  have "alone kinds (nds ! j) (threads s ! j, world_of s) (goto (In_run (n_code (nds ! j) ?st)) (threads s ! j), world_of s)"
    using alone_to_run [OF d(4) d(8) [OF j] source_wants [OF i] ph(2)] ph(1) by simp
  then obtain v where v: "staffed kinds rank nds f0 v" "go kinds nds j s v"
      "threads v ! j = goto (In_run (n_code (nds ! j) ?st)) (threads s ! j)"
    using staffed_alone [OF s j] by blast
  have "source_ok (rank j) (nds ! j)"
    using finite_programD(4) [OF d(1) j] i by (auto simp: worker_ok_def)
  then have "pushes_only (\<lambda>r st'. r = proceed \<longrightarrow> rank j st' < rank j ?st) (n_code (nds ! j) ?st)"
    by (simp add: source_ok_def)
  from run_rest [OF v(1) j _ this] obtain u r st where u: "go kinds nds j v u" "th_phase (threads u ! j) = Loop_test"
      "th_local (threads u ! j) = st" "r = stop \<longrightarrow> ti_finished (th_info (threads u ! j))"
      "r = proceed \<longrightarrow> rank j st < rank j ?st"
    using v(3) by auto
  then have "ti_finished (th_info (threads u ! j)) \<or> work_left rank nds j u < work_left rank nds j s"
    using i by (cases r) (simp_all add: work_left_def)
  then show ?thesis using go_trans [OF u(1) v(2)] u(2) by blast
qed

lemma worker_pass:
  assumes s: "staffed kinds rank nds f0 s" and j: "j < length nds" and i: "n_input (nds ! j) = [i]"
    and ph: "th_phase (threads s ! j) = Loop_test" "\<not> ti_finished (th_info (threads s ! j))"
    and before: "\<forall>p < j. th_phase (threads s ! p) = Exited"
  shows "\<exists>u. go kinds nds j s u \<and> th_phase (threads u ! j) = Loop_test \<and>
    (ti_finished (th_info (threads u ! j)) \<or> work_left rank nds j u < work_left rank nds j s)"
proof (cases "queue (fifos (world_of s) i) = []")
  case True
  note d = staffedD [OF s]
  have "drained (nds ! j) (fifos (world_of s))"
    using input_closed [OF s j i before] i True by (simp add: drained_def)
  moreover have "thread_step kinds (nds ! j) (threads s ! j) (world_of s) = (goto Has_data (threads s ! j), world_of s)"
    using ph by (simp add: thread_step_def)
  moreover have "thread_step kinds (nds ! j) (goto Has_data (threads s ! j)) (world_of s) =
      (goto (Ports_valid False) (threads s ! j), world_of s)"
    using True worker_wants [OF d(8) [OF j] i]
    by (simp add: thread_step_def kernelHasInputData_world [OF d(4) d(8) [OF j]])
  ultimately have dr: "drained (nds ! j) (fifos (world_of s))"
      "alone kinds (nds ! j) (threads s ! j, world_of s) (goto (Ports_valid False) (threads s ! j), world_of s)"
    using alone_step [OF _ alone_step [OF _ alone_refl]] by metis+
  have "th_phase (goto (Ports_valid False) (threads s ! j)) = Ports_valid False" by simp
  then obtain t1 w1 where t1: "alone kinds (nds ! j) (goto (Ports_valid False) (threads s ! j), world_of s) (t1, w1)"
      "th_phase t1 = Loop_test" "ti_finished (th_info t1)"
    using drained_ends [OF _ d(4) d(8) [OF j] dr(1)] by metis
  obtain u where "go kinds nds j s u" "threads u ! j = t1"
    using staffed_alone [OF s j alone_trans [OF dr(2) t1(1)]] by blast
  then show ?thesis using t1(2,3) by blast
next
  case False
  note d = staffedD [OF s]
  obtain g where g: "n_code (nds ! j) (th_local (threads s ! j)) = Pop i g" "goes_on_after g"
    using worker_code [OF finite_programD(4) [OF d(1) j] i] .
  have "alone kinds (nds ! j) (threads s ! j, world_of s) (goto (In_run (Pop i g)) (threads s ! j), world_of s)"
    using alone_to_run [OF d(4) d(8) [OF j] _ ph(2)] worker_wants [OF d(8) [OF j] i] False ph(1) g(1) by simp
  then obtain v where v: "staffed kinds rank nds f0 v" "go kinds nds j s v"
      "threads v ! j = goto (In_run (Pop i g)) (threads s ! j)" "world_of v = world_of s"
    using staffed_alone [OF s j] by blast
  obtain u where "go kinds nds j v u" "th_phase (threads u ! j) = Loop_test"
      "length (queue (fifos (world_of u) i)) < length (queue (fifos (world_of v) i))"
    using pop_rest [OF v(1) j i _ g(2)] v(3,4) False by auto
  then show ?thesis using go_trans [OF _ v(2)] v(4) i by (auto simp: work_left_def)
qed

lemma kernel_ends_from_loop:
  assumes "staffed kinds rank nds f0 s" and j: "j < length nds" and "th_phase (threads s ! j) = Loop_test"
    and "\<forall>p < j. th_phase (threads s ! p) = Exited"
  shows "\<exists>u. go kinds nds j s u \<and> th_phase (threads u ! j) = Exited"
  using assms(1,3,4)
proof (induction "work_left rank nds j s" arbitrary: s rule: less_induct)
  case less
  have end_now: "\<exists>u. go kinds nds j v u \<and> th_phase (threads u ! j) = Exited"
    if "staffed kinds rank nds f0 v" "th_phase (threads v ! j) = Loop_test" "ti_finished (th_info (threads v ! j))" for v
  proof -
    have "thread_step kinds (nds ! j) (threads v ! j) (world_of v) = (goto Exited (threads v ! j), world_of v)"
      using that by (simp add: thread_step_def)
    then show ?thesis using staffed_step [OF that(1) j] by (metis goto_simps(1))
  qed
  show ?case
  proof (cases "ti_finished (th_info (threads s ! j))")
    case True
    then show ?thesis using end_now [OF less.prems(1,2)] by blast
  next
    case False
    have "n_input (nds ! j) = [] \<or> (\<exists>i. n_input (nds ! j) = [i])"
      using finite_programD(4) [OF staffedD(1) [OF less.prems(1)] j] by (auto simp: source_ok_def worker_ok_def)
    then obtain u where u: "go kinds nds j s u" "th_phase (threads u ! j) = Loop_test"
        "ti_finished (th_info (threads u ! j)) \<or> work_left rank nds j u < work_left rank nds j s"
      using source_pass [OF less.prems(1) j _ less.prems(2) False]
        worker_pass [OF less.prems(1) j _ less.prems(2) False less.prems(3)] by blast
    note su = staffed_go [OF less.prems(1) u(1)]
    have "\<forall>p < j. th_phase (threads u ! p) = Exited" using less.prems(3) go_frame(3) [OF u(1)] by simp
    then have "\<exists>v. go kinds nds j u v \<and> th_phase (threads v ! j) = Exited"
      using u(3) end_now [OF su u(2)] less.hyps [OF _ su u(2)] by blast
    then show ?thesis using go_trans [OF _ u(1)] by blast
  qed
qed

text \<open>From every phase a thread comes to the test of its loop.\<close>

lemma run_to_loop:
  assumes s: "staffed kinds rank nds f0 s" and j: "j < length nds" and ph: "th_phase (threads s ! j) = In_run a"
  shows "\<exists>u. go kinds nds j s u \<and> th_phase (threads u ! j) = Loop_test"
proof -
  consider Q where "pushes_only Q a"
    | i g where "n_input (nds ! j) = [i]" "a = Pop i g" "goes_on_after g" "queue (fifos (world_of s) i) \<noteq> []"
    using staffedD(7) [OF s j] ph by (auto simp: live_thread_def goes_on_def split: if_splits)
  then show ?thesis
  proof cases
    case 1
    then show ?thesis using run_rest [OF s j ph] by blast
  next
    case 2
    then show ?thesis using pop_rest [OF s j 2(1) _ 2(3,4)] ph by blast
  qed
qed

lemma kernel_to_loop:
  assumes s: "staffed kinds rank nds f0 s" and j: "j < length nds" and ph: "th_phase (threads s ! j) \<noteq> Exited"
  shows "\<exists>u. go kinds nds j s u \<and> th_phase (threads u ! j) = Loop_test"
proof -
  note d = staffedD [OF s]
  have rest: ?thesis if "ends_pass kinds (nds ! j) (threads s ! j) (world_of s)"
    using pass_rest [OF s j that] by blast
  show ?thesis
  proof (cases "th_phase (threads s ! j)")
    case Has_data
    let ?k = "as_kernel kinds (nds ! j) (th_local (threads s ! j))"
    let ?p = "if wants_data ?k (fifos (world_of s)) then In_run (n_code (nds ! j) (th_local (threads s ! j)))
      else Ports_valid False"
    have "thread_step kinds (nds ! j) (threads s ! j) (world_of s) = (goto ?p (threads s ! j), world_of s)"
      by (simp add: thread_step_def Has_data kernelHasInputData_world [OF d(4) d(8) [OF j]])
    then obtain v where v: "staffed kinds rank nds f0 v" "go kinds nds j s v"
        "threads v ! j = goto ?p (threads s ! j)"
      using staffed_step [OF s j] by blast
    have "\<exists>u. go kinds nds j v u \<and> th_phase (threads u ! j) = Loop_test"
    proof (cases "wants_data ?k (fifos (world_of s))")
      case True
      then show ?thesis using run_to_loop [OF v(1) j] v(3) by simp
    next
      case False
      then have "th_phase (threads v ! j) = Ports_valid False" using v(3) by simp
      then show ?thesis
        using pass_rest [OF v(1) j ends_passes(6) [OF _ staffedD(4) [OF v(1)] d(8) [OF j]]] by blast
    qed
    then show ?thesis using go_trans [OF _ v(2)] by blast
  next
    case (In_run a)
    then show ?thesis by (rule run_to_loop [OF s j])
  next
    case (Aborted x)
    then show ?thesis using d(7) [OF j] by (simp add: live_thread_def)
  qed (use ph in \<open>auto intro!: rest ends_rest [OF d(4) d(8) [OF j]]\<close>)
qed

lemma kernel_ends:
  assumes s: "staffed kinds rank nds f0 s" and j: "j < length nds" and before: "\<forall>p < j. th_phase (threads s ! p) = Exited"
  shows "\<exists>u. go kinds nds j s u \<and> th_phase (threads u ! j) = Exited"
proof (cases "th_phase (threads s ! j) = Exited")
  case True
  then show ?thesis using go_refl by blast
next
  case False
  then obtain u where u: "go kinds nds j s u" "th_phase (threads u ! j) = Loop_test"
    using kernel_to_loop [OF s j] by blast
  have "\<forall>p < j. th_phase (threads u ! p) = Exited" using before go_frame(3) [OF u(1)] by simp
  from kernel_ends_from_loop [OF staffed_go [OF s u(1)] j u(2) this] show ?thesis using go_trans [OF _ u(1)] by blast
qed

lemma kernels_end:
  assumes s: "staffed kinds rank nds f0 s"
  shows "m \<le> length nds \<Longrightarrow> \<exists>u. go kinds nds 0 s u \<and> (\<forall>p < m. th_phase (threads u ! p) = Exited)"
proof (induction m)
  case 0
  then show ?case using go_refl by blast
next
  case (Suc m)
  then obtain u where u: "go kinds nds 0 s u" "\<forall>p < m. th_phase (threads u ! p) = Exited" by auto
  obtain v where v: "go kinds nds m u v" "th_phase (threads v ! m) = Exited"
    using kernel_ends [OF staffed_go [OF s u(1)] _ u(2)] Suc.prems by auto
  have "\<forall>p < Suc m. th_phase (threads v ! p) = Exited"
    using u(2) v(2) go_frame(3) [OF v(1)] by (auto simp: less_Suc_eq)
  then show ?case using go_trans [OF go_weaken [OF v(1)] u(1)] by blast
qed

section \<open>The end of start\<close>

lemma good_main:
  assumes "finite_program kinds rank nds f0" and "good kinds rank nds f0 s"
  shows "exec_reachable kinds nds s (main_step nds s)" "good kinds rank nds f0 (main_step nds s)"
proof -
  have "\<not> aborted s" using assms(2) live_not_aborted by (auto simp: good_def)
  then show "exec_reachable kinds nds s (main_step nds s)"
    by (rule exec_reachable.step [OF exec_reachable.start exec_step.main])
qed (rule good_main_step [OF assms])

lemma threads_created:
  assumes fin: "finite_program kinds rank nds f0" and "good kinds rank nds f0 s"
  shows "\<exists>u. exec_reachable kinds nds s u \<and> staffed kinds rank nds f0 u"
  using assms(2)
proof (induction "length nds - length (threads s)" arbitrary: s)
  case 0
  then have "length (threads s) = length nds" using exec_okD(2) [of f0 nds s] by (simp add: good_def)
  then show ?case using 0 fin exec_reachable.start by (auto simp: staffed_def)
next
  case (Suc x)
  have "main_ok (length nds) s (main_at s)" using Suc.prems exec_okD(6) by (auto simp: good_def)
  then have "main_at s = Create (length (threads s))" using Suc.hyps(2) by (cases "main_at s") auto
  then have "length (threads (main_step nds s)) = Suc (length (threads s))"
    using Suc.hyps(2) by (simp add: main_step_def)
  then have "\<exists>u. exec_reachable kinds nds (main_step nds s) u \<and> staffed kinds rank nds f0 u"
    using Suc.hyps(1) [of "main_step nds s"] Suc.hyps(2) good_main(2) [OF fin Suc.prems] by simp
  then show ?case using exec_reachable_trans good_main(1) [OF fin Suc.prems] by blast
qed

definition all_exited :: "('a, 's) exec \<Rightarrow> bool" where
  "all_exited s \<longleftrightarrow> (\<forall>t \<in> set (threads s). th_phase t = Exited)"

lemma look_ended:
  assumes s: "staffed kinds rank nds f0 s" and ex: "all_exited s" and at: "main_at s = Look n keep" "n < length nds"
  shows "all_exited (main_step nds s) \<and> main_at (main_step nds s) = Look (n + 1) keep \<and>
    staffed kinds rank nds f0 (main_step nds s)"
proof -
  note d = staffedD [OF s]
  have t: "th_phase (threads s ! n) = Exited" using ex at(2) d(3) by (simp add: all_exited_def)
  then have "ti_finished (th_info (threads s ! n))" using d(6) [OF at(2)] by (simp add: thread_ok_def)
  then obtain t1 where t1: "look_at (threads s ! n) keep = Some (t1, keep)" "th_phase t1 = Exited"
    using t by (cases "ti_term (th_info (threads s ! n))") (auto simp: look_at_def has_exited_iff)
  have "main_step nds s = s\<lparr>threads := (threads s)[n := t1], main_at := Look (n + 1) keep\<rparr>"
    using at d(3) t1(1) by (simp add: main_step_def)
  moreover have "set ((threads s)[n := t1]) \<subseteq> insert t1 (set (threads s))" by (rule set_update_subset_insert)
  ultimately show ?thesis
    using ex t1(2) good_main(2) [OF d(1,2)] d(1,3) by (auto simp: all_exited_def staffed_def)
qed

lemma looks_end:
  assumes "staffed kinds rank nds f0 s" and "all_exited s" and "main_at s = Look n keep" and "n \<le> length nds"
  shows "\<exists>u. exec_reachable kinds nds s u \<and> staffed kinds rank nds f0 u \<and> all_exited u \<and> main_at u = Look (length nds) keep"
  using assms
proof (induction "length nds - n" arbitrary: s n)
  case 0
  then show ?case using exec_reachable.start by auto
next
  case (Suc x)
  then have n: "n < length nds" by simp
  note one = look_ended [OF Suc.prems(1-3) n]
  have "\<exists>u. exec_reachable kinds nds (main_step nds s) u \<and> staffed kinds rank nds f0 u \<and> all_exited u \<and>
      main_at u = Look (length nds) keep"
    using Suc.hyps(1) [of "n + 1" "main_step nds s"] one Suc.hyps(2) n by simp
  then show ?case
    using exec_reachable_trans good_main(1) [OF staffedD(1,2) [OF Suc.prems(1)]] by blast
qed

lemma last_look:
  assumes s: "staffed kinds rank nds f0 s" and at: "main_at s = Look (length nds) keep"
  shows "main_step nds s = s\<lparr>main_at := (if keep then Look 0 False else Start_returned)\<rparr>"
    "staffed kinds rank nds f0 (main_step nds s)"
  using at staffedD(3) [OF s] good_main(2) [OF staffedD(1,2) [OF s]] staffedD(1) [OF s]
  by (simp_all add: main_step_def staffed_def)

lemma start_ends_from_look:
  assumes s: "staffed kinds rank nds f0 s" and ex: "all_exited s" and at: "main_at s = Look n keep" "n \<le> length nds"
  shows "\<exists>u. exec_reachable kinds nds s u \<and> main_at u = Start_returned"
proof -
  have plain: "\<exists>u. exec_reachable kinds nds v u \<and> main_at u = Start_returned"
    if v: "staffed kinds rank nds f0 v" "all_exited v" "main_at v = Look m False" "m \<le> length nds" for v m
  proof -
    obtain u where u: "exec_reachable kinds nds v u" "staffed kinds rank nds f0 u" "main_at u = Look (length nds) False"
      using looks_end [OF v] by blast
    have "main_at (main_step nds u) = Start_returned" using last_look(1) [OF u(2,3)] by simp
    then show ?thesis using exec_reachable_trans [OF good_main(1) [OF staffedD(1,2) [OF u(2)]] u(1)] by blast
  qed
  show ?thesis
  proof (cases keep)
    case False
    then show ?thesis using plain [OF s ex] at by simp
  next
    case True
    then have "main_at s = Look n True" using at(1) by simp
    then obtain u where u: "exec_reachable kinds nds s u" "staffed kinds rank nds f0 u" "all_exited u"
        "main_at u = Look (length nds) True"
      using looks_end [OF s ex _ at(2)] by blast
    have m: "all_exited (main_step nds u)" "main_at (main_step nds u) = Look 0 False"
      using last_look(1) [OF u(2,4)] u(3) by (simp_all add: all_exited_def)
    obtain v where v: "exec_reachable kinds nds (main_step nds u) v" "main_at v = Start_returned"
      using plain [OF last_look(2) [OF u(2,4)] m le0] by blast
    note again = exec_reachable_trans [OF good_main(1) [OF staffedD(1,2) [OF u(2)]] u(1)]
    show ?thesis using exec_reachable_trans [OF v(1) again] v(2) by blast
  qed
qed

lemma start_ends:
  assumes s: "staffed kinds rank nds f0 s" and ex: "all_exited s"
  shows "\<exists>u. exec_reachable kinds nds s u \<and> main_at u = Start_returned"
proof (cases "main_at s")
  case (Create n)
  have n: "n = length nds" using staffedD(3,9) [OF s] Create by simp
  then have m: "main_step nds s = s\<lparr>main_at := Look 0 False\<rparr>" using Create by (simp add: main_step_def)
  have "staffed kinds rank nds f0 (main_step nds s)"
    using good_main(2) [OF staffedD(1,2) [OF s]] staffedD(1,3) [OF s] m by (simp add: staffed_def)
  moreover have "all_exited (main_step nds s)" "main_at (main_step nds s) = Look 0 False"
    using ex m by (simp_all add: all_exited_def)
  ultimately have "\<exists>u. exec_reachable kinds nds (main_step nds s) u \<and> main_at u = Start_returned"
    by (rule start_ends_from_look) simp
  then show ?thesis using exec_reachable_trans good_main(1) [OF staffedD(1,2) [OF s]] by blast
next
  case (Look n keep)
  then show ?thesis using start_ends_from_look [OF s ex Look] staffedD(9) [OF s] by simp
next
  case Start_returned
  then show ?thesis using exec_reachable.start by blast
qed

lemma program_can_end:
  assumes fin: "finite_program kinds rank nds f0" and r: "exec_reachable kinds nds (exec_init f0) s"
  shows "\<exists>u. exec_reachable kinds nds s u \<and> main_at u = Start_returned"
proof -
  obtain t where t: "exec_reachable kinds nds s t" "staffed kinds rank nds f0 t"
    using threads_created [OF fin reachable_good [OF fin r]] by blast
  obtain u where u: "go kinds nds 0 t u" "\<forall>p < length nds. th_phase (threads u ! p) = Exited"
    using kernels_end [OF t(2), of "length nds"] by blast
  note su = staffed_go [OF t(2) u(1)]
  have "all_exited u" using u(2) staffedD(3) [OF su] by (auto simp: all_exited_def in_set_conv_nth)
  then obtain v where "exec_reachable kinds nds u v" "main_at v = Start_returned" using start_ends [OF su] by blast
  then show ?thesis
    using exec_reachable_trans [OF _ exec_reachable_trans [OF go_reachable [OF staffedD(1,2) [OF t(2)] u(1)] t(1)]] by blast
qed

end
