(* ===== verification/Execution_Demo.thy ===== *)
theory Execution_Demo
  imports Execution_Done
begin

text \<open>
  The theorem on programs that end, a bound on what a program sends that is easy to check, and
  concrete programs: a source that counts down and a sink.
\<close>

section \<open>Bounded senders\<close>

text \<open>A run that pushes no more than the members of its kernel allow.\<close>

primrec spends :: "('s \<Rightarrow> nat) \<Rightarrow> ('a, 's) action \<Rightarrow> nat \<Rightarrow> bool" where
  "spends \<beta> (Return r st) = (\<lambda>b. \<beta> st \<le> b)"
| "spends \<beta> (Pop i f) = (\<lambda>b. \<forall>e. spends \<beta> (f e) b)"
| "spends \<beta> (Push i e a) = (\<lambda>b. 0 < b \<and> spends \<beta> a (b - 1))"

definition has_budget :: "('s \<Rightarrow> nat) \<Rightarrow> ('a, 's) node \<Rightarrow> bool" where
  "has_budget \<beta> nd \<longleftrightarrow> (\<forall>st. spends \<beta> (n_code nd st) (\<beta> st))"

fun budget_left :: "('s \<Rightarrow> nat) \<Rightarrow> ('a, 's) kthread \<Rightarrow> nat \<Rightarrow> ('a, 's) phase \<Rightarrow> bool" where
  "budget_left \<beta> t b (In_run a) = spends \<beta> a b"
| "budget_left \<beta> t b (Aborted x) = True"
| "budget_left \<beta> t b _ = (\<beta> (th_local t) \<le> b)"

definition thread_budget :: "('s \<Rightarrow> nat) \<Rightarrow> nat \<Rightarrow> ('a, 's) kthread \<Rightarrow> 'a world \<Rightarrow> nat \<Rightarrow> bool" where
  "thread_budget \<beta> n t w i \<longleftrightarrow>
     length (sent w i) \<le> n \<and> budget_left \<beta> t (n - length (sent w i)) (th_phase t)"

lemma budget_left_goto [simp]: "budget_left \<beta> (goto p t) b q = budget_left \<beta> t b q"
  by (cases q) simp_all

lemma thread_budget_goto:
  "thread_budget \<beta> n t w i \<Longrightarrow> sent w' i = sent w i \<Longrightarrow> budget_left \<beta> t (n - length (sent w i)) p \<Longrightarrow>
   thread_budget \<beta> n (goto p t) w' i"
  by (cases p) (simp_all add: thread_budget_def)

lemma spends_mono: "spends \<beta> a b \<Longrightarrow> b \<le> c \<Longrightarrow> spends \<beta> a c"
  by (induction a arbitrary: b c) force+

lemma thread_budget_action:
  assumes "thread_budget \<beta> n t w i" and "th_phase t = In_run a"
  shows "thread_budget \<beta> n (fst (action_step kinds nd a t w)) (snd (action_step kinds nd a t w)) i"
proof (cases a)
  case (Return r st)
  then show ?thesis using assms by (simp add: thread_budget_def Let_def)
next
  case (Pop k g)
  show ?thesis
  proof (cases "at_port k (pop_elem (kinds k)) (fifos w)")
    case (Returned e f)
    have "\<forall>e. spends \<beta> (g e) (n - length (sent w i))" using assms by (simp add: Pop thread_budget_def)
    then have "spends \<beta> (g e) (n - length (sent w i))" ..
    then show ?thesis using assms(1) Returned by (simp add: Pop thread_budget_def)
  qed (use assms in \<open>simp_all add: Pop thread_budget_def\<close>)
next
  case (Push k e b)
  then have b: "0 < n - length (sent w i)" "spends \<beta> b (n - length (sent w i) - 1)"
    using assms by (simp_all add: thread_budget_def)
  then have "spends \<beta> b (n - length (sent w i))" using spends_mono by fastforce
  then show ?thesis
  proof (cases "at_port k (push_elem e) (fifos w)")
    case (Returned u f)
    then show ?thesis using assms b \<open>spends \<beta> b (n - length (sent w i))\<close> by (auto simp: Push thread_budget_def)
  qed (use assms in \<open>simp_all add: Push thread_budget_def\<close>)
qed

lemma thread_budget_step:
  assumes "thread_budget \<beta> n t w i" and "has_budget \<beta> nd"
  shows "thread_budget \<beta> n (fst (thread_step kinds nd t w)) (snd (thread_step kinds nd t w)) i"
proof -
  have nb: "\<beta> (th_local t) \<le> b \<Longrightarrow> spends \<beta> (n_code nd (th_local t)) b" for b
    using assms(2) spends_mono unfolding has_budget_def by blast
  have call: "thread_budget \<beta> n (fst (after_call x (\<lambda>has w1. (goto (if has then p else q) t, w1)) t w))
      (snd (after_call x (\<lambda>has w1. (goto (if has then p else q) t, w1)) t w)) i"
    if "budget_left \<beta> t (n - length (sent w i)) p" "budget_left \<beta> t (n - length (sent w i)) q" for x p q
    using assms(1) that by (cases x) (auto simp: thread_budget_def intro!: thread_budget_goto)
  show ?thesis
  proof (cases "th_phase t")
    case Has_data
    then show ?thesis using assms(1) nb
      by (simp add: thread_step_def) (rule call, simp_all add: thread_budget_def)
  next
    case (In_run a)
    then show ?thesis using thread_budget_action [OF assms(1) In_run] by (simp add: thread_step_def)
  next
    case (Data_again rc)
    then show ?thesis using assms(1)
      by (simp add: thread_step_def) (rule call, simp_all add: thread_budget_def)
  next
    case (Close_stop js)
    then show ?thesis using assms(1) by (cases js) (auto simp: thread_step_def thread_budget_def close_port_def)
  next
    case (Close_drained rc js)
    then show ?thesis using assms(1) by (cases js) (auto simp: thread_step_def thread_budget_def close_port_def)
  qed (use assms(1) in \<open>auto simp: thread_step_def thread_budget_def\<close>)
qed

text \<open>What the program has sent, by producer.\<close>

definition budget_ok :: "(nat \<Rightarrow> 's \<Rightarrow> nat) \<Rightarrow> ('a, 's) node list \<Rightarrow> ('a, 's) exec \<Rightarrow> bool" where
  "budget_ok \<beta> nds s \<longleftrightarrow>
     (\<forall>j < length nds. \<forall>i \<in> set (n_output (nds ! j)).
        if j < length (threads s) then thread_budget (\<beta> j) (\<beta> j (n_start (nds ! j))) (threads s ! j) (world_of s) i
        else sent (world_of s) i = []) \<and>
     (\<forall>i. (\<forall>j < length nds. i \<notin> set (n_output (nds ! j))) \<longrightarrow> sent (world_of s) i = [])"

definition affordable :: "(nat \<Rightarrow> 's \<Rightarrow> nat) \<Rightarrow> ('a, 's) node list \<Rightarrow> 'a streams \<Rightarrow> bool" where
  "affordable \<beta> nds f0 \<longleftrightarrow>
     (\<forall>j < length nds. has_budget (\<beta> j) (nds ! j) \<and>
        (\<forall>i \<in> set (n_output (nds ! j)). \<beta> j (n_start (nds ! j)) < room (f0 i))) \<and> (\<forall>i. 0 < room (f0 i))"

lemma budget_lifetime:
  assumes "affordable \<beta> nds f0" and "budget_ok \<beta> nds s"
  shows "in_lifetime f0 (world_of s)"
  unfolding in_lifetime_def
proof
  fix i
  show "length (sent (world_of s) i) < room (f0 i)"
  proof (cases "\<exists>j < length nds. i \<in> set (n_output (nds ! j))")
    case True
    then obtain j where j: "j < length nds" "i \<in> set (n_output (nds ! j))" by blast
    then have "length (sent (world_of s) i) \<le> \<beta> j (n_start (nds ! j))"
      using assms(2) by (fastforce simp: budget_ok_def thread_budget_def split: if_splits)
    also have "\<dots> < room (f0 i)" using assms(1) j by (simp add: affordable_def)
    finally show ?thesis .
  next
    case False
    then have "sent (world_of s) i = []" using assms(2) by (simp add: budget_ok_def)
    then show ?thesis using assms(1) by (simp add: affordable_def)
  qed
qed

lemma budget_main_step:
  assumes "exec_ok f0 nds s" and "budget_ok \<beta> nds s"
  shows "budget_ok \<beta> nds (main_step nds s)"
proof (cases "main_at s")
  case (Create n)
  have n: "n = length (threads s)" using exec_okD(6) [OF assms(1)] Create by simp
  show ?thesis using assms(2) n
    by (auto simp: main_step_def Create budget_ok_def nth_append new_thread_def thread_budget_def less_Suc_eq)
next
  case (Look n keep)
  have "budget_ok \<beta> nds (s\<lparr>threads := (threads s)[n := t], main_at := Look (n + 1) keep1\<rparr>)"
    if n: "n < length (threads s)" and look: "look_at (threads s ! n) keep = Some (t, keep1)" for t keep1
  proof -
    have "budget_left b t c p = budget_left b (threads s ! n) c p" "th_phase t = th_phase (threads s ! n)" for b c p
      by (cases rule: look_at_cases [OF look, case_names join busy old]; cases p; simp)+
    then have "thread_budget b m ((threads s)[n := t] ! j) v i = thread_budget b m (threads s ! j) v i" for b m j v i
      using n by (cases "j = n") (simp_all add: thread_budget_def)
    then show ?thesis using assms(2) by (simp add: budget_ok_def)
  qed
  moreover have "budget_ok \<beta> nds (s\<lparr>main_at := m\<rparr>)" for m using assms(2) by (simp add: budget_ok_def)
  ultimately show ?thesis using assms(2) Look by (auto simp: main_step_def split: option.split)
qed (use assms in \<open>simp add: main_step_def\<close>)

lemma budget_kernel_step:
  assumes ok: "exec_ok f0 nds s" and program_ok: "program_ok nds" and aff: "affordable \<beta> nds f0"
    and b: "budget_ok \<beta> nds s" and k: "k < length (threads s)"
  shows "budget_ok \<beta> nds (kernel_step kinds nds k s)"
proof -
  obtain t w where tw: "thread_step kinds (nds ! k) (threads s ! k) (world_of s) = (t, w)" by fastforce
  note o = exec_okD [OF ok]
  have kn: "k < length nds" using k o(2) by simp
  have others: "sent w i = sent (world_of s) i" if "i \<notin> set (n_output (nds ! k))" for i
    using thread_step_sent_own [OF o(3) [OF k] that, of kinds] tw by simp
  have own: "thread_budget (\<beta> k) (\<beta> k (n_start (nds ! k))) t w i" if "i \<in> set (n_output (nds ! k))" for i
    using thread_budget_step [of "\<beta> k" _ "threads s ! k" "world_of s" i "nds ! k" kinds] b k kn that aff tw
    by (simp add: budget_ok_def affordable_def)
  have "sent w i = sent (world_of s) i" if "j < length nds" "j \<noteq> k" "i \<in> set (n_output (nds ! j))" for i j
    using others program_okD(2) [OF program_ok kn, of j] that by blast
  then show ?thesis using b own others k kn
    by (auto simp: budget_ok_def kernel_step_def tw nth_list_update thread_budget_def)
qed

lemma reachable_affordable:
  assumes program_ok: "program_ok nds" and new: "streams_new f0" and aff: "affordable \<beta> nds f0"
    and r: "exec_reachable kinds nds (exec_init f0) s"
  shows "in_lifetime f0 (world_of s)"
proof -
  from r have "budget_ok \<beta> nds s"
  proof (induction rule: exec_reachable.induct)
    case start
    show ?case by (simp add: budget_ok_def exec_init_def)
  next
    case (step s t)
    have ok: "exec_ok f0 nds s"
      by (rule exec_reachable_ok [OF step.hyps(1) program_ok new budget_lifetime [OF aff step.IH]])
    from step.hyps(2) show ?case
      by cases (use step.IH ok in \<open>auto intro: budget_main_step budget_kernel_step [OF _ program_ok aff]\<close>)
  qed
  then show ?thesis by (rule budget_lifetime [OF aff])
qed

section \<open>Programs that end\<close>


section \<open>Concrete programs\<close>

text \<open>The source sends n, ..., 1 and stops; the sink adds up what it receives.\<close>

definition countdown :: "nat \<Rightarrow> (nat, nat) node" where
  "countdown n =
     \<lparr>n_input = [], n_output = [0], n_behav = any_port,
      n_code = (\<lambda>m. if m = 0 then Return stop 0 else Push 0 (m, sig_none) (Return proceed (m - 1))),
      n_start = n\<rparr>"

definition adder :: "(nat, nat) node" where
  "adder =
     \<lparr>n_input = [0], n_output = [], n_behav = any_port,
      n_code = (\<lambda>m. Pop 0 (\<lambda>e. Return proceed (m + fst e))), n_start = 0\<rparr>"

definition count_program :: "(nat, nat) node list" where
  "count_program = [countdown 9, adder]"

abbreviation count_streams :: "nat streams" where
  "count_streams \<equiv> (\<lambda>_. fresh 16)"

abbreviation count_kinds :: "nat \<Rightarrow> alloc_kind" where
  "count_kinds \<equiv> (\<lambda>_. Inline_nonclass)"

lemma two_nodes: "j < length count_program \<longleftrightarrow> j = 0 \<or> j = 1"
  by (auto simp: count_program_def)

lemma count_nodes: "count_program ! 0 = countdown 9" "count_program ! 1 = adder" "count_program ! Suc 0 = adder"
  by (simp_all add: count_program_def)

lemma count_program_ok: "program_ok count_program"
  by (auto simp: program_ok_def streams_private_def count_program_def countdown_def adder_def node_ok_def less_Suc_eq)

lemma count_streams_new: "streams_new count_streams"
  using fresh_ok(2,3,4,6) [of 16] by (simp add: streams_new_def)

lemma count_affordable: "affordable (\<lambda>j. if j = 0 then (\<lambda>m. m) else (\<lambda>_. 0)) count_program count_streams"
proof -
  have "has_budget (\<lambda>m. m) (countdown 9)" by (auto simp: has_budget_def countdown_def)
  moreover have "has_budget (\<lambda>_. 0) adder" by (simp add: has_budget_def adder_def)
  ultimately show ?thesis
    using fresh_ok(5) [of 16] by (auto simp: affordable_def two_nodes count_nodes) (simp_all add: countdown_def adder_def)
qed

lemma count_finite: "finite_program count_kinds (\<lambda>_ m. m) count_program count_streams"
proof -
  have "feed_forward count_program"
    by (auto simp: feed_forward_def two_nodes count_nodes countdown_def adder_def)
  moreover have "source_ok (\<lambda>m. m) (countdown 9)" by (auto simp: source_ok_def countdown_def)
  moreover have "worker_ok adder" by (auto simp: worker_ok_def adder_def goes_on_after_def goes_on_def)
  ultimately show ?thesis
    using count_program_ok count_streams_new reachable_affordable [OF count_program_ok count_streams_new count_affordable]
    by (auto simp: finite_program_def two_nodes count_nodes)
qed


lemma count_ends:
  obtains u where "exec_reachable count_kinds count_program (exec_init count_streams) u" "main_at u = Start_returned"
  using program_can_end [OF count_finite exec_reachable.start] by blast

theorem start_returns_complete_witness:
  "\<exists>s :: (nat, nat) exec. main_at s = Start_returned \<and> th_phase (threads s ! 1) = Exited \<and> ti_term (th_info (threads s ! 1)) \<and>
    (stopped (threads s ! 1) \<or> closed_all (n_input adder) (fifos (world_of s)) \<and>
      got (world_of s) 0 = sent (world_of s) 0)"
proof -
  obtain s where s: "exec_reachable count_kinds count_program (exec_init count_streams) s" "main_at s = Start_returned"
    by (rule count_ends)
  note life = reachable_affordable [OF count_program_ok count_streams_new count_affordable s(1)]
  have "1 < length count_program" "adder = count_program ! 1" by (simp_all add: count_program_def)
  note complete = start_returns_complete [OF count_program_ok count_streams_new s(1) life s(2) this refl]
  have "n_behav adder = any_port" "0 \<in> set (n_input adder)" by (simp_all add: adder_def)
  with complete s(2) show ?thesis by blast
qed

theorem streams_keep_order_witness:
  "\<exists>s :: (nat, nat) exec. main_at s = Start_returned \<and>
    sent (world_of s) 0 = got (world_of s) 0 @ elems (fifos (world_of s) 0)
    \<and> length (elems (fifos (world_of s) 0)) \<le> cap (fresh 16)"
proof -
  obtain s where s: "exec_reachable count_kinds count_program (exec_init count_streams) s" "main_at s = Start_returned"
    by (rule count_ends)
  note life = reachable_affordable [OF count_program_ok count_streams_new count_affordable s(1)]
  show ?thesis
    using streams_keep_order [OF count_program_ok count_streams_new s(1) life, of 0] s(2) by blast
qed

text \<open>A sink that pops twice in a run, although a run is only promised one element.\<close>

definition greedy :: "(nat, nat) node" where
  "greedy = adder\<lparr>n_code := (\<lambda>m. Pop 0 (\<lambda>e. Pop 0 (\<lambda>f. Return proceed (m + fst e + fst f))))\<rparr>"

definition greedy_program :: "(nat, nat) node list" where
  "greedy_program = [countdown 1, greedy]"

definition greedy_end :: "(nat, nat) exec" where
  "greedy_end = run_exec count_kinds greedy_program
     ([None, None] @ replicate 15 (Some 0) @ replicate 4 (Some 1)) (exec_init count_streams)"

lemma greedy_aborts:
  "length (threads greedy_end) = 2" "th_phase (threads greedy_end ! 1) = Aborted (Inl ClosedPortAccess)"
proof -
  show "length (threads greedy_end) = 2" by code_simp
  have "case th_phase (threads greedy_end ! 1) of Aborted (Inl ClosedPortAccess) \<Rightarrow> True | _ \<Rightarrow> False" by code_simp
  then show "th_phase (threads greedy_end ! 1) = Aborted (Inl ClosedPortAccess)"
    by (simp split: phase.splits sum.splits exn.splits)
qed

lemma greedy_program_ok: "program_ok greedy_program"
  by (auto simp: program_ok_def streams_private_def greedy_program_def countdown_def greedy_def adder_def node_ok_def less_Suc_eq)

lemma greedy_lifetime:
  assumes "exec_reachable count_kinds greedy_program (exec_init count_streams) s"
  shows "in_lifetime count_streams (world_of s)"
proof -
  have "has_budget (\<lambda>m. m) (countdown 1)" by (auto simp: has_budget_def countdown_def)
  moreover have "has_budget (\<lambda>_. 0) greedy" by (simp add: has_budget_def greedy_def)
  ultimately have "affordable (\<lambda>j. if j = 0 then (\<lambda>m. m) else (\<lambda>_. 0)) greedy_program count_streams"
    using fresh_ok(5) [of 16] by (auto simp: affordable_def greedy_program_def less_Suc_eq)
      (simp_all add: countdown_def greedy_def adder_def)
  from reachable_affordable [OF greedy_program_ok count_streams_new this assms] show ?thesis .
qed



end
