(* ===== verification/Exe_Run.thy ===== *)
theory Exe_Run
  imports Exe Execution_Demo
begin

text \<open>
  raft::map::exe from the ready allocator to the threads: the scheduler takes the kernels of the
  map, and each thread sees its kernel through the FIFOs the allocator gave to its ports
  (PortIterator of src/portiterator.cpp).  So the streams of the program that runs are the
  edges of the graph.
\<close>

section \<open>The kernels as the threads see them\<close>

text \<open>
  The FIFOs of a container of ports, in the order of its iterator.  None: a port has no FIFO, the
  iterator would dereference a null pointer.
\<close>

definition iterate_fifo :: "('k, 't) PortInfo \<Rightarrow> nat option" where
  "iterate_fifo pi = (case getFIFO pi of Some (Some f) \<Rightarrow> Some f | _ \<Rightarrow> None)"

definition port_fifos :: "('k, 't) Port \<Rightarrow> nat list option" where
  "port_fifos p = those (map (\<lambda>e. iterate_fifo (snd e)) (portmap p))"

text \<open>
  The code of a kernel names its ports by their positions among its inputs and its outputs; a
  port is its FIFO.
\<close>

primrec bind_ports :: "nat list \<Rightarrow> nat list \<Rightarrow> ('a, 's) action \<Rightarrow> ('a, 's) action" where
  "bind_ports is os (Return r s) = Return r s"
| "bind_ports is os (Pop n f) = Pop (is ! n) (\<lambda>e. bind_ports is os (f e))"
| "bind_ports is os (Push n e a) = Push (os ! n) e (bind_ports is os a)"

definition kernel_node :: "('s \<Rightarrow> ('a, 's) action) \<Rightarrow> 's \<Rightarrow> ('k, 't) kernel \<Rightarrow> ('a, 's) node option" where
  "kernel_node code st k =
     (case (port_fifos (kin k), port_fifos (kout k)) of
        (Some is, Some os) \<Rightarrow>
          Some \<lparr>n_input = is, n_output = os, n_behav = sched_behav k,
             n_code = (\<lambda>m. bind_ports is os (code m)), n_start = st\<rparr>
      | _ \<Rightarrow> None)"

text \<open>The kernels in the order in which start creates their threads.\<close>

definition exe_nodes ::
  "(nat \<Rightarrow> 's \<Rightarrow> ('a, 's) action) \<Rightarrow> (nat \<Rightarrow> 's) \<Rightarrow> ('k, 't) map_state \<Rightarrow> ('a, 's) node list option" where
  "exe_nodes code st g =
     those (map (\<lambda>a. case heap g a of None \<Rightarrow> None | Some k \<Rightarrow> kernel_node (code a) (st a) k)
       (keeper_list (all_set g)))"

section \<open>What the allocator leaves alone\<close>

lemma those_map:
  "(\<And>x. x \<in> set xs \<Longrightarrow> f x = Some (g x)) \<Longrightarrow> those (map f xs) = Some (map g xs)"
  by (induction xs) auto

lemma allocated_map:
  fixes mk :: "'f factory"
  assumes "stdalloc_run mk align fuel S (Allocate_new g) = Returned u s"
  shows "same_wires g (a_map s)" "all_set (a_map s) = all_set g"
proof -
  let ?P = "\<lambda>s :: ('a, 'b, 'f) alloc_state. same_wires g (a_map s) \<and> all_set (a_map s) = all_set g"
  have keep: "keeps_on_edges a_map (allocate mk align) ?P"
    unfolding keeps_on_edges_def
  proof (intro allI impI)
    fix r q s u s' pi
    assume P: "?P s" and step: "allocate mk align r q s = Returned u s'"
    then have "a_map s' = set_info q (setFIFO (next_fifo s)) (set_info r (setFIFO (next_fifo s)) (a_map s))"
      by (auto simp: allocate_def initialize_def Let_def split: option.splits)
    then have "all_set (a_map s') = all_set (a_map s)" by simp
    moreover have "same_wires (a_map s) (a_map s')"
      using allocate_keeps_wires [of mk align] step unfolding keeps_wires_def by blast
    ultimately show "?P s'" using P same_wires_trans [of g "a_map s" "a_map s'"] by simp
  qed
  obtain s1 where s1: "BFS_edges a_map (allocate mk align) False fuel S (Allocate_new g) = Returned () s1"
      "s = setReady s1"
    using assms unfolding stdalloc_run_def
    by (cases "BFS_edges a_map (allocate mk align) False fuel S (Allocate_new g :: ('a, 'b, 'f) alloc_state)") auto
  have new: "?P (Allocate_new g)" by (simp add: Allocate_new_def)
  have "?P s1" by (rule BFS_edges_keeps [OF keep new s1(1)])
  then show "same_wires g (a_map s)" "all_set (a_map s) = all_set g" using s1(2) by (simp_all add: setReady_def)
qed

lemma same_wires_port_names:
  assumes "same_wires g g'" and "heap g a = Some K"
  obtains K' where "heap g' a = Some K'"
    "map fst (portmap (ports_of d K')) = map fst (portmap (ports_of d K))"
proof -
  obtain K' where K': "heap g' a = Some K'" "kernel_wires K' = kernel_wires K"
    by (rule same_wires_heap [OF assms])
  have "map fst (map (\<lambda>e. (fst e, other_kernel (snd e), other_name (snd e))) (portmap (kout K'))) =
      map fst (map (\<lambda>e. (fst e, other_kernel (snd e), other_name (snd e))) (portmap (kout K)))"
    using K'(2) by (simp only: kernel_wires_def prod.inject)
  then have "map fst (portmap (kout K')) = map fst (portmap (kout K))" by (simp add: comp_def)
  then have "map fst (portmap (ports_of d K')) = map fst (portmap (ports_of d K))"
    using K'(2) by (cases d) (simp_all add: kernel_wires_def)
  with K'(1) show thesis by (rule that)
qed

text \<open>The streams of the ports of one kernel on one side.\<close>

lemma port_fifos_of:
  assumes "heap (a_map s) a = Some K" and "distinct (map fst (portmap (ports_of d K)))"
    and "\<And>n. n \<in> fst ` set (portmap (ports_of d K)) \<Longrightarrow> port_fifo (a, d, n) s = Some (h n)"
  shows "port_fifos (ports_of d K) = Some (map h (map fst (portmap (ports_of d K))))"
proof -
  have "iterate_fifo (snd e) = Some (h (fst e))" if e: "e \<in> set (portmap (ports_of d K))" for e
  proof -
    have "get_info (a, d, fst e) (a_map s) = Some (snd e)"
      using smap_find_in [OF assms(2), of "fst e" "snd e"] e assms(1) by (simp add: get_info.simps)
    then show ?thesis using assms(3) [of "fst e"] e
      by (auto simp: port_fifo_def iterate_fifo_def split: option.splits)
  qed
  then have "those (map (\<lambda>e. iterate_fifo (snd e)) (portmap (ports_of d K))) =
      Some (map (\<lambda>e. h (fst e)) (portmap (ports_of d K)))" by (rule those_map)
  then show ?thesis by (simp add: port_fifos_def comp_def)
qed

section \<open>Edges\<close>

text \<open>The end of an edge on one side, and the edges at a port.\<close>

fun edge_end :: "port_dir \<Rightarrow> 'k edge \<Rightarrow> 'k port_ref" where
  "edge_end Out e = fst e"
| "edge_end In e = snd e"

definition graph_edges :: "('k, 't) map_state \<Rightarrow> 'k edge set" where
  "graph_edges g = (\<Union>k \<in> all_set g. set (out_edges g k))"

definition all_joined :: "('k, 't) map_state \<Rightarrow> bool" where
  "all_joined g \<longleftrightarrow>
     (\<forall>a \<in> all_set g. \<forall>d n pi. get_info (a, d, n) g = Some pi \<longrightarrow> other_kernel pi \<noteq> None)"

lemma port_names_info:
  assumes "heap g a = Some K"
  shows "n \<in> fst ` set (portmap (ports_of d K)) \<longleftrightarrow> (\<exists>pi. get_info (a, d, n) g = Some pi)"
  using assms smap_find_None [of "portmap (ports_of d K)" n]
  by (cases "smap_find (portmap (ports_of d K)) n") (auto simp: get_info.simps)

lemma edge_of_out_port:
  assumes "map_ok g" and "a \<in> all_set g" and "get_info (a, Out, n) g = Some pi" and "other_kernel pi = Some b"
  shows "((a, Out, n), (b, In, other_name pi)) \<in> graph_edges g"
proof -
  obtain K where K: "heap g a = Some K" using assms(1,2) by (auto simp: map_ok_def)
  have "(n, pi) \<in> set (portmap (kout K))"
    using assms(3) K smap_find_Some_in by (fastforce simp: get_info.simps)
  then have "port_edge a (n, pi) \<in> set (out_edges g a)" by (simp add: out_edges_alt [OF K])
  then show ?thesis using assms(2,4) by (auto simp: graph_edges_def port_edge_def)
qed

lemma edge_at_port:
  assumes "map_ok g" and "all_joined g" and "a \<in> all_set g" and "get_info (a, d, n) g = Some pi"
  shows "\<exists>e \<in> graph_edges g. edge_end d e = (a, d, n)"
proof -
  obtain b where b: "other_kernel pi = Some b" using assms(2-4) unfolding all_joined_def by blast
  show ?thesis
  proof (cases d)
    case Out
    then have "((a, Out, n), (b, In, other_name pi)) \<in> graph_edges g"
      using edge_of_out_port [OF assms(1,3) _ b, of n] assms(4) by simp
    then show ?thesis by (rule rev_bexI) (simp add: Out)
  next
    case In
    have "peer_ok (a, In, n) pi g" using assms(1,4) In by (simp add: map_ok_def wired_def)
    then obtain pj where pj: "b \<in> all_set g" "get_info (b, Out, other_name pi) g = Some pj"
        "other_kernel pj = Some a" "other_name pj = n"
      using b by (auto simp: peer_ok_def)
    show ?thesis using edge_of_out_port [OF assms(1) pj(1,2,3)] by (rule rev_bexI) (simp add: In pj(4))
  qed
qed

lemma edge_ends:
  assumes "map_ok g" and "connected g (all_set g)" and "e \<in> graph_edges g"
  obtains a n b m where "e = ((a, Out, n), (b, In, m))" "a \<in> all_set g" "b \<in> all_set g"
    "\<exists>pi. get_info (a, Out, n) g = Some pi" "\<exists>pi. get_info (b, In, m) g = Some pi"
proof -
  obtain k where k: "k \<in> all_set g" "e \<in> set (out_edges g k)" using assms(3) by (auto simp: graph_edges_def)
  obtain pi pj where p: "get_info (fst e) g = Some pi" "get_info (snd e) g = Some pj" "fst (fst e) = k"
      "snd e = (fst (snd e), In, other_name pi)" "fst (snd (fst e)) = Out"
    by (rule out_edge_info [OF assms(2) k])
  have "head_of e \<in> all_set g" using connected_heads [OF assms(2)] k by blast
  then have "fst (snd e) \<in> all_set g" by (simp add: head_of_def)
  moreover obtain n where n: "fst e = (k, Out, n)" using p(3,5) by (cases "fst e") auto
  moreover have "e = (fst e, snd e)" by simp
  ultimately show thesis
    using that [of k n "fst (snd e)" "other_name pi"] k(1) p(1,2,4) by simp
qed

section \<open>The streams of the program are the edges of the graph\<close>

lemma node_streams:
  assumes g: "map_ok g" "connected g (all_set g)" "all_joined g" and a: "a \<in> all_set g"
    and same: "same_wires g (a_map s)"
    and F: "\<forall>e \<in> graph_edges g. port_fifo (fst e) s = Some (F e) \<and> port_fifo (snd e) s = Some (F e)"
  shows "\<exists>K' is. heap (a_map s) a = Some K' \<and> port_fifos (ports_of d K') = Some is \<and>
    set is = F ` {e \<in> graph_edges g. fst (edge_end d e) = a}"
proof -
  obtain K where K: "heap g a = Some K" using g(1) a by (auto simp: map_ok_def)
  obtain K' where K': "heap (a_map s) a = Some K'"
      "map fst (portmap (ports_of d K')) = map fst (portmap (ports_of d K))"
    by (rule same_wires_port_names [OF same K])
  have ok: "distinct (map fst (portmap (ports_of d K)))"
    using g(1) K heap_sorted_port [of g a K d] by (simp add: map_ok_def smap_ok_def)
  let ?names = "fst ` set (portmap (ports_of d K))"
  have names': "fst ` set (portmap (ports_of d K')) = ?names" using K'(2) by (metis set_map)
  define edge where "edge n = (SOME e. e \<in> graph_edges g \<and> edge_end d e = (a, d, n))" for n
  have edge: "edge n \<in> graph_edges g \<and> edge_end d (edge n) = (a, d, n)" if "n \<in> ?names" for n
  proof -
    have "\<exists>e. e \<in> graph_edges g \<and> edge_end d e = (a, d, n)"
      using edge_at_port [OF g(1,3) a] that port_names_info [OF K] by blast
    then show ?thesis unfolding edge_def by (rule someI_ex)
  qed
  have fifo: "port_fifo (edge_end d e) s = Some (F e)" if "e \<in> graph_edges g" for e
    using F that by (cases d) simp_all
  have "port_fifo (a, d, n) s = Some (F (edge n))" if "n \<in> ?names" for n
    using edge [OF that] fifo by metis
  then have fifos: "port_fifos (ports_of d K') = Some (map (\<lambda>n. F (edge n)) (map fst (portmap (ports_of d K'))))"
    using port_fifos_of [OF K'(1), where d = d and h = "\<lambda>n. F (edge n)"] ok K'(2) names' by simp
  have streams: "(\<lambda>n. F (edge n)) ` ?names = F ` {e \<in> graph_edges g. fst (edge_end d e) = a}"
  proof (intro subset_antisym subsetI)
    fix f assume "f \<in> (\<lambda>n. F (edge n)) ` ?names"
    then obtain n where n: "n \<in> ?names" "f = F (edge n)" by blast
    then have "edge n \<in> {e \<in> graph_edges g. fst (edge_end d e) = a}" using edge [OF n(1)] by simp
    then show "f \<in> F ` {e \<in> graph_edges g. fst (edge_end d e) = a}" using n(2) by blast
  next
    fix f assume "f \<in> F ` {e \<in> graph_edges g. fst (edge_end d e) = a}"
    then obtain e where e: "e \<in> graph_edges g" "fst (edge_end d e) = a" "f = F e" by blast
    obtain a1 n1 b1 m1 where ends: "e = ((a1, Out, n1), (b1, In, m1))"
        "\<exists>pi. get_info (a1, Out, n1) g = Some pi" "\<exists>pi. get_info (b1, In, m1) g = Some pi"
      using edge_ends [OF g(1,2) e(1)] by metis
    obtain n where n: "edge_end d e = (a, d, n)" "\<exists>pi. get_info (a, d, n) g = Some pi"
    proof (cases d)
      case In
      then show thesis using that [of m1] ends e(2) by simp
    next
      case Out
      then show thesis using that [of n1] ends e(2) by simp
    qed
    then have nn: "n \<in> ?names" using port_names_info [OF K] by blast
    have "Some (F (edge n)) = Some (F e)" using fifo [OF e(1)] fifo [of "edge n"] edge [OF nn] n(1) by simp
    then show "f \<in> (\<lambda>n. F (edge n)) ` ?names" using nn e(3)
      by (metis image_eqI option.inject)
  qed
  have "set (map (\<lambda>n. F (edge n)) (map fst (portmap (ports_of d K')))) =
      F ` {e \<in> graph_edges g. fst (edge_end d e) = a}"
    by (simp only: set_map names' streams)
  with K'(1) fifos show ?thesis by (intro exI conjI)
qed

lemma those_nth:
  assumes "those (map f xs) = Some ys"
  shows "length ys = length xs" "i < length xs \<Longrightarrow> f (xs ! i) = Some (ys ! i)"
proof -
  have *: "those (map f xs) = Some ys \<Longrightarrow> map f xs = map Some ys" for ys
  proof (induction xs arbitrary: ys)
    case (Cons x xs)
    then show ?case by (cases "f x"; cases "those (map f xs)") auto
  qed simp
  then have m: "map f xs = map Some ys" using assms by blast
  show len: "length ys = length xs" using arg_cong [OF m, of length] by simp
  show "i < length xs \<Longrightarrow> f (xs ! i) = Some (ys ! i)"
    using arg_cong [OF m, of "\<lambda>l. l ! i"] len by simp
qed

lemma those_ex:
  assumes "\<And>x. x \<in> set xs \<Longrightarrow> f x \<noteq> None"
  shows "\<exists>ys. those (map f xs) = Some ys"
  using those_map [of xs f "\<lambda>x. the (f x)"] assms by fastforce

lemma exe_nodes_edges:
  fixes code :: "nat \<Rightarrow> 's \<Rightarrow> ('a, 's) action"
  assumes g: "map_ok g" "connected g (all_set g)" "all_joined g"
    and same: "same_wires g (a_map s)" "all_set (a_map s) = all_set g"
    and F: "\<forall>e \<in> graph_edges g. port_fifo (fst e) s = Some (F e) \<and> port_fifo (snd e) s = Some (F e)"
  shows "\<exists>nds. exe_nodes code st (a_map s) = Some nds \<and> length nds = card (all_set g) \<and>
    (\<forall>j < length nds.
       set (n_output (nds ! j)) = F ` {e \<in> graph_edges g. fst (fst e) = keeper_list (all_set g) ! j} \<and>
       set (n_input (nds ! j)) = F ` {e \<in> graph_edges g. fst (snd e) = keeper_list (all_set g) ! j})"
proof -
  let ?f = "\<lambda>a. case heap (a_map s) a of None \<Rightarrow> None | Some k \<Rightarrow> kernel_node (code a) (st a) k"
  have node: "\<exists>nd. ?f a = Some nd \<and>
      set (n_output nd) = F ` {e \<in> graph_edges g. fst (fst e) = a} \<and>
      set (n_input nd) = F ` {e \<in> graph_edges g. fst (snd e) = a}" if "a \<in> all_set g" for a
    using node_streams [OF g that same(1) F, of In] node_streams [OF g that same(1) F, of Out]
    by (auto simp: kernel_node_def)
  have fin: "finite (all_set g)" using g(1) by (simp add: map_ok_def)
  have "?f a \<noteq> None" if "a \<in> set (keeper_list (all_set g))" for a
    using node [of a] that fin by (auto simp: keeper_list_def)
  then obtain nds where nds: "those (map ?f (keeper_list (all_set g))) = Some nds"
    using those_ex [of "keeper_list (all_set g)" ?f] by blast
  have len: "length nds = card (all_set g)" using those_nth(1) [OF nds] by (simp add: keeper_list_def)
  have "set (n_output (nds ! j)) = F ` {e \<in> graph_edges g. fst (fst e) = keeper_list (all_set g) ! j} \<and>
       set (n_input (nds ! j)) = F ` {e \<in> graph_edges g. fst (snd e) = keeper_list (all_set g) ! j}"
    if j: "j < length nds" for j
  proof -
    have jl: "j < length (keeper_list (all_set g))" using j those_nth(1) [OF nds] by simp
    then have "keeper_list (all_set g) ! j \<in> set (keeper_list (all_set g))" by (rule nth_mem)
    then have "keeper_list (all_set g) ! j \<in> all_set g" using fin by (simp add: keeper_list_def)
    from node [OF this] those_nth(2) [OF nds jl] show ?thesis by auto
  qed
  then show ?thesis using nds len by (auto simp: exe_nodes_def same(2))
qed

lemma edges_private:
  assumes "inj_on F (graph_edges g)" and "distinct as" and "length nds = length as"
    and "\<forall>j < length nds.
       set (n_output (nds ! j)) = F ` {e \<in> graph_edges g. fst (fst e) = as ! j} \<and>
       set (n_input (nds ! j)) = F ` {e \<in> graph_edges g. fst (snd e) = as ! j}"
  shows "streams_private nds"
  unfolding streams_private_def
proof (intro allI impI)
  fix j k assume jk: "j < length nds" "k < length nds" "j \<noteq> k"
  then have ne: "as ! j \<noteq> as ! k" using assms(2,3) by (simp add: nth_eq_iff_index_eq)
  have disj: "F ` {e \<in> graph_edges g. p e = as ! j} \<inter> F ` {e \<in> graph_edges g. p e = as ! k} = {}" for p
  proof -
    have "F ` {e \<in> graph_edges g. p e = as ! j} \<inter> F ` {e \<in> graph_edges g. p e = as ! k} =
        F ` ({e \<in> graph_edges g. p e = as ! j} \<inter> {e \<in> graph_edges g. p e = as ! k})"
      by (rule inj_on_image_Int [OF assms(1), symmetric]) blast+
    also have "{e \<in> graph_edges g. p e = as ! j} \<inter> {e \<in> graph_edges g. p e = as ! k} = {}" using ne by auto
    finally show ?thesis by simp
  qed
  show "set (n_output (nds ! j)) \<inter> set (n_output (nds ! k)) = {} \<and>
      set (n_input (nds ! j)) \<inter> set (n_input (nds ! k)) = {}"
    using disj assms(4) jk(1,2) by simp
qed

lemma allocated_nodes:
  fixes code :: "nat \<Rightarrow> 's \<Rightarrow> ('a, 's) action" and mk :: "'f factory"
  assumes g: "map_ok g" "connected g (all_set g)" "all_joined g" and fuel: "card (all_set g) \<le> fuel"
    and new: "\<forall>r pi. get_info r g = Some pi \<longrightarrow> no_fifo pi"
    and reach: "all_set g \<subseteq> reachable_from (out_edges g) (source_set g)"
  shows "\<exists>s F nds. stdalloc_run mk align fuel (source_set g) (Allocate_new g) = Returned () s
     \<and> inj_on F (graph_edges g) \<and> exe_nodes code st (a_map s) = Some nds
     \<and> length nds = card (all_set g) \<and> streams_private nds
     \<and> (\<forall>j < length nds.
         set (n_output (nds ! j)) = F ` {e \<in> graph_edges g. fst (fst e) = keeper_list (all_set g) ! j} \<and>
         set (n_input (nds ! j)) = F ` {e \<in> graph_edges g. fst (snd e) = keeper_list (all_set g) ! j})"
proof -
  have v: "finite (all_set g)" "source_set g \<subseteq> all_set g" using g(1) by (simp_all add: map_ok_def)
  have "reachable_from (out_edges g) (source_set g) \<subseteq> all_set g"
    by (rule reachable_from_closed [OF v(2)]) (rule connected_heads [OF g(2)])
  then have E: "graph_edges g = (\<Union>k \<in> reachable_from (out_edges g) (source_set g). set (out_edges g k))"
    using reach unfolding graph_edges_def by auto
  obtain s F where s: "stdalloc_run mk align fuel (source_set g) (Allocate_new g) = Returned () s"
      "inj_on F (graph_edges g)"
      "\<forall>e \<in> graph_edges g. port_fifo (fst e) s = Some (F e) \<and> port_fifo (snd e) s = Some (F e)"
    using stdalloc_edges [OF g(1,2) v fuel new E, of mk align] by blast
  obtain nds :: "('a, 's) node list" where nds: "exe_nodes code st (a_map s) = Some nds" "length nds = card (all_set g)"
      "\<forall>j < length nds.
       set (n_output (nds ! j)) = F ` {e \<in> graph_edges g. fst (fst e) = keeper_list (all_set g) ! j} \<and>
       set (n_input (nds ! j)) = F ` {e \<in> graph_edges g. fst (snd e) = keeper_list (all_set g) ! j}"
    using exe_nodes_edges [OF g allocated_map [OF s(1)] s(3), of code st] by blast
  have "streams_private nds"
    by (rule edges_private [OF s(2) _ _ nds(3)]) (simp_all add: keeper_list_def nds(2))
  then show ?thesis using s nds by blast
qed

text \<open>Everything exe does before the threads leaves the map in such a state.\<close>

context partitioner
begin

lemma prepared_joined:
  assumes "map_ok g" and "sub_maps g = []" and "exe_prepare part g = Returned u g'"
  shows "all_joined g'"
proof -
  have "checkEdges g = Returned () g"
  proof -
    obtain v g1 where g1: "checkEdges g = Returned v g1"
      using assms(3) unfolding exe_prepare_def flatten_no_sub_maps [OF assms(2)] by (cases "checkEdges g") auto
    have "checkEdges g = Returned () g \<or> checkEdges g = Raised PortUnconnected g"
      using assms(1) check_edges_loop_cases [of "keeper_list (all_set g)" g]
      by (simp add: checkEdges_def keeper_list_def map_ok_def)
    then show ?thesis using g1 by auto
  qed
  then have "all_joined g"
    using assms(1) check_edges_loop_cases [of "keeper_list (all_set g)" g]
    by (auto simp: all_joined_def checkEdges_def keeper_list_def map_ok_def split: if_splits)
  then show ?thesis by (simp add: all_joined_def prepared_graph [OF assms])
qed

lemma prepared_nodes:
  fixes code :: "nat \<Rightarrow> 's \<Rightarrow> ('b, 's) action" and mk :: "'f factory"
  assumes "map_ok g" and "sub_maps g = []" and "exe_prepare part g = Returned u g'"
    and "card (all_set g) \<le> fuel" and "\<forall>r pi. get_info r g = Some pi \<longrightarrow> no_fifo pi"
    and "all_set g \<subseteq> reachable_from (out_edges g) (source_set g)"
  shows "\<exists>d F nds. dynalloc_start mk align fuel (source_set g') (Allocate_new g') = Returned () d
     \<and> inj_on F (graph_edges g) \<and> exe_nodes code st (dyn_map d) = Some nds
     \<and> length nds = card (all_set g) \<and> streams_private nds
     \<and> (\<forall>j < length nds.
         set (n_output (nds ! j)) = F ` {e \<in> graph_edges g. fst (fst e) = keeper_list (all_set g) ! j} \<and>
         set (n_input (nds ! j)) = F ` {e \<in> graph_edges g. fst (snd e) = keeper_list (all_set g) ! j})"
proof -
  note p = prepared_graph [OF assms(1-3)]
  have new: "\<forall>r pi. get_info r g' = Some pi \<longrightarrow> no_fifo pi" using assms(5) unfolding p(4) .
  have con: "connected g' (all_set g')" by (rule p(2))
  have edges: "graph_edges g' = graph_edges g" by (simp add: graph_edges_def p(3,5))
  obtain s F and nds :: "('b, 's) node list" where
      "stdalloc_run mk align fuel (source_set g') (Allocate_new g') = Returned () s"
      "inj_on F (graph_edges g')" "exe_nodes code st (a_map s) = Some nds" "length nds = card (all_set g')"
      "streams_private nds"
      "\<forall>j < length nds.
         set (n_output (nds ! j)) = F ` {e \<in> graph_edges g'. fst (fst e) = keeper_list (all_set g') ! j} \<and>
         set (n_input (nds ! j)) = F ` {e \<in> graph_edges g'. fst (snd e) = keeper_list (all_set g') ! j}"
    using allocated_nodes [OF p(1) con prepared_joined [OF assms(1-3)] _ new, of fuel mk align code st] assms(4,6)
    unfolding p(3,5,6) by blast
  then show ?thesis unfolding edges p(5)
    by (intro exI [of _ "\<lparr>base = s, size_map = (\<lambda>_. 0)\<rparr>"] exI [of _ F] exI [of _ nds])
      (simp add: dynalloc_start_def dyn_map_def)
qed

end

text \<open>
  C7: whichever partitioner is used, the threads that exe starts on a map whose kernels can all be
  reached from its sources see the graph: there is one for each kernel, the streams its
  kernel writes and reads are the FIFOs of the edges that leave and enter it, one FIFO for
  each edge, and so no two kernels write, and no two read, the same stream.
\<close>

theorem exe_threads_see_graph:
  fixes code :: "nat \<Rightarrow> 's \<Rightarrow> ('b, 's) action" and mk :: "'f factory"
  assumes "map_ok g" and "sub_maps g = []" and "\<forall>r pi. get_info r g = Some pi \<longrightarrow> no_fifo pi"
    and "part \<in> {partition_dummy, partition_basic n, partition_scotch lib fuel cores}"
    and "exe_prepare part g = Returned u g'" and "card (all_set g) \<le> fuel"
    and "all_set g \<subseteq> reachable_from (out_edges g) (source_set g)"
  shows "\<exists>d F nds. dynalloc_start mk align fuel (source_set g') (Allocate_new g') = Returned () d
     \<and> inj_on F (graph_edges g) \<and> exe_nodes code st (dyn_map d) = Some nds
     \<and> length nds = card (all_set g) \<and> streams_private nds
     \<and> (\<forall>j < length nds.
         set (n_output (nds ! j)) = F ` {e \<in> graph_edges g. fst (fst e) = keeper_list (all_set g) ! j} \<and>
         set (n_input (nds ! j)) = F ` {e \<in> graph_edges g. fst (snd e) = keeper_list (all_set g) ! j})"
  using assms(4,5)
    dummy.prepared_nodes [OF assms(1,2) _ assms(6,3,7), of u g' mk align code st]
    basic.prepared_nodes [OF assms(1,2) _ assms(6,3,7), of n u g' mk align code st]
    scotch.prepared_nodes [OF assms(1,2) _ assms(6,3,7), of lib fuel cores u g' mk align code st]
  by (elim insertE) simp_all

lemma diamond_map_reachable:
  "all_set diamond_map \<subseteq> reachable_from (out_edges diamond_map) (source_set diamond_map)"
proof -
  let ?r = "succs (out_edges diamond_map)"
  have "(1, 2) \<in> ?r" "(1, 3) \<in> ?r" "(2, 4) \<in> ?r"
    by (auto simp: succs_def head_of_def out_edges_def diamond_map_def diamond_simps)
  then have "(1, k) \<in> ?r\<^sup>*" if "k \<in> {1, 2, 3, 4}" for k
    using that by (auto intro: rtrancl_trans)
  then show ?thesis by (auto simp: reachable_from_def diamond_map_def)
qed

theorem exe_threads_see_graph_witness:
  "\<exists>d (F :: nat edge \<Rightarrow> nat) nds. dynalloc_start (\<lambda>n al p. (n, p)) 64 4 (source_set diamond_map) (Allocate_new diamond_map) = Returned () d
     \<and> inj_on F (graph_edges diamond_map)
     \<and> exe_nodes (\<lambda>a m. Return stop (0 :: nat) :: (nat, nat) action) (\<lambda>a. a) (dyn_map d) = Some nds
     \<and> length nds = 4 \<and> streams_private nds"
proof -
  have s: "sub_maps diamond_map = []" "card (all_set diamond_map) \<le> 4" "card (all_set diamond_map) = 4"
    by (simp_all add: diamond_map_def diamond_simps)
  have e: "exe_prepare partition_dummy diamond_map = Returned () diamond_map"
    unfolding exe_prepare_def flatten_no_sub_maps [OF s(1)] diamond_map_checked
    by (simp add: partition_dummy_def)
  have nf: "\<forall>r pi. get_info r diamond_map = Some pi \<longrightarrow> no_fifo pi"
    using diamond_map_ports by (metis prod.exhaust)
  have "partition_dummy \<in> {partition_dummy, partition_basic 1, partition_scotch round_lib 4 2}" by simp
  then show ?thesis
    using exe_threads_see_graph [OF diamond_map_ok s(1) nf _ e s(2) diamond_map_reachable,
        where mk = "\<lambda>n al p. (n, p)" and align = 64 and n = 1 and lib = round_lib and cores = 2
        and code = "\<lambda>a m. Return stop 0 :: (nat, nat) action" and st = "\<lambda>a. a"]
    unfolding s(3) by blast
qed

end
