(* ===== verification/Dot.thy ===== *)
theory Dot
  imports Exe
begin

text \<open>
  The picture of the map that exe writes when GEN_DOT is set: src/makedot.cpp and
  raftinc/makedot.hpp, with the numbers as operator << prints them and std::stoi reads them.
  A text is a string; the names of ports, types and classes are what show_name, type_name and
  class_name (the demangler of the C++ runtime) make of them.
\<close>

section \<open>Numbers\<close>

definition newline :: char where
  "newline = CHR 0x0A"

definition tab :: char where
  "tab = CHR 0x09"

definition quote :: char where
  "quote = CHR 0x22"

definition digit :: "nat \<Rightarrow> char" where
  "digit n = char_of (48 + n)"

definition is_digit :: "char \<Rightarrow> bool" where
  "is_digit c \<longleftrightarrow> 48 \<le> (of_char c :: nat) \<and> (of_char c :: nat) \<le> 57"

fun show_nat :: "nat \<Rightarrow> string" where
  "show_nat n = (if n < 10 then [digit n] else show_nat (n div 10) @ [digit (n mod 10)])"

declare show_nat.simps [simp del]

definition show_int :: "int \<Rightarrow> string" where
  "show_int i = (if i < 0 then CHR ''-'' # show_nat (nat (- i)) else show_nat (nat i))"

definition show_bool :: "bool \<Rightarrow> string" where
  "show_bool b = (if b then ''true'' else ''false'')"

definition read_nat :: "string \<Rightarrow> nat" where
  "read_nat ds = foldl (\<lambda>n c. 10 * n + (of_char c - 48)) 0 ds"

definition is_space :: "char \<Rightarrow> bool" where
  "is_space c \<longleftrightarrow> c = CHR '' '' \<or> 9 \<le> (of_char c :: nat) \<and> (of_char c :: nat) \<le> 13"

text \<open>stoi takes the longest number after white space; what follows it does not matter.\<close>

definition stoi :: "string \<Rightarrow> exn + int" where
  "stoi s =
     (let s1 = dropWhile is_space s;
          negative = (s1 \<noteq> [] \<and> hd s1 = CHR ''-'');
          s2 = (if s1 \<noteq> [] \<and> (hd s1 = CHR ''-'' \<or> hd s1 = CHR ''+'') then tl s1 else s1);
          ds = takeWhile is_digit s2;
          i = (if negative then - int (read_nat ds) else int (read_nat ds))
      in if ds = [] then Inl InvalidArgument
         else if i < - (2 ^ 31) \<or> i \<ge> 2 ^ 31 then Inl IntegerOutOfRange
         else Inr i)"

section \<open>The text\<close>

fun get_csv :: "string list \<Rightarrow> string" where
  "get_csv [] = []"
| "get_csv (s # ss) = s @ (if ss = [] then [] else '', '') @ get_csv ss"

definition generate_field :: "string \<Rightarrow> string list \<Rightarrow> string" where
  "generate_field name ss = name @ CHR ''='' # quote # get_csv ss @ [quote]"

record ('k, 't) dot_names =
  show_name :: "'k \<Rightarrow> string"
  type_name :: "'t \<Rightarrow> string"
  class_name :: "nat \<Rightarrow> string"

record ('k, 't) dot_state =
  dot_map :: "('k, 't) map_state"
  dot_out :: string
  dot_height :: int
  dot_width :: int

definition print :: "string \<Rightarrow> ('k, 't) dot_state \<Rightarrow> ('k, 't) dot_state" where
  "print t s = s\<lparr>dot_out := dot_out s @ t\<rparr>"

text \<open>The constructor: GEN_DOT_HEIGHT and GEN_DOT_WIDTH, each 10 when it is not set.\<close>

definition size_env :: "string option \<Rightarrow> exn + int" where
  "size_env env = (case env of None \<Rightarrow> Inr 10 | Some t \<Rightarrow> stoi t)"

definition make_dot_new ::
  "string option \<Rightarrow> string option \<Rightarrow> ('k, 't) map_state \<Rightarrow> exn + ('k, 't) dot_state" where
  "make_dot_new height_env width_env g =
     (case size_env height_env of
        Inl e \<Rightarrow> Inl e
      | Inr h \<Rightarrow>
          (case size_env width_env of
             Inl e \<Rightarrow> Inl e
           | Inr w \<Rightarrow> Inr \<lparr>dot_map = g, dot_out = [], dot_height = h, dot_width = w\<rparr>))"

definition generate_preamble :: "('k, 't) dot_state \<Rightarrow> ('k, 't) dot_state" where
  "generate_preamble s =
     print (''digraph G{'' @ [newline, tab]
       @ generate_field ''size'' [show_int (dot_height s), show_int (dot_width s)] @ '';'' @ [newline]) s"

definition vertex_text :: "('k, 't) dot_names \<Rightarrow> nat \<Rightarrow> nat \<Rightarrow> string" where
  "vertex_text nm k ident =
     tab # show_nat ident @ ''['' @ generate_field ''label'' [class_name nm k] @ '', ''
       @ generate_field ''shape'' [''ellipse''] @ '', '' @ generate_field ''fontname'' [''Helvetica'']
       @ ''];'' @ [newline]"

fun generate_vertex_list ::
  "('k, 't) dot_names \<Rightarrow> nat list \<Rightarrow> ('k, 't) dot_state \<Rightarrow> (unit, ('k, 't) dot_state) outcome" where
  "generate_vertex_list nm [] s = Returned () s"
| "generate_vertex_list nm (k # ks) s =
     (case heap (dot_map s) k of
        None \<Rightarrow> Fault UseAfterFree
      | Some K \<Rightarrow> generate_vertex_list nm ks (print (vertex_text nm k (get_id K)) s))"

text \<open>The memory type of a port is never set, so the queue type is that of the first kind, Heap.\<close>

definition edge_label :: "('k, 't) dot_names \<Rightarrow> ('k, 't) PortInfo \<Rightarrow> ('k, 't) PortInfo \<Rightarrow> string" where
  "edge_label nm a b =
     show_name nm (my_name a) @ '' to '' @ show_name nm (my_name b) @ '' ('' @ type_name nm (pi_type a) @ '')''
       @ [newline]
       @ ''OoO='' @ show_bool (out_of_order a) @ [newline]
       @ ''custom allocator='' @ show_bool (use_my_allocator a) @ [newline]
       @ ''queue type='' @ ''Heap'' @ [newline]
       @ (if existing_buffer a \<noteq> None
          then ''existing_buffer'' @ [newline]
            @ tab # ''size: '' @ show_nat (unat (nitems a)) @ [newline]
            @ tab # ''start_offset: '' @ show_nat (unat (start_index a)) @ [newline]
            @ tab # ''fixed_buffer_size: '' @ show_nat (unat (fixed_buffer_size a)) @ [newline]
          else [])"

definition edge_text ::
  "('k, 't) dot_names \<Rightarrow> nat \<Rightarrow> nat \<Rightarrow> ('k, 't) PortInfo \<Rightarrow> ('k, 't) PortInfo \<Rightarrow> string" where
  "edge_text nm i j a b =
     tab # show_nat i @ '' -> '' @ show_nat j @ ''['' @ generate_field ''label'' [edge_label nm a b]
       @ ''];'' @ [newline]"

definition dot_func :: "('k, 't) dot_names \<Rightarrow> ('k, ('k, 't) dot_state) edge_func" where
  "dot_func nm ra rb s =
     (case (get_info ra (dot_map s), get_info rb (dot_map s)) of
        (Some a, Some b) \<Rightarrow>
          (case (my_kernel a, my_kernel b) of
             (Some ka, Some kb) \<Rightarrow>
               (case (heap (dot_map s) ka, heap (dot_map s) kb) of
                  (Some KA, Some KB) \<Rightarrow> Returned () (print (edge_text nm (get_id KA) (get_id KB) a b) s)
                | _ \<Rightarrow> Fault UseAfterFree)
           | _ \<Rightarrow> Fault NullDereference)
      | _ \<Rightarrow> Fault NullDereference)"

definition generate_edge_list ::
  "('k, 't) dot_names \<Rightarrow> nat \<Rightarrow> ('k, 't) dot_state \<Rightarrow> (unit, ('k, 't) dot_state) outcome" where
  "generate_edge_list nm fuel s = BFS_edges dot_map (dot_func nm) False fuel (source_set (dot_map s)) s"

definition generate_close :: "('k, 't) dot_state \<Rightarrow> ('k, 't) dot_state" where
  "generate_close s = print (''}'' @ [newline]) s"

definition make_dot_run ::
  "('k, 't) dot_names \<Rightarrow> nat \<Rightarrow> ('k, 't) dot_state \<Rightarrow> (unit, ('k, 't) dot_state) outcome" where
  "make_dot_run nm fuel s =
     bind_outcome (generate_vertex_list nm (keeper_list (all_set (dot_map s))) (generate_preamble s))
       (\<lambda>_ s1. bind_outcome (generate_edge_list nm fuel s1) (\<lambda>_ s2. Returned () (generate_close s2)))"

section \<open>What exe does with it\<close>

record dot_env =
  gen_dot :: "string option"
  gen_dot_height :: "string option"
  gen_dot_width :: "string option"
  gen_dot_exit :: "string option"

text \<open>The text for the file, and whether the process exits after it.\<close>

definition exe_dot ::
  "('k, 't) dot_names \<Rightarrow> dot_env \<Rightarrow> nat \<Rightarrow> ('k, 't) map_state \<Rightarrow> (string option \<times> bool, ('k, 't) map_state) outcome" where
  "exe_dot nm env fuel g =
     (case gen_dot env of
        None \<Rightarrow> Returned (None, False) g
      | Some file \<Rightarrow>
          (case make_dot_new (gen_dot_height env) (gen_dot_width env) g of
             Inl e \<Rightarrow> Raised e g
           | Inr s \<Rightarrow>
               (case make_dot_run nm fuel s of
                  Returned _ t \<Rightarrow>
                    (case gen_dot_exit env of
                       None \<Rightarrow> Returned (Some (dot_out t), False) (dot_map t)
                     | Some x \<Rightarrow>
                         (case stoi x of
                            Inl e \<Rightarrow> Raised e (dot_map t)
                          | Inr v \<Rightarrow> Returned (Some (dot_out t), v = 1) (dot_map t)))
                | Spin t \<Rightarrow> Spin (dot_map t)
                | Raised e t \<Rightarrow> Raised e (dot_map t)
                | Fault f \<Rightarrow> Fault f)))"

section \<open>Reading a text back\<close>

text \<open>The lines of a text, and the kernels and edges on lines that start with a tab and a number.\<close>

datatype dot_item = Node nat | Arrow nat nat

fun dot_lines :: "string \<Rightarrow> string list" where
  "dot_lines [] = [[]]"
| "dot_lines (c # cs) =
     (if c = newline then [] # dot_lines cs
      else (case dot_lines cs of [] \<Rightarrow> [[c]] | l # ls \<Rightarrow> (c # l) # ls))"

definition read_arrow :: "nat \<Rightarrow> string \<Rightarrow> dot_item option" where
  "read_arrow i r =
     (if take 1 r = ''['' then Some (Node i)
      else if take 4 r = '' -> '' then Some (Arrow i (read_nat (takeWhile is_digit (drop 4 r))))
      else None)"

definition read_line :: "string \<Rightarrow> dot_item option" where
  "read_line l =
     (case l of
        [] \<Rightarrow> None
      | c # r \<Rightarrow>
          if c = tab \<and> takeWhile is_digit r \<noteq> []
          then read_arrow (read_nat (takeWhile is_digit r)) (dropWhile is_digit r)
          else None)"

definition read_dot :: "string \<Rightarrow> dot_item list" where
  "read_dot t = List.map_filter read_line (dot_lines t)"

end
