(* ===== verification/Dot_Props.thy ===== *)
theory Dot_Props
  imports Dot
begin

text \<open>
  Theorems of the picture: numbers are read back as they were printed, and reading the text back
  gives the kernels and the edges of the map.
\<close>

section \<open>Numbers\<close>

lemma digit_value: "n < 10 \<Longrightarrow> of_char (digit n) = 48 + n"
  by (simp add: digit_def)

lemma is_digit_digit: "n < 10 \<Longrightarrow> is_digit (digit n)"
  by (simp add: is_digit_def digit_value)

lemma show_nat_digits: "\<forall>c \<in> set (show_nat n). is_digit c"
proof (induction n rule: show_nat.induct)
  case (1 n)
  then show ?case by (subst show_nat.simps) (auto simp: is_digit_digit)
qed

lemma show_nat_nonempty: "show_nat n \<noteq> []"
  by (subst show_nat.simps) simp

lemma read_show_nat: "read_nat (show_nat n) = n"
proof (induction n rule: show_nat.induct)
  case (1 n)
  show ?case
  proof (cases "n < 10")
    case True
    then show ?thesis by (subst show_nat.simps) (simp add: read_nat_def digit_value)
  next
    case False
    then have "read_nat (show_nat n) = 10 * read_nat (show_nat (n div 10)) + n mod 10"
      by (subst show_nat.simps) (simp add: read_nat_def digit_value)
    then show ?thesis using 1 False by simp
  qed
qed

lemma digits_take:
  assumes "r = [] \<or> \<not> is_digit (hd r)"
  shows "takeWhile is_digit (show_nat n @ r) = show_nat n" "dropWhile is_digit (show_nat n @ r) = r"
proof -
  have "takeWhile is_digit r = []" "dropWhile is_digit r = r" using assms by (cases r; simp)+
  then show "takeWhile is_digit (show_nat n @ r) = show_nat n" "dropWhile is_digit (show_nat n @ r) = r"
    using show_nat_digits by (simp_all add: takeWhile_append2 dropWhile_append2)
qed

lemma digit_no_space: "is_digit c \<Longrightarrow> \<not> is_space c \<and> c \<noteq> CHR ''-'' \<and> c \<noteq> CHR ''+'' \<and> c \<noteq> newline"
  by (auto simp: is_digit_def is_space_def newline_def)

lemma no_newline_nat: "newline \<notin> set (show_nat n)"
  using show_nat_digits digit_no_space by blast

lemma no_newline_int: "newline \<notin> set (show_int i)"
  using no_newline_nat by (simp add: show_int_def newline_def)

text \<open>
  Fact: An int printed with operator << and read with stoi is the same int, whatever follows its
  last digit; so a size given to GEN_DOT_HEIGHT or GEN_DOT_WIDTH is the size in the picture.
\<close>

theorem stoi_reads_back:
  assumes "- (2 ^ 31) \<le> i" and "i < 2 ^ 31" and "r = [] \<or> \<not> is_digit (hd r)"
  shows "stoi (show_int i @ r) = Inr i"
proof -
  obtain c cs where c: "show_nat (nat \<bar>i\<bar>) = c # cs" "is_digit c"
    using show_nat_nonempty [of "nat \<bar>i\<bar>"] show_nat_digits [of "nat \<bar>i\<bar>"] by (cases "show_nat (nat \<bar>i\<bar>)") auto
  note t = digits_take(1) [OF assms(3), of "nat \<bar>i\<bar>", unfolded c(1)]
  have v: "read_nat (c # cs) = nat \<bar>i\<bar>" using read_show_nat [of "nat \<bar>i\<bar>"] c(1) by simp
  have minus: "\<not> is_space CHR ''-''" by (simp add: is_space_def)
  show ?thesis
  proof (cases "i < 0")
    case True
    then have s: "show_int i @ r = CHR ''-'' # c # cs @ r" using c(1) by (simp add: show_int_def)
    show ?thesis
      unfolding s using minus t v True assms(1,2) by (simp add: stoi_def Let_def)
  next
    case False
    then have s: "show_int i @ r = c # cs @ r" using c(1) by (simp add: show_int_def)
    show ?thesis
      unfolding s using digit_no_space [OF c(2)] t v False assms(1,2) by (simp add: stoi_def Let_def)
  qed
qed

theorem stoi_reads_back_witness: "stoi (show_int (- 42) @ ''px'') = Inr (- 42)"
  by (rule stoi_reads_back) (simp_all add: is_digit_def)

section \<open>Lines\<close>

lemma dot_lines_nonempty: "dot_lines t \<noteq> []"
  by (induction t) (auto split: list.splits)

lemma dot_lines_append: "dot_lines (x @ newline # y) = dot_lines x @ dot_lines y"
  by (induction x) (auto simp: dot_lines_nonempty split: list.splits)

lemma dot_lines_single: "newline \<notin> set l \<Longrightarrow> dot_lines l = [l]"
  by (induction l) auto

lemma read_dot_line:
  assumes "newline \<notin> set l"
  shows "read_dot (l @ newline # y) = (case read_line l of None \<Rightarrow> [] | Some i \<Rightarrow> [i]) @ read_dot y"
  using assms by (simp add: read_dot_def dot_lines_append dot_lines_single map_filter_simps split: option.splits)

lemma read_dot_Nil [simp]: "read_dot [] = []"
  by (simp add: read_dot_def read_line_def map_filter_simps)

text \<open>Texts of whole lines are read one after the other.\<close>

lemma read_dot_append: "read_dot ((x @ [newline]) @ y) = read_dot (x @ [newline]) @ read_dot y"
  using dot_lines_append [of x y] dot_lines_append [of x "[]"]
  by (simp add: read_dot_def read_line_def List.map_filter_def)

lemma read_dot_concat:
  assumes "\<forall>x \<in> set xs. \<exists>l. f x = l @ [newline]"
  shows "read_dot (concat (map f xs) @ y) = concat (map (\<lambda>x. read_dot (f x)) xs) @ read_dot y"
  using assms
proof (induction xs)
  case (Cons x xs)
  then obtain l where "f x = l @ [newline]" by auto
  then show ?case using Cons read_dot_append [of l "concat (map f xs) @ y"] by simp
qed simp

lemma read_line_skips:
  "l = [] \<or> hd l \<noteq> tab \<or> tl l = [] \<or> \<not> is_digit (hd (tl l)) \<Longrightarrow> read_line l = None"
  by (cases l; cases "tl l") (auto simp: read_line_def)

lemma read_line_number:
  assumes "\<not> is_digit c"
  shows "read_line (tab # show_nat i @ c # r) = read_arrow i (c # r)"
  using digits_take [of "c # r" i] assms show_nat_nonempty [of i]
  by (simp add: read_line_def read_show_nat)

section \<open>The parts of a text\<close>

text \<open>Names that take one line.\<close>

definition plain_names :: "('k, 't) dot_names \<Rightarrow> bool" where
  "plain_names nm \<longleftrightarrow>
     (\<forall>n. newline \<notin> set (show_name nm n)) \<and> (\<forall>t. newline \<notin> set (type_name nm t))
     \<and> (\<forall>k. newline \<notin> set (class_name nm k))"

lemmas no_newlines = no_newline_nat no_newline_int newline_def tab_def quote_def show_bool_def

lemma not_digits: "\<not> is_digit CHR ''s''" "\<not> is_digit CHR ''f''" "\<not> is_digit CHR ''[''" "\<not> is_digit CHR '' ''"
  by (simp_all add: is_digit_def)

lemma read_vertex:
  assumes "plain_names nm"
  shows "read_dot (vertex_text nm k i) = [Node i]"
proof -
  let ?r = "generate_field ''label'' [class_name nm k] @ '', '' @ generate_field ''shape'' [''ellipse''] @ '', ''
    @ generate_field ''fontname'' [''Helvetica''] @ ''];''"
  let ?l = "tab # show_nat i @ CHR ''['' # ?r"
  have "vertex_text nm k i = ?l @ newline # []" by (simp add: vertex_text_def)
  moreover have "newline \<notin> set ?l"
    using assms no_newline_nat [of i] by (simp add: plain_names_def generate_field_def no_newlines)
  moreover have "read_line ?l = Some (Node i)"
    using read_line_number [OF not_digits(3)] by (simp add: read_arrow_def)
  ultimately show ?thesis using read_dot_line [of ?l "[]"] by simp
qed

text \<open>The lines of an edge's label after its first, and after each the rest of the text.\<close>

lemma read_skips:
  assumes "newline \<notin> set l" and "l = [] \<or> hd l \<noteq> tab \<or> tl l = [] \<or> \<not> is_digit (hd (tl l))"
  shows "read_dot (l @ newline # y) = read_dot y"
  using read_dot_line [OF assms(1)] read_line_skips [OF assms(2)] by simp

lemma read_label_rest:
  "read_dot (''OoO='' @ show_bool b @ newline # y) = read_dot y"
  "read_dot (''custom allocator='' @ show_bool b @ newline # y) = read_dot y"
  "read_dot (''queue type=Heap'' @ newline # y) = read_dot y"
  "read_dot (''existing_buffer'' @ newline # y) = read_dot y"
  "read_dot (tab # ''size: '' @ show_nat n @ newline # y) = read_dot y"
  "read_dot (tab # ''start_offset: '' @ show_nat n @ newline # y) = read_dot y"
  "read_dot (tab # ''fixed_buffer_size: '' @ show_nat n @ newline # y) = read_dot y"
  "read_dot (quote # ''];'' @ newline # y) = read_dot y"
  using read_skips [of "''OoO='' @ show_bool b" y] read_skips [of "''custom allocator='' @ show_bool b" y]
    read_skips [of "''queue type=Heap''" y] read_skips [of "''existing_buffer''" y]
    read_skips [of "tab # ''size: '' @ show_nat n" y] read_skips [of "tab # ''start_offset: '' @ show_nat n" y]
    read_skips [of "tab # ''fixed_buffer_size: '' @ show_nat n" y] read_skips [of "quote # ''];''" y]
    no_newline_nat [of n]
  by (simp_all add: no_newlines not_digits)

lemma read_edge:
  assumes "plain_names nm"
  shows "read_dot (edge_text nm i j a b) = [Arrow i j]"
proof -
  let ?r = "show_nat j @ CHR ''['' # ''label='' @ quote # show_name nm (my_name a) @ '' to '' @ show_name nm (my_name b)
    @ '' ('' @ type_name nm (pi_type a) @ '')''"
  let ?l = "tab # show_nat i @ CHR '' '' # ''-> '' @ ?r"
  let ?buf = "if existing_buffer a \<noteq> None
      then ''existing_buffer'' @ newline # tab # ''size: '' @ show_nat (unat (nitems a)) @ newline
        # tab # ''start_offset: '' @ show_nat (unat (start_index a)) @ newline
        # tab # ''fixed_buffer_size: '' @ show_nat (unat (fixed_buffer_size a)) @ newline # (quote # ''];'' @ [newline])
      else quote # ''];'' @ [newline]"
  have pieces: "edge_text nm i j a b = ?l @ newline # (''OoO='' @ show_bool (out_of_order a) @ newline
      # (''custom allocator='' @ show_bool (use_my_allocator a) @ newline # (''queue type=Heap'' @ newline # ?buf)))"
    by (simp add: edge_text_def edge_label_def generate_field_def)
  have "newline \<notin> set ?l"
    using assms no_newline_nat [of i] no_newline_nat [of j] by (simp add: plain_names_def no_newlines)
  moreover have "takeWhile is_digit ?r = show_nat j"
    by (rule digits_take(1)) (simp add: not_digits)
  then have "read_line ?l = Some (Arrow i j)"
    using read_line_number [OF not_digits(4), of i "''-> '' @ ?r"] by (simp add: read_arrow_def read_show_nat)
  moreover have "read_dot ?buf = []"
    using read_label_rest(4-8) read_label_rest(8) [of "[]"] by simp
  ultimately show ?thesis
    unfolding pieces using read_dot_line [of ?l] by (simp add: read_label_rest(1-3) del: append_Cons)
qed

section \<open>The whole text\<close>

definition ident :: "('k, 't) map_state \<Rightarrow> nat \<Rightarrow> nat" where
  "ident g k = get_id (the (heap g k))"

text \<open>The text of an edge of the map.\<close>

definition edge_line :: "('k, 't) dot_names \<Rightarrow> ('k, 't) map_state \<Rightarrow> 'k edge \<Rightarrow> string" where
  "edge_line nm g e =
     edge_text nm (ident g (fst (fst e))) (ident g (head_of e)) (the (get_info (fst e) g)) (the (get_info (snd e) g))"

lemma print_fields [simp]:
  "dot_map (print t s) = dot_map s" "dot_out (print t s) = dot_out s @ t"
  "print t (print u s) = print (u @ t) s" "print [] s = s"
  "dot_height (print t s) = dot_height s" "dot_width (print t s) = dot_width s"
  by (simp_all add: print_def)

lemma vertex_list_text:
  assumes "set ks \<subseteq> dom (heap (dot_map s))"
  shows "generate_vertex_list nm ks s =
     Returned () (print (concat (map (\<lambda>k. vertex_text nm k (ident (dot_map s) k)) ks)) s)"
  using assms
proof (induction ks arbitrary: s)
  case (Cons k ks)
  then obtain K where "heap (dot_map s) k = Some K" by auto
  then show ?case using Cons by (simp add: ident_def)
qed simp

text \<open>An edge whose ends belong to kernels of the heap.\<close>

definition drawable :: "('k, 't) map_state \<Rightarrow> 'k edge \<Rightarrow> bool" where
  "drawable g e \<longleftrightarrow> get_info (fst e) g \<noteq> None \<and> get_info (snd e) g \<noteq> None
     \<and> fst (fst e) \<in> dom (heap g) \<and> head_of e \<in> dom (heap g)"

lemma dot_func_text:
  assumes "owned (dot_map s)" and "drawable (dot_map s) e"
  shows "dot_func nm (fst e) (snd e) s = Returned () (print (edge_line nm (dot_map s) e) s)"
proof -
  obtain a d n b d' m where e: "e = ((a, d, n), (b, d', m))" by (metis surj_pair)
  obtain pa pb KA KB where i: "get_info (a, d, n) (dot_map s) = Some pa" "get_info (b, d', m) (dot_map s) = Some pb"
      "heap (dot_map s) a = Some KA" "heap (dot_map s) b = Some KB"
    using assms(2) by (auto simp: e drawable_def head_of_def)
  then have "my_kernel pa = Some a" "my_kernel pb = Some b" using assms(1) unfolding owned_def by blast+
  then show ?thesis using i by (simp add: e dot_func_def edge_line_def ident_def head_of_def)
qed

lemma run_dot_edges:
  assumes "owned (dot_map s)" and "\<forall>e \<in> set es. drawable (dot_map s) e"
  shows "run_edges (dot_func nm) es s = Returned () (print (concat (map (edge_line nm (dot_map s)) es)) s)"
  using assms by (induction es arbitrary: s) (simp_all add: dot_func_text)

lemma dot_keeps_wires: "keeps_wires dot_map (dot_func nm)"
  unfolding keeps_wires_def
proof (intro allI impI)
  fix r q s u s' assume "dot_func nm r q s = Returned u s'"
  then have "dot_map s' = dot_map s" by (auto simp: dot_func_def split: option.splits)
  then show "same_wires (dot_map s) (dot_map s')" by simp
qed

lemma out_edges_drawable:
  assumes "connected g V" and "k \<in> V" and "e \<in> set (out_edges g k)"
  shows "drawable g e"
proof -
  obtain K where K: "heap g k = Some K" "smap_ok (portmap (kout K))"
      "\<forall>e \<in> set (portmap (kout K)). \<exists>b KB. other_kernel (snd e) = Some b \<and> b \<in> V
         \<and> heap g b = Some KB \<and> other_name (snd e) \<in> fst ` set (portmap (kin KB))"
    using assms(1,2) unfolding connected_def by blast
  obtain n pi where p: "(n, pi) \<in> set (portmap (kout K))"
      "e = ((k, Out, n), (the (other_kernel pi), In, other_name pi))"
    using assms(3) K(1) by (auto simp: out_edges_def)
  obtain b KB where b: "other_kernel pi = Some b" "heap g b = Some KB" "other_name pi \<in> fst ` set (portmap (kin KB))"
    using bspec [OF K(3) p(1)] by auto
  have "smap_find (portmap (kout K)) n = Some pi"
    using K(2) p(1) by (intro smap_find_in) (auto simp: smap_ok_def)
  moreover have "smap_find (portmap (kin KB)) (other_name pi) \<noteq> None"
    using b(3) by (simp add: smap_find_None)
  ultimately show ?thesis using K(1) b(1,2) p(2) by (auto simp: drawable_def head_of_def get_info.simps)
qed

lemma read_preamble:
  "read_dot (''digraph G{'' @ [newline, tab] @ generate_field ''size'' [show_int h, show_int w] @ '';'' @ [newline] @ y)
     = read_dot y"
  using read_skips [of "''digraph G{''" "tab # generate_field ''size'' [show_int h, show_int w] @ '';'' @ newline # y"]
    read_skips [of "tab # generate_field ''size'' [show_int h, show_int w] @ '';''" y]
    no_newline_int [of h] no_newline_int [of w]
  by (simp add: no_newlines not_digits generate_field_def)

lemma read_close: "read_dot (''}'' @ [newline]) = []"
  by (subst read_skips) (simp_all add: no_newlines)

lemma read_texts:
  assumes "plain_names nm"
  shows "read_dot (concat (map (\<lambda>k. vertex_text nm k (f k)) ks) @ concat (map (edge_line nm g) es) @ ''}'' @ [newline])
     = map (\<lambda>k. Node (f k)) ks @ map (\<lambda>e. Arrow (ident g (fst (fst e))) (ident g (head_of e))) es"
proof -
  have "vertex_text nm k (f k) \<noteq> [] \<and> last (vertex_text nm k (f k)) = newline" for k
    by (simp add: vertex_text_def)
  then have "\<exists>l. vertex_text nm k (f k) = l @ [newline]" for k by (metis append_butlast_last_id)
  moreover have "edge_line nm g e \<noteq> [] \<and> last (edge_line nm g e) = newline" for e
    by (simp add: edge_line_def edge_text_def)
  then have "\<exists>l. edge_line nm g e = l @ [newline]" for e by (metis append_butlast_last_id)
  moreover have "concat (map (\<lambda>x. [h x]) xs) = map h xs" for h :: "'a \<Rightarrow> dot_item" and xs
    by (induction xs) simp_all
  moreover have "concat (map (\<lambda>x. [h x]) xs) = map h xs" for h :: "'b \<Rightarrow> dot_item" and xs
    by (induction xs) simp_all
  ultimately show ?thesis
    by (simp add: read_dot_concat read_vertex [OF assms] read_edge [OF assms] edge_line_def read_close
        del: append_Cons append.simps)
qed

lemma make_dot_text:
  assumes "map_ok (dot_map s)" and "connected (dot_map s) (all_set (dot_map s))" and "owned (dot_map s)"
    and "card (all_set (dot_map s)) \<le> fuel" and "plain_names nm" and "dot_out s = []"
  shows "\<exists>t ks. make_dot_run nm fuel s = Returned () t \<and> dot_map t = dot_map s \<and> distinct ks
     \<and> set ks = reachable_from (out_edges (dot_map s)) (source_set (dot_map s))
     \<and> read_dot (dot_out t) =
         map (\<lambda>k. Node (ident (dot_map s) k)) (keeper_list (all_set (dot_map s)))
         @ map (\<lambda>e. Arrow (ident (dot_map s) (fst (fst e))) (ident (dot_map s) (head_of e)))
             (concat (map (out_edges (dot_map s)) ks))"
proof -
  let ?g = "dot_map s" and ?all = "keeper_list (all_set (dot_map s))"
  let ?s1 = "print (concat (map (\<lambda>k. vertex_text nm k (ident ?g k)) ?all)) (generate_preamble s)"
  have m: "finite (all_set ?g)" "source_set ?g \<subseteq> all_set ?g" "all_set ?g \<subseteq> dom (heap ?g)" "heap_sorted ?g"
    using assms(1) by (simp_all add: map_ok_def)
  have pre: "dot_map (generate_preamble s) = ?g" by (simp add: generate_preamble_def)
  have v: "generate_vertex_list nm ?all (generate_preamble s) = Returned () ?s1"
    using vertex_list_text [of ?all "generate_preamble s" nm] m pre by (simp add: keeper_list_def)
  have s1: "dot_map ?s1 = ?g" by (simp add: pre)
  obtain ks where ks: "distinct ks" "set ks = reachable_from (out_edges ?g) (source_set ?g)"
      "BFS_edges dot_map (dot_func nm) False fuel (source_set ?g) ?s1 =
         run_edges (dot_func nm) (concat (map (out_edges ?g) ks)) ?s1"
    using bfs_calls_each_edge_gen [of dot_map ?s1 "all_set ?g" "source_set ?g" fuel "dot_func nm" False]
      assms(2,4) m dot_keeps_wires unfolding s1 by blast
  have "set ks \<subseteq> all_set ?g"
    unfolding ks(2) using connected_heads [OF assms(2)] m(2) by (intro reachable_from_closed) auto
  then have "\<forall>e \<in> set (concat (map (out_edges ?g) ks)). drawable ?g e"
    using out_edges_drawable [OF assms(2)] by auto
  then have "generate_edge_list nm fuel ?s1 =
      Returned () (print (concat (map (edge_line nm ?g) (concat (map (out_edges ?g) ks)))) ?s1)"
    using run_dot_edges [of ?s1 "concat (map (out_edges ?g) ks)" nm] assms(3) ks(3)
    unfolding s1 generate_edge_list_def by simp
  then have run: "make_dot_run nm fuel s =
      Returned () (generate_close (print (concat (map (edge_line nm ?g) (concat (map (out_edges ?g) ks)))) ?s1))"
    by (simp add: make_dot_run_def v)
  have out: "dot_out (generate_close (print (concat (map (edge_line nm ?g) (concat (map (out_edges ?g) ks)))) ?s1))
      = ''digraph G{'' @ [newline, tab] @ generate_field ''size'' [show_int (dot_height s), show_int (dot_width s)]
        @ '';'' @ [newline] @ (concat (map (\<lambda>k. vertex_text nm k (ident ?g k)) ?all)
        @ concat (map (edge_line nm ?g) (concat (map (out_edges ?g) ks))) @ ''}'' @ [newline])"
    using assms(6) by (simp add: generate_close_def generate_preamble_def)
  have "read_dot (dot_out (generate_close (print (concat (map (edge_line nm ?g) (concat (map (out_edges ?g) ks)))) ?s1)))
      = map (\<lambda>k. Node (ident ?g k)) ?all
        @ map (\<lambda>e. Arrow (ident ?g (fst (fst e))) (ident ?g (head_of e))) (concat (map (out_edges ?g) ks))"
    unfolding out read_preamble by (rule read_texts [OF assms(5)])
  then show ?thesis using run ks(1,2) s1
    by (intro exI [of _ "generate_close (print (concat (map (edge_line nm ?g) (concat (map (out_edges ?g) ks)))) ?s1)"]
        exI [of _ ks]) (simp add: generate_close_def)
qed

text \<open>
  C17: Reading back the file that exe writes for GEN_DOT gives every kernel of the checked map
  once, by its id, and after them one arrow for each edge that leaves a kernel reachable from the
  sources; writing it leaves the map as it was, and the process exits afterwards exactly when
  GEN_DOT_EXIT is 1.
\<close>

theorem dot_lists_the_map:
  assumes "map_ok g" and "checkEdges g = Returned () g" and "owned g" and "card (all_set g) \<le> fuel"
    and "plain_names nm" and "gen_dot env = Some file"
    and "size_env (gen_dot_height env) = Inr h" and "size_env (gen_dot_width env) = Inr w"
    and "\<forall>x. gen_dot_exit env = Some x \<longrightarrow> \<not> isl (stoi x)"
  shows "\<exists>t ks. exe_dot nm env fuel g =
       Returned (Some t, \<exists>x. gen_dot_exit env = Some x \<and> stoi x = Inr 1) g
     \<and> distinct ks \<and> set ks = reachable_from (out_edges g) (source_set g)
     \<and> read_dot t =
         map (\<lambda>k. Node (ident g k)) (keeper_list (all_set g))
         @ map (\<lambda>e. Arrow (ident g (fst (fst e))) (ident g (head_of e))) (concat (map (out_edges g) ks))"
proof -
  let ?s = "\<lparr>dot_map = g, dot_out = [], dot_height = h, dot_width = w\<rparr>"
  have new: "make_dot_new (gen_dot_height env) (gen_dot_width env) g = Inr ?s"
    using assms(7,8) by (simp add: make_dot_new_def)
  obtain t ks where t: "make_dot_run nm fuel ?s = Returned () t" "dot_map t = g" "distinct ks"
      "set ks = reachable_from (out_edges g) (source_set g)"
      "read_dot (dot_out t) = map (\<lambda>k. Node (ident g k)) (keeper_list (all_set g))
         @ map (\<lambda>e. Arrow (ident g (fst (fst e))) (ident g (head_of e))) (concat (map (out_edges g) ks))"
    using make_dot_text [of ?s fuel nm] assms(1,3-5) checked_connected [OF assms(1,2)] by auto
  have "exe_dot nm env fuel g =
      Returned (Some (dot_out t), \<exists>x. gen_dot_exit env = Some x \<and> stoi x = Inr 1) g"
    using assms(6,9) new t(1,2) by (auto simp: exe_dot_def split: option.splits sum.splits)
  then show ?thesis using t(3-5) by blast
qed

definition no_names :: "(nat, nat) dot_names" where
  "no_names = \<lparr>show_name = show_nat, type_name = show_nat, class_name = show_nat\<rparr>"

definition to_file :: dot_env where
  "to_file = \<lparr>gen_dot = Some ''map.dot'', gen_dot_height = Some ''12'', gen_dot_width = None, gen_dot_exit = Some ''1''\<rparr>"

theorem dot_lists_the_map_witness:
  "\<exists>t ks. exe_dot no_names to_file 4 diamond_map = Returned (Some t, True) diamond_map
     \<and> set ks = reachable_from (out_edges diamond_map) {1}
     \<and> read_dot t =
         [Node 0, Node 0, Node 0, Node 0]
         @ map (\<lambda>e. Arrow (ident diamond_map (fst (fst e))) (ident diamond_map (head_of e)))
             (concat (map (out_edges diamond_map) ks))"
proof -
  have sizes: "size_env (gen_dot_height to_file) = Inr 12" "size_env (gen_dot_width to_file) = Inr 10"
    "gen_dot to_file = Some ''map.dot''" "gen_dot_exit to_file = Some ''1''" "stoi ''1'' = Inr 1"
    by code_simp+
  have plain: "plain_names no_names" by (simp add: plain_names_def no_names_def no_newline_nat)
  have all: "card (all_set diamond_map) \<le> 4" "source_set diamond_map = {1}"
    "map (\<lambda>k. Node (ident diamond_map k)) (keeper_list (all_set diamond_map)) = [Node 0, Node 0, Node 0, Node 0]"
    by (simp_all add: diamond_map_def diamond_simps keeper_list_def ident_def get_id_def)
  have exits: "\<forall>x. gen_dot_exit to_file = Some x \<longrightarrow> \<not> isl (stoi x)" using sizes by simp
  show ?thesis
    using dot_lists_the_map [OF diamond_map_ok diamond_map_checked diamond_map_owned all(1) plain sizes(3,1,2) exits]
      sizes all by auto
qed

text \<open>
  Fact: The first number of the size is the height and the second the width.
\<close>

theorem dot_size_height_first:
  "case make_dot_new (Some ''7'') (Some ''20'') diamond_map of
     Inl e \<Rightarrow> False
   | Inr s \<Rightarrow> dot_out (generate_preamble s)
       = ''digraph G{'' @ [newline, tab] @ ''size='' @ [quote] @ ''7, 20'' @ [quote] @ '';'' @ [newline]"
  by (simp add: make_dot_new_def size_env_def) code_simp

end
