(* ===== verification/Exe_Whole.thy ===== *)
theory Exe_Whole
  imports Exe_Run Dot_Props
begin

text \<open>
  raft::map::exe (raftinc/map.hpp) as a whole, with the allocator stdalloc: the map is checked,
  partitioned and drawn, its streams are allocated, and the threads of simple_schedule run until
  start returns.  The theorem at the end joins the graph to what its kernels send and receive.
\<close>

section \<open>Up to the threads\<close>

text \<open>The streams the scheduler's threads see: the FIFOs at their addresses.\<close>

definition exe_streams :: "'a fifo factory \<Rightarrow> u64 \<Rightarrow> ('k, 't, 'a fifo) alloc_state \<Rightarrow> 'a streams" where
  "exe_streams mk align s =
     (\<lambda>i. case fifo_heap s i of Some x \<Rightarrow> x | None \<Rightarrow> mk INITIAL_ALLOC_SIZE align None)"

definition exe_start ::
  "(nat set \<Rightarrow> ('k, 't) map_state \<Rightarrow> (unit, ('k, 't) map_state) outcome) \<Rightarrow>
   ('k, 't) dot_names \<Rightarrow> dot_env \<Rightarrow> 'a fifo factory \<Rightarrow> u64 \<Rightarrow> nat \<Rightarrow>
   (nat \<Rightarrow> 's \<Rightarrow> ('a, 's) action) \<Rightarrow> (nat \<Rightarrow> 's) \<Rightarrow> ('k, 't) map_state \<Rightarrow>
   (('a, 's) node list \<times> 'a streams, ('k, 't) map_state) outcome" where
  "exe_start part nm env mk align fuel code st g =
     bind_outcome (exe_prepare part g) (\<lambda>_ g1.
       bind_outcome (exe_dot nm env fuel g1) (\<lambda>(text, exits) g2.
         if exits then Fault ProcessExit
         else
           (case bind_outcome (stdalloc_run mk align fuel (source_set g2) (Allocate_new g2))
                   (\<lambda>_. waitTillReady) of
              Returned _ s \<Rightarrow>
                (case exe_nodes code st (a_map s) of
                   None \<Rightarrow> Fault NullDereference
                 | Some nds \<Rightarrow> Returned (nds, exe_streams mk align s) (a_map s))
            | Spin s \<Rightarrow> Spin (a_map s)
            | Raised e s \<Rightarrow> Raised e (a_map s)
            | Fault x \<Rightarrow> Fault x)))"

section \<open>What stays as the user built it\<close>

text \<open>The numbers of ports and the scheduling behaviour of every kernel.\<close>

definition shape :: "('k, 't) kernel \<Rightarrow> nat \<times> nat \<times> u8" where
  "shape K = (count_of (kin K), count_of (kout K), sched_behav K)"

definition same_shape :: "('k, 't) map_state \<Rightarrow> ('k, 't) map_state \<Rightarrow> bool" where
  "same_shape g g' \<longleftrightarrow> (\<forall>a. map_option shape (heap g a) = map_option shape (heap g' a))"

lemma same_shape_refl [simp]: "same_shape g g"
  by (simp add: same_shape_def)

lemma same_shape_trans: "same_shape g h \<Longrightarrow> same_shape h i \<Longrightarrow> same_shape g i"
  by (simp add: same_shape_def)

lemma only_cores_shape: "only_cores g g' \<Longrightarrow> same_shape g g'"
  by (auto simp: only_cores_def same_shape_def shape_def [abs_def] setCore_def option.map_comp comp_def)

lemma set_info_shape: "same_shape g (set_info r f g)"
proof (cases r)
  case (fields a d n)
  have "length (smap_update xs n f) = length xs" for xs by (induction xs) auto
  then show ?thesis
    by (cases d) (auto simp: fields same_shape_def shape_def count_of_def set_info.simps split: option.splits)
qed

lemma stdalloc_shape:
  fixes mk :: "'f factory"
  assumes "stdalloc_run mk align fuel S (Allocate_new g) = Returned u s"
  shows "same_shape g (a_map s)"
proof -
  let ?P = "\<lambda>s :: ('a, 'b, 'f) alloc_state. same_shape g (a_map s)"
  have keep: "keeps_on_edges a_map (allocate mk align) ?P"
    unfolding keeps_on_edges_def
  proof (intro allI impI)
    fix r q s u s' pi
    assume P: "?P s" and step: "allocate mk align r q s = Returned u s'"
    then have "a_map s' = set_info q (setFIFO (next_fifo s)) (set_info r (setFIFO (next_fifo s)) (a_map s))"
      by (auto simp: allocate_def initialize_def Let_def split: option.splits)
    then show "?P s'" using same_shape_trans [OF P same_shape_trans [OF set_info_shape set_info_shape]] by simp
  qed
  obtain s1 where s1: "BFS_edges a_map (allocate mk align) False fuel S (Allocate_new g) = Returned () s1"
      "s = setReady s1"
    using assms unfolding stdalloc_run_def
    by (cases "BFS_edges a_map (allocate mk align) False fuel S (Allocate_new g :: ('a, 'b, 'f) alloc_state)") auto
  have "?P s1" by (rule BFS_edges_keeps [OF keep _ s1(1)]) (simp add: Allocate_new_def)
  then show ?thesis using s1(2) by (simp add: setReady_def)
qed

lemma exe_dot_same:
  assumes "exe_dot nm env fuel g = Returned r g'"
  shows "g' = g"
proof -
  let ?P = "\<lambda>s. dot_map s = g"
  have keep: "keeps_on_edges dot_map (dot_func nm) ?P"
    by (auto simp: keeps_on_edges_def dot_func_def split: option.splits)
  have vertex: "dot_map t = dot_map s" if "generate_vertex_list nm ks s = Returned u t" for ks s t u
    using that by (induction ks arbitrary: s) (auto split: option.splits)
  have run: "dot_map t = g" if t: "make_dot_run nm fuel s = Returned u t" and s: "dot_map s = g" for s t u
  proof -
    obtain s1 where s1: "generate_vertex_list nm (keeper_list (all_set g)) (generate_preamble s) = Returned () s1"
      using t s by (cases "generate_vertex_list nm (keeper_list (all_set g)) (generate_preamble s)") (auto simp: make_dot_run_def)
    then have m1: "dot_map s1 = g" using vertex [OF s1] s by (simp add: generate_preamble_def)
    obtain s2 where s2: "generate_edge_list nm fuel s1 = Returned () s2" "t = generate_close s2"
      using t s s1 by (cases "generate_edge_list nm fuel s1") (auto simp: make_dot_run_def)
    have "dot_map s2 = g" using BFS_edges_keeps [OF keep m1] s2(1) unfolding generate_edge_list_def by blast
    then show ?thesis by (simp add: s2(2) generate_close_def)
  qed
  have new: "dot_map s = g" if "make_dot_new h w g = Inr s" for h w s
    using that by (auto simp: make_dot_new_def split: sum.splits)
  show ?thesis
    using assms run new by (auto simp: exe_dot_def split: option.splits sum.splits outcome.splits)
qed

section \<open>The threads of the map\<close>

text \<open>The code of every kernel uses the ports the kernel has.\<close>

definition code_ok :: "(nat \<Rightarrow> 's \<Rightarrow> ('a, 's) action) \<Rightarrow> ('k, 't) map_state \<Rightarrow> bool" where
  "code_ok code g \<longleftrightarrow>
     (\<forall>a \<in> all_set g. \<forall>K. heap g a = Some K \<longrightarrow>
        (sched_behav K = any_port \<or> sched_behav K = all_port)
        \<and> (\<forall>m. action_ok {..<count_of (kin K)} {..<count_of (kout K)} (code a m)))"

lemma bind_ports_ok:
  fixes a :: "('a, 's) action"
  shows "action_ok {..<length is} {..<length os} a \<Longrightarrow> action_ok (set is) (set os) (bind_ports is os a)"
  by (induction a) auto

lemma exe_nodes_at:
  assumes "exe_nodes code st g = Some nds"
  shows "length nds = card (all_set g)"
    and "j < length nds \<Longrightarrow> \<exists>K. heap g (keeper_list (all_set g) ! j) = Some K
      \<and> kernel_node (code (keeper_list (all_set g) ! j)) (st (keeper_list (all_set g) ! j)) K = Some (nds ! j)"
proof -
  note n = those_nth [OF assms [unfolded exe_nodes_def]]
  show "length nds = card (all_set g)" using n(1) by (simp add: keeper_list_def)
  assume "j < length nds"
  with n(1) n(2) [of j] show "\<exists>K. heap g (keeper_list (all_set g) ! j) = Some K
      \<and> kernel_node (code (keeper_list (all_set g) ! j)) (st (keeper_list (all_set g) ! j)) K = Some (nds ! j)"
    by (auto split: option.splits)
qed

lemma exe_nodes_code:
  assumes "exe_nodes code st g' = Some nds" and "same_shape g g'" and "all_set g' = all_set g"
    and "finite (all_set g)" and "code_ok code g" and "j < length nds"
  shows "node_ok (nds ! j)"
    and "\<exists>K. heap g (keeper_list (all_set g) ! j) = Some K \<and> n_behav (nds ! j) = sched_behav K"
proof -
  let ?a = "keeper_list (all_set g) ! j"
  obtain K' where K': "heap g' ?a = Some K'" "kernel_node (code ?a) (st ?a) K' = Some (nds ! j)"
    using exe_nodes_at(2) [OF assms(1,6)] unfolding assms(3) by blast
  have "map_option shape (heap g ?a) = map_option shape (heap g' ?a)"
    using assms(2) unfolding same_shape_def by (rule spec)
  then obtain K where K: "heap g ?a = Some K" "shape K = shape K'"
    using K'(1) by (cases "heap g ?a") auto
  have "j < length (keeper_list (all_set g))"
    using exe_nodes_at(1) [OF assms(1)] assms(3,6) by (simp add: keeper_list_def)
  then have "?a \<in> set (keeper_list (all_set g))" by (rule nth_mem)
  then have "?a \<in> all_set g" using assms(4) by (simp add: keeper_list_def)
  then have code: "sched_behav K = any_port \<or> sched_behav K = all_port"
      "\<forall>m. action_ok {..<count_of (kin K)} {..<count_of (kout K)} (code ?a m)"
    using assms(5) K(1) by (auto simp: code_ok_def)
  obtain ins outs where p: "port_fifos (kin K') = Some ins" "port_fifos (kout K') = Some outs"
      "nds ! j = \<lparr>n_input = ins, n_output = outs, n_behav = sched_behav K',
         n_code = (\<lambda>m. bind_ports ins outs (code ?a m)), n_start = st ?a\<rparr>"
    using K'(2) by (auto simp: kernel_node_def split: option.splits)
  have "length ins = count_of (kin K')"
    using those_nth(1) [OF p(1) [unfolded port_fifos_def]] by (simp add: count_of_def)
  moreover have "length outs = count_of (kout K')"
    using those_nth(1) [OF p(2) [unfolded port_fifos_def]] by (simp add: count_of_def)
  ultimately have "length ins = count_of (kin K)" "length outs = count_of (kout K)"
    using K(2) by (simp_all add: shape_def)
  then show "node_ok (nds ! j)"
    using code K(2) by (auto simp: node_ok_def p(3) shape_def intro!: bind_ports_ok)
  show "\<exists>K. heap g ?a = Some K \<and> n_behav (nds ! j) = sched_behav K"
    using K by (auto simp: p(3) shape_def)
qed

text \<open>New FIFOs are open, empty and have some capacity.\<close>

definition good_factory :: "'a fifo factory \<Rightarrow> bool" where
  "good_factory mk \<longleftrightarrow>
     (\<forall>n align buf. ring_inv (mk n align buf) \<and> elems (mk n align buf) = []
        \<and> \<not> is_invalid (mk n align buf) \<and> 0 < cap (mk n align buf))"

lemma fifo_for_made: "\<exists>n a buf. fifo_for mk align pi = mk n a buf"
  unfolding fifo_for_def by (cases "existing_buffer pi") (simp_all only: option.case, blast+)

lemma made_fifos:
  assumes "stdalloc_run mk align fuel S (Allocate_new g) = Returned u s" and "fifo_heap s i = Some x"
  shows "\<exists>n a buf. x = mk n a buf"
proof -
  let ?P = "\<lambda>s. \<forall>i x. fifo_heap s i = Some x \<longrightarrow> (\<exists>n a buf. x = mk n a buf)"
  have keep: "keeps_on_edges a_map (allocate mk align) ?P"
    using fifo_for_made [of mk align]
    by (auto simp: keeps_on_edges_def allocate_def initialize_def Let_def split: option.splits if_splits)
  obtain s1 where s1: "BFS_edges a_map (allocate mk align) False fuel S (Allocate_new g) = Returned () s1"
      "s = setReady s1"
    using assms(1) unfolding stdalloc_run_def
    by (cases "BFS_edges a_map (allocate mk align) False fuel S (Allocate_new g)") auto
  have "?P s1" by (rule BFS_edges_keeps [OF keep _ s1(1)]) (simp add: Allocate_new_def)
  then show ?thesis using assms(2) s1(2) by (auto simp: setReady_def)
qed

lemma exe_streams_new:
  assumes "stdalloc_run mk align fuel S (Allocate_new g) = Returned u s" and "good_factory mk"
  shows "streams_new (exe_streams mk align s)"
  unfolding streams_new_def
proof
  fix i
  obtain n a buf where "exe_streams mk align s i = mk n a buf"
  proof (cases "fifo_heap s i")
    case None
    then show thesis using that [of INITIAL_ALLOC_SIZE align None] by (simp add: exe_streams_def)
  next
    case (Some x)
    then show thesis using that made_fifos [OF assms(1) Some] by (auto simp: exe_streams_def)
  qed
  then show "ring_inv (exe_streams mk align s i) \<and> elems (exe_streams mk align s i) = []
      \<and> \<not> is_invalid (exe_streams mk align s i) \<and> 0 < cap (exe_streams mk align s i)"
    using assms(2) by (simp add: good_factory_def)
qed

section \<open>From the graph to what is delivered\<close>

lemma exe_start_parts:
  assumes "exe_start part nm env mk align fuel code st g = Returned (nds, f0) g'"
  obtains g1 s where "exe_prepare part g = Returned () g1"
    "stdalloc_run mk align fuel (source_set g1) (Allocate_new g1) = Returned () s"
    "exe_nodes code st (a_map s) = Some nds" "f0 = exe_streams mk align s" "g' = a_map s"
proof -
  obtain g1 where g1: "exe_prepare part g = Returned () g1"
    using assms unfolding exe_start_def by (cases "exe_prepare part g") auto
  obtain t x g2 where g2: "exe_dot nm env fuel g1 = Returned (t, x) g2"
    using assms g1 unfolding exe_start_def by (cases "exe_dot nm env fuel g1") auto
  then have same: "g2 = g1" by (rule exe_dot_same)
  obtain s where s: "stdalloc_run mk align fuel (source_set g1) (Allocate_new g1) = Returned () s"
    using assms g1 g2 same unfolding exe_start_def
    by (cases "stdalloc_run mk align fuel (source_set g1) (Allocate_new g1)") (auto split: if_splits)
  have "exe_nodes code st (a_map s) = Some nds" "f0 = exe_streams mk align s" "g' = a_map s"
    using assms g1 g2 same s unfolding exe_start_def
    by (auto simp: waitTillReady_def split: if_splits option.splits)
  with g1 s show thesis by (rule that)
qed

text \<open>A program with one thread for each kernel of the graph and one stream for each edge.\<close>

definition runs_graph :: "('k, 't) map_state \<Rightarrow> ('a, 's) node list \<Rightarrow> 'a streams \<Rightarrow> bool" where
  "runs_graph g nds f0 \<longleftrightarrow>
     program_ok nds \<and> streams_new f0 \<and> length nds = card (all_set g)
     \<and> (\<forall>j < length nds. \<exists>K. heap g (keeper_list (all_set g) ! j) = Some K \<and> n_behav (nds ! j) = sched_behav K)
     \<and> (\<exists>F. inj_on F (graph_edges g) \<and> (\<forall>j < length nds.
         set (n_output (nds ! j)) = F ` {e \<in> graph_edges g. fst (fst e) = keeper_list (all_set g) ! j} \<and>
         set (n_input (nds ! j)) = F ` {e \<in> graph_edges g. fst (snd e) = keeper_list (all_set g) ! j}))"

context partitioner
begin

lemma started:
  fixes code :: "nat \<Rightarrow> 's \<Rightarrow> ('b, 's) action"
  assumes g: "map_ok g" "sub_maps g = []" "\<forall>r pi. get_info r g = Some pi \<longrightarrow> no_fifo pi"
    and fuel: "card (all_set g) \<le> fuel"
    and reach: "all_set g \<subseteq> reachable_from (out_edges g) (source_set g)"
    and code: "code_ok code g" and mk: "good_factory mk"
    and start: "exe_start part nm env mk align fuel code st g = Returned (nds, f0) g'"
  shows "runs_graph g nds f0"
proof -
  obtain g1 s where s: "exe_prepare part g = Returned () g1"
      "stdalloc_run mk align fuel (source_set g1) (Allocate_new g1) = Returned () s"
      "exe_nodes code st (a_map s) = Some nds" "f0 = exe_streams mk align s"
    using exe_start_parts [OF start] by metis
  obtain d F and nds' :: "('b, 's) node list" where d: "dynalloc_start mk align fuel (source_set g1) (Allocate_new g1) = Returned () d"
      "inj_on F (graph_edges g)" "exe_nodes code st (dyn_map d) = Some nds'" "streams_private nds'"
      "length nds' = card (all_set g)"
      "\<forall>j < length nds'.
         set (n_output (nds' ! j)) = F ` {e \<in> graph_edges g. fst (fst e) = keeper_list (all_set g) ! j} \<and>
         set (n_input (nds' ! j)) = F ` {e \<in> graph_edges g. fst (snd e) = keeper_list (all_set g) ! j}"
    using prepared_nodes [OF g(1,2) s(1) fuel g(3) reach, of mk align code st] by blast
  have "dyn_map d = a_map s" using d(1) s(2) by (auto simp: dynalloc_start_def dyn_map_def)
  then have nds: "nds' = nds" using d(3) s(3) by simp
  have "part (all_set g) g = Returned () g1"
    using s(1) unfolding exe_prepare_def flatten_no_sub_maps [OF g(2)]
    using check_edges_loop_cases [of "keeper_list (all_set g)" g] g(1)
    by (auto simp: checkEdges_def keeper_list_def map_ok_def split: if_splits)
  then have shape: "same_shape g (a_map s)" and all: "all_set (a_map s) = all_set g"
    using same_shape_trans [OF only_cores_shape [OF part_cores] stdalloc_shape [OF s(2)]]
      allocated_map(2) [OF s(2)] prepared_graph(5) [OF g(1,2) s(1)] by simp_all
  have fin: "finite (all_set g)" using g(1) by (simp add: map_ok_def)
  note node = exe_nodes_code [OF s(3) shape all fin code]
  have "\<forall>nd \<in> set nds. node_ok nd" using node(1) by (auto simp: in_set_conv_nth)
  then have "program_ok nds" using d(4) nds by (simp add: program_ok_def)
  moreover have "streams_new f0" unfolding s(4) by (rule exe_streams_new [OF s(2) mk])
  ultimately show ?thesis using d(2,5,6) node(2) unfolding nds runs_graph_def by blast
qed

end


section \<open>A map that runs to its end\<close>

text \<open>Two new kernels, the source of countdown and the sink of adder, and a stream between them.\<close>

definition pipe_map :: "(nat, nat) map_state" where
  "pipe_map = (map_new
     [1 \<mapsto> diamond_kernel 1 [] [diamond_port 1 11 2 21], 2 \<mapsto> diamond_kernel 2 [diamond_port 2 21 1 11] []] 3)
     \<lparr>source_set := {1}, dst_set := {2}, all_set := {1, 2}\<rparr>"

lemmas pipe_simps = pipe_map_def map_new_def diamond_kernel_def diamond_port_def kernel_new_def Port_new_def
  fresh_info_def PortInfo_new_def

lemma pipe_heap:
  "heap pipe_map a = (if a = 1 then Some (diamond_kernel 1 [] [diamond_port 1 11 2 21])
     else if a = 2 then Some (diamond_kernel 2 [diamond_port 2 21 1 11] []) else None)"
  by (simp add: pipe_map_def map_new_def)

lemma pipe_sets:
  "source_set pipe_map = {1}" "dst_set pipe_map = {2}" "all_set pipe_map = {1, 2}" "internal_set pipe_map = {}"
  "sub_maps pipe_map = []"
  by (simp_all add: pipe_map_def map_new_def)

lemma pipe_info:
  "get_info (a, d, n) pipe_map =
     (if a = 1 \<and> d = Out \<and> n = 11 then Some (snd (diamond_port 1 11 2 21))
      else if a = 2 \<and> d = In \<and> n = 21 then Some (snd (diamond_port 2 21 1 11)) else None)"
  by (cases d) (auto simp: get_info.simps pipe_heap diamond_kernel_def kernel_new_def Port_new_def diamond_port_def)

lemma pipe_ok: "map_ok pipe_map"
proof -
  have "heap_sorted pipe_map"
    by (auto simp: heap_sorted_def pipe_heap smap_ok_def diamond_kernel_def kernel_new_def Port_new_def split: if_splits)
  moreover have "named pipe_map"
    by (auto simp: named_def pipe_info diamond_port_def fresh_info_def PortInfo_new_def split: if_splits)
  moreover have "wired pipe_map"
    by (auto simp: wired_def peer_ok_def pipe_info pipe_sets diamond_port_def fresh_info_def PortInfo_new_def split: if_splits)
  ultimately show ?thesis by (auto simp: map_ok_def pipe_sets pipe_heap)
qed

lemma pipe_new: "\<forall>r pi. get_info r pipe_map = Some pi \<longrightarrow> no_fifo pi"
  by (auto simp: pipe_info no_fifo_def diamond_port_def fresh_info_def PortInfo_new_def split: if_splits)

lemma pipe_checked: "checkEdges pipe_map = Returned () pipe_map"
proof -
  have k: "set (keeper_list (all_set pipe_map)) = {1, 2}" by (simp add: keeper_list_def pipe_sets)
  have "{1, 2} \<subseteq> dom (heap pipe_map)" by (auto simp: pipe_heap)
  moreover have "heap_sorted pipe_map" using pipe_ok by (simp add: map_ok_def)
  moreover have "\<forall>a \<in> {1, 2}. \<forall>d n pi. get_info (a, d, n) pipe_map = Some pi \<longrightarrow> other_kernel pi \<noteq> None"
    by (auto simp: pipe_info diamond_port_def split: if_splits)
  ultimately show ?thesis unfolding checkEdges_def by (simp only: k check_edges_loop_cases if_P)
qed

lemma pipe_edges: "out_edges pipe_map 1 = [((1, Out, 11), (2, In, 21))]" "out_edges pipe_map 2 = []"
  by (simp_all add: out_edges_def pipe_heap diamond_kernel_def diamond_port_def kernel_new_def Port_new_def)

lemma pipe_reachable: "all_set pipe_map \<subseteq> reachable_from (out_edges pipe_map) (source_set pipe_map)"
proof -
  have "(1, 2) \<in> succs (out_edges pipe_map)"
    using pipe_edges(1) by (auto simp: succs_def head_of_def)
  then have "(1, k) \<in> (succs (out_edges pipe_map))\<^sup>*" if "k \<in> {1, 2}" for k using that by auto
  then show ?thesis by (auto simp: reachable_from_def pipe_sets)
qed

definition pipe_code :: "nat \<Rightarrow> nat \<Rightarrow> (nat, nat) action" where
  "pipe_code a m =
     (if a = 1 then (if m = 0 then Return stop 0 else Push 0 (m, sig_none) (Return proceed (m - 1)))
      else Pop 0 (\<lambda>e. Return proceed (m + fst e)))"

definition pipe_start :: "nat \<Rightarrow> nat" where
  "pipe_start a = (if a = 1 then 9 else 0)"

definition silent :: dot_env where
  "silent = \<lparr>gen_dot = None, gen_dot_height = None, gen_dot_width = None, gen_dot_exit = None\<rparr>"

definition small_fifos :: "nat fifo factory" where
  "small_fifos n align buf = fresh 16"

lemma small_fifos_good: "good_factory small_fifos"
  using fresh_ok(2,3,4,6) [of 16] by (simp add: good_factory_def small_fifos_def)

lemma pipe_code_ok: "code_ok pipe_code pipe_map"
  by (auto simp: code_ok_def pipe_sets pipe_heap pipe_code_def diamond_kernel_def kernel_new_def Port_new_def
      count_of_def any_port_def)

text \<open>The nodes of the two kernels, and what the allocator makes of the map.\<close>

definition pipe_nodes :: "(nat \<Rightarrow> 's \<Rightarrow> (nat, 's) action) \<Rightarrow> (nat \<Rightarrow> 's) \<Rightarrow> (nat, 's) node list" where
  "pipe_nodes code st =
     [\<lparr>n_input = [], n_output = [0], n_behav = any_port, n_code = (\<lambda>m. bind_ports [] [0] (code 1 m)), n_start = st 1\<rparr>,
      \<lparr>n_input = [0], n_output = [], n_behav = any_port, n_code = (\<lambda>m. bind_ports [0] [] (code 2 m)), n_start = st 2\<rparr>]"

lemma pipe_allocates:
  "\<exists>s. stdalloc_run small_fifos 64 2 {1} (Allocate_new pipe_map) = Returned () s
     \<and> exe_nodes code st (a_map s) = Some (pipe_nodes code st)
     \<and> exe_streams small_fifos 64 s = count_streams \<and> alloc_ready s"
  by (simp add: stdalloc_run_def BFS_edges_def keeper_list_def numeral_2_eq_2 bfs_edge_def Allocate_new_def pipe_simps
      allocate_def initialize_def Let_def get_info.simps set_info.simps getPortInfoFor_def getFIFO_def setFIFO_def
      setReady_def exe_nodes_def kernel_node_def port_fifos_def iterate_fifo_def pipe_nodes_def
      fun_eq_iff any_port_def exe_streams_def small_fifos_def fifo_for_def
      split: option.split)

lemma pipe_count: "pipe_nodes pipe_code pipe_start = count_program"
  by (simp add: pipe_nodes_def count_program_def countdown_def adder_def pipe_code_def pipe_start_def fun_eq_iff)

lemma pipe_prepares: "exe_prepare partition_dummy pipe_map = Returned () pipe_map"
  unfolding exe_prepare_def flatten_no_sub_maps [OF pipe_sets(5)] pipe_checked by (simp add: partition_dummy_def)

lemma pipe_starts:
  "\<exists>g'. exe_start partition_dummy no_names silent small_fifos 64 2 code st pipe_map =
     Returned (pipe_nodes code st, count_streams) g'"
  using pipe_allocates [of code st]
  by (auto simp: exe_start_def pipe_prepares exe_dot_def silent_def pipe_sets waitTillReady_def)




end
