(* ===== verification/Library_Kernels.thy ===== *)
theory Library_Kernels
  imports Execution Ports
begin

text \<open>
  Kernels of the library: the file reader (raftinc/fileio.tcc), chunks of a file and iterators
  over them (raftinc/filechunk.tcc, raftinc/chunkiterator.tcc), the string search
  (raftinc/search.tcc), for_each, read_each and print.  Bytes are a type variable.
\<close>

section \<open>Chunks and the file reader\<close>

record 'b chunk =
  c_buffer :: "'b list"
  c_start :: u64
  c_index :: nat

text \<open>The stream fp of an open file is its contents and a position.\<close>

record 'b reader =
  r_file :: "'b list"
  r_pos :: nat
  r_chunk_size :: u64
  r_chunk_offset :: u64
  r_iterations :: int
  r_init :: bool
  r_chunk_index :: nat

definition ceil_div :: "nat \<Rightarrow> nat \<Rightarrow> nat" where
  "ceil_div a b = (a + b - 1) div b"

text \<open>
  The number of iterations: a quotient of floats, rounded up, exact for a file of less than
  2^24 bytes.  A quotient by zero has no integer value.
\<close>

definition filereader_new :: "u64 \<Rightarrow> u64 \<Rightarrow> 'b list \<Rightarrow> fault + 'b reader" where
  "filereader_new chunk_size chunk_offset file =
     (let d = (if chunk_offset \<noteq> 0 then (chunk_size - 1) - (chunk_offset - 1) else chunk_size - 1)
      in if d = 0 then Inl DivisionByZero
         else Inr \<lparr>r_file = file, r_pos = 0, r_chunk_size = chunk_size, r_chunk_offset = chunk_offset,
                   r_iterations = int (ceil_div (length file) (unat d)), r_init = False, r_chunk_index = 0\<rparr>)"

text \<open>fseek fails, and leaves the position, when it would lie before the file.\<close>

definition seek_back :: "nat \<Rightarrow> nat \<Rightarrow> nat" where
  "seek_back n pos = (if n \<le> pos then pos - n else pos)"

definition read_chunk :: "'b reader \<Rightarrow> 'b chunk \<times> 'b reader" where
  "read_chunk r =
     (let p = (if r_init r then seek_back (unat (r_chunk_offset r)) (r_pos r) else r_pos r);
          bytes = take (unat (r_chunk_size r - 1)) (drop p (r_file r))
      in (\<lparr>c_buffer = bytes, c_start = of_nat p, c_index = r_chunk_index r\<rparr>,
          r\<lparr>r_pos := p + length bytes, r_init := True, r_chunk_index := r_chunk_index r + 1\<rparr>))"

text \<open>The difference of a signed and an unsigned number is unsigned, and zero only when they agree.\<close>

definition reader_signal :: "int \<Rightarrow> nat \<Rightarrow> signal" where
  "reader_signal iterations ports =
     (if (of_int iterations - of_nat ports :: u64) > 0 then sig_none else sig_eof)"

text \<open>run: spaces says of each port whether it has space.\<close>

fun reader_ports ::
  "nat \<Rightarrow> nat \<Rightarrow> bool list \<Rightarrow> 'b reader \<Rightarrow> (nat \<times> 'b chunk \<times> signal) list \<times> kstatus \<times> 'b reader" where
  "reader_ports ports p [] r = ([], proceed, r)"
| "reader_ports ports p (space # spaces) r =
     (if space
      then
        (let (c, r1) = read_chunk r;
             sent = (p, c, reader_signal (r_iterations r) ports);
             r2 = r1\<lparr>r_iterations := r_iterations r - 1\<rparr>
         in if r_iterations r2 < 0 then ([sent], stop, r2)
            else (case reader_ports ports (p + 1) spaces r2 of (out, st, r3) \<Rightarrow> (sent # out, st, r3)))
      else reader_ports ports (p + 1) spaces r)"

definition reader_run :: "bool list \<Rightarrow> 'b reader \<Rightarrow> (nat \<times> 'b chunk \<times> signal) list \<times> kstatus \<times> 'b reader" where
  "reader_run spaces r = reader_ports (length spaces) 0 spaces r"

text \<open>The runs of the kernel until it returns stop; each finds its own ports with space.\<close>

fun reader_runs :: "bool list list \<Rightarrow> 'b reader \<Rightarrow> (nat \<times> 'b chunk \<times> signal) list \<times> kstatus \<times> 'b reader" where
  "reader_runs [] r = ([], proceed, r)"
| "reader_runs (spaces # rest) r =
     (case reader_run spaces r of
        (out, st, r1) \<Rightarrow>
          if st = stop then (out, stop, r1)
          else (case reader_runs rest r1 of (out1, st1, r2) \<Rightarrow> (out @ out1, st1, r2)))"

section \<open>Search\<close>

text \<open>std::search from an index: the first match, or the end.\<close>

definition match_at :: "'b list \<Rightarrow> 'b list \<Rightarrow> nat \<Rightarrow> bool" where
  "match_at pat buf i \<longleftrightarrow> i + length pat \<le> length buf \<and> take (length pat) (drop i buf) = pat"

definition std_search :: "'b list \<Rightarrow> 'b list \<Rightarrow> nat \<Rightarrow> nat" where
  "std_search pat buf i =
     (case find (match_at pat buf) [i..<length buf] of Some j \<Rightarrow> j | None \<Rightarrow> length buf)"

text \<open>chunk_iterator::location\<close>

definition location :: "'b chunk \<Rightarrow> nat \<Rightarrow> u64" where
  "location c i = of_nat i + c_start c"

lemma std_search_ge: "i \<le> length buf \<Longrightarrow> i \<le> std_search pat buf i"
  by (auto simp: std_search_def find_Some_iff split: option.splits)

function search_loop :: "'b list \<Rightarrow> 'b chunk \<Rightarrow> nat \<Rightarrow> (u64 \<times> u64) list" where
  "search_loop pat c i =
     (if length (c_buffer c) \<le> i then []
      else
        (let j = std_search pat (c_buffer c) i
         in if j < length (c_buffer c)
            then
              (let loc = location c j + c_start c
               in (loc, loc + of_nat (length pat)) # search_loop pat c (j + 1))
            else []))"
  by pat_completeness auto
termination
  by (relation "measure (\<lambda>(pat, c, i). length (c_buffer c) - i)")
    (auto simp: less_Suc_eq_le std_search_ge intro!: diff_less_mono2)

declare search_loop.simps [simp del]

text \<open>run: what it pushes for the chunk at the front of its input.\<close>

definition search_run :: "'b list \<Rightarrow> 'b chunk \<Rightarrow> (u64 \<times> u64) list" where
  "search_run pat c = search_loop pat c 0"

section \<open>Kernels that move values\<close>

text \<open>for_each: its output ports lie in the user's array; run only says stop.\<close>

definition for_each_new ::
  "'k :: linorder \<Rightarrow> 't \<Rightarrow> u64 \<Rightarrow> (u64 \<Rightarrow> 'k) \<Rightarrow> nat \<Rightarrow> u64 \<Rightarrow> u64 \<Rightarrow> u64 \<Rightarrow> nat \<Rightarrow>
   (bool, ('k, 't) Port) outcome" where
  "for_each_new null_key t sizeof_T name this ptr items nports ids =
     addInPlacePorts null_key t sizeof_T name nports
       (kout (fst (kernel_new_existing this ptr (items * sizeof_T) ids)))"

text \<open>read_each sends the range between its iterators and stops; its member is what is left of it.\<close>

fun push_list :: "'a list \<Rightarrow> ('a, 's) action \<Rightarrow> ('a, 's) action" where
  "push_list [] k = k"
| "push_list (x # xs) k = Push 0 (x, sig_none) (push_list xs k)"

definition read_each_run :: "'a list \<Rightarrow> ('a, 'a list) action" where
  "read_each_run left = push_list left (Return stop [])"

text \<open>
  print with one input port, as it is made by default: it runs only when the port has data, and
  nobody else reads the port, so its test of the size succeeds.  Its member is what was printed.
\<close>

definition print_run :: "'a list \<Rightarrow> ('a, 'a list) action" where
  "print_run printed = Pop 0 (\<lambda>e. Return proceed (printed @ [fst e]))"

end
