(* ===== verification/Library_Props.thy ===== *)
theory Library_Props
  imports Library_Kernels
begin

text \<open>
  Theorems of the library's kernels: the chunks of the file reader are the file, the search
  reports every match, and where the two count wrongly.
\<close>

section \<open>The file reader without overlap\<close>

abbreviation bytes_of :: "(nat \<times> 'b chunk \<times> signal) list \<Rightarrow> 'b list" where
  "bytes_of out \<equiv> concat (map (\<lambda>(p, c, sg). c_buffer c) out)"

text \<open>From one reader to another by reading chunk after chunk.\<close>

definition plain_reads :: "'b reader \<Rightarrow> (nat \<times> 'b chunk \<times> signal) list \<Rightarrow> 'b reader \<Rightarrow> bool" where
  "plain_reads r out r' \<longleftrightarrow>
     r_file r' = r_file r \<and> r_chunk_size r' = r_chunk_size r \<and> r_chunk_offset r' = 0
     \<and> r_iterations r' = r_iterations r - int (length out)
     \<and> r_pos r' = min (length (r_file r)) (r_pos r + length out * unat (r_chunk_size r - 1))
     \<and> take (r_pos r) (r_file r) @ bytes_of out = take (r_pos r') (r_file r)"

definition at_start :: "'b reader \<Rightarrow> bool" where
  "at_start r \<longleftrightarrow> r_chunk_offset r = 0 \<and> r_pos r \<le> length (r_file r)"

lemma plain_reads_none: "at_start r \<Longrightarrow> plain_reads r [] r"
  by (simp add: plain_reads_def at_start_def)

lemma plain_reads_start: "plain_reads r out r' \<Longrightarrow> at_start r'"
  by (simp add: plain_reads_def at_start_def)

lemma plain_reads_append:
  assumes "plain_reads r out r1" and "plain_reads r1 out1 r2"
  shows "plain_reads r (out @ out1) r2"
  using assms by (auto simp: plain_reads_def algebra_simps simp flip: append_assoc)

lemma plain_reads_chunk:
  assumes "at_start r" and "read_chunk r = (c, r1)"
  shows "plain_reads r [(p, c, sg)] (r1\<lparr>r_iterations := r_iterations r - 1\<rparr>)"
proof -
  let ?w = "unat (r_chunk_size r - 1)" and ?p = "r_pos r" and ?f = "r_file r"
  have p: "(if r_init r then seek_back (unat (r_chunk_offset r)) ?p else ?p) = ?p"
    using assms(1) by (simp add: seek_back_def at_start_def)
  have c: "c_buffer c = take ?w (drop ?p ?f)" "r1 = r\<lparr>r_pos := ?p + length (take ?w (drop ?p ?f)),
      r_init := True, r_chunk_index := r_chunk_index r + 1\<rparr>"
    using assms(2) unfolding read_chunk_def Let_def p by auto
  have len: "?p + length (take ?w (drop ?p ?f)) = min (length ?f) (?p + ?w)"
    using assms(1) by (auto simp: at_start_def)
  have "take ?p ?f @ take ?w (drop ?p ?f) = take (min (length ?f) (?p + ?w)) ?f"
    by (simp add: take_add min_def)
  then show ?thesis using assms(1) len by (simp add: plain_reads_def c at_start_def)
qed

lemma reader_ports_reads:
  assumes "reader_ports ports p spaces r = (out, st, r')" and "at_start r" and "0 \<le> r_iterations r"
  shows "plain_reads r out r' \<and> (if st = stop then r_iterations r' = - 1 else 0 \<le> r_iterations r')"
  using assms
proof (induction spaces arbitrary: p r out st r')
  case Nil
  then show ?case by (auto simp: plain_reads_none)
next
  case (Cons space spaces)
  show ?case
  proof (cases space)
    case False
    then show ?thesis using Cons by simp
  next
    case True
    obtain c r1 where c: "read_chunk r = (c, r1)" by (cases "read_chunk r")
    let ?sent = "(p, c, reader_signal (r_iterations r) ports)"
    let ?r2 = "r1\<lparr>r_iterations := r_iterations r - 1\<rparr>"
    have step: "plain_reads r [?sent] ?r2" by (rule plain_reads_chunk [OF Cons.prems(2) c])
    show ?thesis
    proof (cases "r_iterations r - 1 < 0")
      case True
      then show ?thesis using Cons.prems \<open>space\<close> c step by (auto simp: Let_def)
    next
      case False
      obtain out1 st1 r3 where rest: "reader_ports ports (p + 1) spaces ?r2 = (out1, st1, r3)"
        by (cases "reader_ports ports (p + 1) spaces ?r2") auto
      then have "out = ?sent # out1" "st = st1" "r' = r3"
        using Cons.prems(1) \<open>space\<close> c False by (auto simp: Let_def)
      moreover have "plain_reads ?r2 out1 r3 \<and> (if st1 = stop then r_iterations r3 = - 1 else 0 \<le> r_iterations r3)"
        using Cons.IH [OF rest plain_reads_start [OF step]] False by simp
      ultimately show ?thesis using plain_reads_append [OF step, of out1 r3] by simp
    qed
  qed
qed

lemma reader_runs_reads:
  assumes "reader_runs sched r = (out, st, r')" and "at_start r" and "0 \<le> r_iterations r"
  shows "plain_reads r out r' \<and> (if st = stop then r_iterations r' = - 1 else 0 \<le> r_iterations r')"
  using assms
proof (induction sched arbitrary: r out st r')
  case Nil
  then show ?case by (auto simp: plain_reads_none)
next
  case (Cons spaces rest)
  obtain out1 st1 r1 where one: "reader_run spaces r = (out1, st1, r1)" by (cases "reader_run spaces r") auto
  then have 1: "plain_reads r out1 r1 \<and> (if st1 = stop then r_iterations r1 = - 1 else 0 \<le> r_iterations r1)"
    using reader_ports_reads Cons.prems(2,3) unfolding reader_run_def by blast
  show ?case
  proof (cases "st1 = stop")
    case True
    then show ?thesis using Cons.prems(1) one 1 by auto
  next
    case False
    obtain out2 st2 r2 where two: "reader_runs rest r1 = (out2, st2, r2)" by (cases "reader_runs rest r1") auto
    then have "out = out1 @ out2" "st = st2" "r' = r2" using Cons.prems(1) one False by auto
    then show ?thesis
      using Cons.IH [OF two plain_reads_start] 1 False plain_reads_append [of r out1 r1 out2 r2] by auto
  qed
qed

lemma ceil_div_covers: "0 < d \<Longrightarrow> n \<le> ceil_div n d * d"
proof -
  assume d: "0 < d"
  have "n + d - 1 = ceil_div n d * d + (n + d - 1) mod d"
    unfolding ceil_div_def by (rule div_mult_mod_eq [symmetric])
  moreover have "(n + d - 1) mod d < d" using d by simp
  ultimately show ?thesis using d by linarith
qed



text \<open>
  Fact: With one output port the last chunk of the file carries the signal eof, and the chunk after
  it, which is empty, the signal none: the difference tested is unsigned, so only zero counts.
\<close>

definition reader_signals :: "u64 \<Rightarrow> u64 \<Rightarrow> nat list \<Rightarrow> nat \<Rightarrow> (nat list \<times> signal) list" where
  "reader_signals chunk_size chunk_offset file runs =
     (case filereader_new chunk_size chunk_offset file of
        Inl e \<Rightarrow> []
      | Inr r \<Rightarrow> map (\<lambda>(p, c, sg). (c_buffer c, sg)) (fst (reader_runs (replicate runs [True]) r)))"

theorem reader_signals_after_eof:
  "reader_signals 6 0 [1, 2, 3, 4, 5, 6, 7, 8] 5
     = [([1, 2, 3, 4, 5], sig_none), ([6, 7, 8], sig_eof), ([], sig_none)]"
  by code_simp

text \<open>
  Fact: With an overlap the reader divides by one byte too many: of a file of 100 bytes, chunks of
  seven bytes that overlap by two reach byte 92, and the reader stops.
\<close>

theorem reader_with_overlap_loses_tail:
  "case filereader_new 8 2 (replicate 100 (0 :: nat)) of
     Inl e \<Rightarrow> False
   | Inr r \<Rightarrow> (case reader_runs (replicate 40 [True]) r of (out, st, r') \<Rightarrow> st = stop \<and> r_pos r' = 92)"
  by code_simp

section \<open>Search\<close>

lemma find_upt:
  "find P [i..<n] = Some j \<Longrightarrow> filter P [i..<n] = j # filter P [Suc j..<n]"
  "find P [i..<n] = None \<Longrightarrow> filter P [i..<n] = []"
proof -
  assume f: "find P [i..<n] = Some j"
  then obtain k where k: "k < n - i" "P (i + k)" "j = i + k" "\<forall>m < k. \<not> P (i + m)"
    by (auto simp: find_Some_iff)
  have "[i..<j + (n - j)] = [i..<j] @ [j..<j + (n - j)]" using k(3) by (intro upt_add_eq_append) simp
  moreover have "j + (n - j) = n" "[j..<n] = j # [Suc j..<n]" using k(1,3) by (simp_all add: upt_conv_Cons)
  ultimately have "[i..<n] = [i..<j] @ j # [Suc j..<n]" by simp
  moreover have "filter P [i..<j] = []"
    unfolding filter_empty_conv
  proof
    fix x assume "x \<in> set [i..<j]"
    then have "x = i + (x - i)" "x - i < k" using k(3) by auto
    then show "\<not> P x" using k(4) by metis
  qed
  ultimately show "filter P [i..<n] = j # filter P [Suc j..<n]" using k(2,3) by simp
next
  assume "find P [i..<n] = None"
  then show "filter P [i..<n] = []" by (simp add: find_None_iff filter_empty_conv)
qed

text \<open>
  C33: search reports every place of its chunk where the term occurs, overlapping ones included, in
  ascending order and no other; but the positions it reports have the start of the chunk in the file
  added twice.
\<close>

theorem search_finds_all:
  "search_run pat c =
     map (\<lambda>j. (of_nat j + 2 * c_start c, of_nat j + 2 * c_start c + of_nat (length pat)))
       (filter (match_at pat (c_buffer c)) [0..<length (c_buffer c)])"
proof -
  have "search_loop pat c i =
     map (\<lambda>j. (of_nat j + 2 * c_start c, of_nat j + 2 * c_start c + of_nat (length pat)))
       (filter (match_at pat (c_buffer c)) [i..<length (c_buffer c)])" for i
  proof (induction pat c i rule: search_loop.induct)
    case (1 pat c i)
    let ?n = "length (c_buffer c)"
    show ?case
    proof (cases "find (match_at pat (c_buffer c)) [i..<?n]")
      case None
      then show ?thesis
        using find_upt(2) [OF None] by (subst search_loop.simps) (simp add: std_search_def)
    next
      case (Some j)
      then have j: "j < ?n" "i < ?n" by (auto simp: find_Some_iff)
      have s: "std_search pat (c_buffer c) i = j" using Some by (simp add: std_search_def)
      show ?thesis
        using 1 [OF _ s [symmetric]] j find_upt(1) [OF Some]
        by (subst search_loop.simps) (simp add: s Let_def location_def algebra_simps)
    qed
  qed
  then show ?thesis by (simp add: search_run_def)
qed

text \<open>
  Fact: for_each with its default number of ports, zero, divides the number of items by zero.
\<close>

theorem for_each_default_faults:
  "for_each_new null_key t sizeof_T name this ptr items 0 ids = Fault DivisionByZero"
  by (simp add: for_each_new_def addInPlacePorts_def)

end
