(* ===== verification/Library_Pipeline.thy ===== *)
theory Library_Pipeline
  imports Exe_Whole Library_Props
begin

text \<open>
  A whole application on the library: a map of read_each >> print, checked, partitioned, allocated
  and run by exe, prints exactly the values it was given, in order.
\<close>

section \<open>The two kernels\<close>

definition list_code :: "nat \<Rightarrow> nat list \<Rightarrow> (nat, nat list) action" where
  "list_code a m = (if a = 1 then read_each_run m else print_run m)"

definition list_start :: "nat list \<Rightarrow> nat \<Rightarrow> nat list" where
  "list_start xs a = (if a = 1 then xs else [])"

abbreviation list_nodes :: "nat list \<Rightarrow> (nat, nat list) node list" where
  "list_nodes xs \<equiv> pipe_nodes list_code (list_start xs)"

lemma bind_push_list: "bind_ports ins [0] (push_list xs k) = push_list xs (bind_ports ins [0] k)"
  by (induction xs) simp_all

lemma list_node_fields:
  "length (list_nodes xs) = 2"
  "n_code (list_nodes xs ! 0) m = push_list m (Return stop [])" "n_start (list_nodes xs ! 0) = xs"
  "n_code (list_nodes xs ! 1) m = Pop 0 (\<lambda>e. Return proceed (m @ [fst e]))" "n_start (list_nodes xs ! 1) = []"
  "n_input (list_nodes xs ! 0) = []" "n_output (list_nodes xs ! 1) = []" "n_input (list_nodes xs ! 1) = [0]"
  "n_behav (list_nodes xs ! 1) = any_port"
  by (simp_all add: pipe_nodes_def list_code_def list_start_def read_each_run_def print_run_def bind_push_list)

section \<open>What each thread has done\<close>

text \<open>The source has sent a prefix of the list, all of it once its run said stop.\<close>

definition source_inv :: "nat list \<Rightarrow> (nat \<times> signal) list \<Rightarrow> (nat, nat list) kthread \<Rightarrow> bool" where
  "source_inv xs snt t \<longleftrightarrow>
     (case th_phase t of
        In_run a \<Rightarrow> \<exists>rest. xs = map fst snt @ rest \<and> a = push_list rest (Return stop [])
      | Aborted x \<Rightarrow> \<exists>rest. xs = map fst snt @ rest
      | _ \<Rightarrow> th_local t = xs \<and> snt = [] \<or> th_local t = [] \<and> map fst snt = xs)
     \<and> (stopped t \<longrightarrow> map fst snt = xs)"

text \<open>The sink has printed what it got.\<close>

definition sink_inv :: "(nat \<times> signal) list \<Rightarrow> (nat, nat list) kthread \<Rightarrow> bool" where
  "sink_inv gt t \<longleftrightarrow>
     \<not> stopped t \<and>
     (case th_phase t of
        In_run a \<Rightarrow> a = Pop 0 (\<lambda>e. Return proceed (map fst gt @ [fst e])) \<or> a = Return proceed (map fst gt)
      | Aborted x \<Rightarrow> True
      | _ \<Rightarrow> th_local t = map fst gt)"

text \<open>A step that leaves the code of a run alone, or enters it.\<close>

lemma after_call_cases:
  assumes "after_call m k t w = (t', w')"
  obtains r f where "m = Returned r f" "k r (w\<lparr>fifos := f\<rparr>) = (t', w')"
    | "t' = t" "sent w' = sent w" "got w' = got w"
    | x where "t' = goto (Aborted x) t" "sent w' = sent w" "got w' = got w" "\<And>r f. m \<noteq> Returned r f"
  using assms by (cases m) auto

lemma goto_fields [simp]:
  "th_phase (goto p t) = p" "th_local (goto p t) = th_local t" "stopped (goto p t) = stopped t"
  "th_phase (set_finished t) = th_phase t" "th_local (set_finished t) = th_local t" "stopped (set_finished t) = stopped t"
  by (simp_all add: goto_def set_finished_def)

lemma close_port_fields [simp]: "sent (close_port i w) = sent w" "got (close_port i w) = got w"
  by (simp_all add: close_port_def)

lemma source_step:
  assumes "source_inv xs (sent w 0) t"
    and "thread_step kinds (list_nodes xs ! 0) t w = (t', w')"
  shows "source_inv xs (sent w' 0) t' \<and> got w' = got w \<and> (\<forall>i. i \<noteq> 0 \<longrightarrow> sent w' i = sent w i)"
proof (cases "th_phase t")
  case (In_run a)
  then obtain rest where rest: "xs = map fst (sent w 0) @ rest" "a = push_list rest (Return stop [])"
    using assms(1) by (auto simp: source_inv_def)
  show ?thesis
  proof (cases rest)
    case Nil
    then show ?thesis
      using assms rest In_run by (auto simp: thread_step_def source_inv_def Let_def goto_def)
  next
    case (Cons x r)
    have step: "after_call (at_port 0 (push_elem (x, sig_none)) (fifos w))
        (\<lambda>_ w1. (goto (In_run (push_list r (Return stop []))) t,
           w1\<lparr>sent := (sent w1)(0 := sent w1 0 @ [(x, sig_none)])\<rparr>)) t w = (t', w')"
      using assms(2) In_run rest(2) Cons by (simp add: thread_step_def)
    then show ?thesis
    proof (cases rule: after_call_cases)
      case (1 u f)
      then show ?thesis using assms(1) rest Cons by (auto simp: source_inv_def)
    qed (use assms(1) In_run rest Cons in \<open>auto simp: source_inv_def\<close>)
  qed
next
  case Has_data
  from assms(2) have "after_call (kernelHasInputData (as_kernel kinds (list_nodes xs ! 0) (th_local t)) (fifos w))
      (\<lambda>has w1. (goto (if has then In_run (push_list (th_local t) (Return stop [])) else Ports_valid False) t, w1)) t w = (t', w')"
    unfolding thread_step_def Let_def Has_data phase.case list_node_fields .
  then show ?thesis
    by (cases rule: after_call_cases) (use assms(1) Has_data in \<open>auto simp: source_inv_def split: if_splits\<close>)
next
  case (Data_again rc)
  from assms(2) have "after_call (kernelHasInputData (as_kernel kinds (list_nodes xs ! 0) (th_local t)) (fifos w))
      (\<lambda>has w1. (goto (if has then Pass_done rc else Close_drained rc (n_output (list_nodes xs ! 0))) t, w1)) t w = (t', w')"
    unfolding thread_step_def Let_def Data_again phase.case .
  then show ?thesis
    by (cases rule: after_call_cases) (use assms(1) Data_again in \<open>auto simp: source_inv_def split: if_splits\<close>)
next
  case (Close_stop ps)
  then show ?thesis using assms by (cases ps) (auto simp: thread_step_def source_inv_def)
next
  case (Close_drained rc ps)
  then show ?thesis using assms by (cases ps) (auto simp: thread_step_def source_inv_def)
qed (use assms in \<open>auto simp: thread_step_def source_inv_def split: if_splits\<close>)

lemma sink_step:
  assumes "sink_inv (got w 0) t" and "thread_step kinds (list_nodes xs ! 1) t w = (t', w')"
  shows "sink_inv (got w' 0) t' \<and> sent w' = sent w"
proof (cases "th_phase t")
  case (In_run a)
  then consider (pop) "a = Pop 0 (\<lambda>e. Return proceed (map fst (got w 0) @ [fst e]))"
    | (ret) "a = Return proceed (map fst (got w 0))"
    using assms(1) by (auto simp: sink_inv_def)
  then show ?thesis
  proof cases
    case ret
    then show ?thesis
      using assms In_run by (auto simp: thread_step_def sink_inv_def Let_def goto_def)
  next
    case pop
    have step: "after_call (at_port 0 (pop_elem (kinds 0)) (fifos w))
        (\<lambda>e w1. (goto (In_run (Return proceed (map fst (got w 0) @ [fst e]))) t,
           w1\<lparr>got := (got w1)(0 := got w1 0 @ [e])\<rparr>)) t w = (t', w')"
      using assms(2) In_run pop by (simp add: thread_step_def)
    then show ?thesis
    proof (cases rule: after_call_cases)
      case (1 e f)
      then show ?thesis using assms(1) by (auto simp: sink_inv_def)
    qed (use assms(1) In_run pop in \<open>auto simp: sink_inv_def\<close>)
  qed
next
  case Has_data
  from assms(2) have "after_call (kernelHasInputData (as_kernel kinds (list_nodes xs ! 1) (th_local t)) (fifos w))
      (\<lambda>has w1. (goto (if has then In_run (Pop 0 (\<lambda>e. Return proceed (th_local t @ [fst e]))) else Ports_valid False) t, w1)) t w = (t', w')"
    unfolding thread_step_def Let_def Has_data phase.case list_node_fields .
  then show ?thesis
    by (cases rule: after_call_cases) (use assms(1) Has_data in \<open>auto simp: sink_inv_def split: if_splits\<close>)
next
  case (Data_again rc)
  from assms(2) have "after_call (kernelHasInputData (as_kernel kinds (list_nodes xs ! 1) (th_local t)) (fifos w))
      (\<lambda>has w1. (goto (if has then Pass_done rc else Close_drained rc (n_output (list_nodes xs ! 1))) t, w1)) t w = (t', w')"
    unfolding thread_step_def Let_def Data_again phase.case .
  then show ?thesis
    by (cases rule: after_call_cases) (use assms(1) Data_again in \<open>auto simp: sink_inv_def split: if_splits\<close>)
next
  case (Close_stop ps)
  then show ?thesis using assms by (cases ps) (auto simp: thread_step_def sink_inv_def)
next
  case (Close_drained rc ps)
  then show ?thesis using assms by (cases ps) (auto simp: thread_step_def sink_inv_def)
qed (use assms in \<open>auto simp: thread_step_def sink_inv_def split: if_splits\<close>)

section \<open>The invariant of the program\<close>

definition list_inv :: "nat list \<Rightarrow> (nat, nat list) exec \<Rightarrow> bool" where
  "list_inv xs s \<longleftrightarrow>
     length (threads s) \<le> 2 \<and> (\<forall>n. main_at s = Create n \<longrightarrow> n = length (threads s))
     \<and> (\<forall>i. i \<noteq> 0 \<longrightarrow> sent (world_of s) i = [])
     \<and> (if threads s = [] then sent (world_of s) 0 = [] else source_inv xs (sent (world_of s) 0) (threads s ! 0))
     \<and> (if length (threads s) \<le> 1 then got (world_of s) 0 = [] else sink_inv (got (world_of s) 0) (threads s ! 1))"

lemma source_inv_length: "source_inv xs snt t \<Longrightarrow> length snt \<le> length xs"
  by (auto simp: source_inv_def split: phase.splits dest!: arg_cong [where f = length])

lemma inv_look:
  assumes "look_at t keep = Some (t', k)"
  shows "source_inv xs snt t' = source_inv xs snt t" "sink_inv gt t' = sink_inv gt t"
  using assms by (cases "th_phase t"; auto simp: look_at_def source_inv_def sink_inv_def split: if_splits)+

lemma list_inv_main:
  assumes "list_inv xs s"
  shows "list_inv xs (main_step (list_nodes xs) s)"
proof (cases "main_at s")
  case (Create n)
  then have n: "n = length (threads s)" using assms by (simp add: list_inv_def)
  show ?thesis
  proof (cases "n < 2")
    case True
    then have "n = 0 \<or> n = 1" by auto
    then show ?thesis
    proof
      assume "n = 0"
      then have "threads s = []" using n by simp
      then show ?thesis using assms Create \<open>n = 0\<close>
        by (simp add: main_step_def list_node_fields list_inv_def new_thread_def source_inv_def)
    next
      assume one: "n = 1"
      then obtain t where t: "threads s = [t]" using n by (cases "threads s") auto
      then show ?thesis using assms Create one list_node_fields(5) [of xs]
        by (simp add: main_step_def list_node_fields(1) list_inv_def new_thread_def sink_inv_def)
    qed
  next
    case False
    then show ?thesis using assms Create by (simp add: main_step_def list_node_fields(1) list_inv_def)
  qed
next
  case (Look n keep)
  show ?thesis
  proof (cases "n < length (threads s)")
    case True
    show ?thesis
    proof (cases "look_at (threads s ! n) keep")
      case None
      then show ?thesis using assms Look True by (simp add: main_step_def)
    next
      case (Some tk)
      obtain t' k where tk: "tk = (t', k)" by (cases tk)
      have "n = 0 \<or> n = 1" using assms True by (auto simp: list_inv_def)
      then show ?thesis
        using assms Look True Some inv_look [OF Some [unfolded tk]]
        by (elim disjE) (auto simp: main_step_def list_inv_def tk nth_list_update split: if_splits)
    qed
  next
    case False
    then show ?thesis using assms Look by (auto simp: main_step_def list_inv_def)
  qed
next
  case Start_returned
  then show ?thesis using assms by (simp add: main_step_def)
qed

lemma list_inv_kernel:
  assumes "list_inv xs s" and "j < length (threads s)"
  shows "list_inv xs (kernel_step kinds (list_nodes xs) j s)"
proof -
  obtain t' w' where step: "thread_step kinds (list_nodes xs ! j) (threads s ! j) (world_of s) = (t', w')"
    by (cases "thread_step kinds (list_nodes xs ! j) (threads s ! j) (world_of s)")
  have "j = 0 \<or> j = 1" using assms by (auto simp: list_inv_def)
  then show ?thesis
  proof
    assume j: "j = 0"
    then have "source_inv xs (sent (world_of s) 0) (threads s ! 0)" using assms by (auto simp: list_inv_def)
    from source_step [OF this step [unfolded j]] show ?thesis
      using assms step by (auto simp: j kernel_step_def list_inv_def)
  next
    assume j: "j = 1"
    then have "sink_inv (got (world_of s) 0) (threads s ! 1)" using assms by (auto simp: list_inv_def split: if_splits)
    from sink_step [OF this step [unfolded j]] show ?thesis
      using assms step by (auto simp: j kernel_step_def list_inv_def)
  qed
qed

lemma list_inv_reachable:
  assumes "exec_reachable kinds (list_nodes xs) (exec_init f0) s"
  shows "list_inv xs s"
  using assms
proof induction
  case start
  then show ?case by (simp add: list_inv_def exec_init_def)
next
  case (step s t)
  from step.hyps(2) show ?case
    by cases (use step.IH in \<open>simp_all add: list_inv_main list_inv_kernel\<close>)
qed

section \<open>What is printed\<close>

lemma list_program_ok: "program_ok (list_nodes xs)"
proof -
  have "action_ok {} {0} (push_list m (Return stop [] :: (nat, nat list) action))" for m by (induction m) simp_all
  then have "node_ok (list_nodes xs ! 0)"
    using list_node_fields(2) [of xs] by (simp add: node_ok_def pipe_nodes_def)
  moreover have "node_ok (list_nodes xs ! 1)"
    using list_node_fields(4) [of xs] by (simp add: node_ok_def pipe_nodes_def)
  moreover have "set (list_nodes xs) = {list_nodes xs ! 0, list_nodes xs ! 1}" by (simp add: pipe_nodes_def)
  moreover have "streams_private (list_nodes xs)"
    by (auto simp: streams_private_def pipe_nodes_def less_Suc_eq)
  ultimately show ?thesis by (simp add: program_ok_def)
qed

lemma list_lifetime:
  assumes "list_inv xs s" and "length xs < 2 ^ 64 * 4 - 4"
  shows "in_lifetime count_streams (world_of s)"
proof -
  have "length (sent (world_of s) i) \<le> length xs" for i
    using assms(1) source_inv_length by (cases "i = 0") (auto simp: list_inv_def split: if_splits)
  moreover have "room (fresh 16) = 2 ^ 64 * 4 - 4" using fresh_ok(5) [of 16] by simp
  ultimately show ?thesis
    using assms(2) by (auto simp: in_lifetime_def intro: le_less_trans)
qed


text \<open>A schedule under which a list of two values is printed.\<close>

definition list_end :: "(nat, nat list) exec" where
  "list_end = run_exec count_kinds (list_nodes [7, 8])
     ([None, None, None] @ replicate 12 (Some 0) @ replicate 30 (Some 1) @ replicate 8 None) (exec_init count_streams)"

lemma list_returns: "case main_at list_end of Start_returned \<Rightarrow> True | _ \<Rightarrow> False"
  by code_simp


end
