(* ===== verification/Split_Join.thy ===== *)
theory Split_Join
  imports Ring_Props2
begin

text \<open>
  The kernels that split and join streams: src/roundrobin.cpp, raftinc/splitmethod.hpp,
  raftinc/split.tcc and raftinc/join.tcc, with the ranges of raftinc/autorelease.tcc, on heap
  ring buffers.  The ports of a kernel are a list of FIFOs in the order of the port map; a
  pointer to one of them is its position, None the null pointer.  Spin is a pass of a loop that
  waits: in select_fifo, or in an operation of a port.
\<close>

datatype functype = sendtype | gettype

section \<open>States with several FIFOs\<close>

fun lift_state :: "('s \<Rightarrow> 't) \<Rightarrow> ('r, 's) outcome \<Rightarrow> ('r, 't) outcome" where
  "lift_state f (Returned r s) = Returned r (f s)"
| "lift_state f (Spin s) = Spin (f s)"
| "lift_state f (Raised e s) = Raised e (f s)"
| "lift_state f (Fault x) = Fault x"

definition on_port :: "nat \<Rightarrow> ('a fifo \<Rightarrow> ('r, 'a fifo) outcome) \<Rightarrow> 'a fifo list \<Rightarrow> ('r, 'a fifo list) outcome" where
  "on_port i f ps =
     (if i < length ps then lift_state (\<lambda>p. ps[i := p]) (f (ps ! i)) else Fault OutOfRange)"

definition on_fst :: "('s \<Rightarrow> ('r, 's) outcome) \<Rightarrow> 's \<times> 't \<Rightarrow> ('r, 's \<times> 't) outcome" where
  "on_fst f st = lift_state (\<lambda>s. (s, snd st)) (f (fst st))"

definition on_snd :: "('t \<Rightarrow> ('r, 't) outcome) \<Rightarrow> 's \<times> 't \<Rightarrow> ('r, 's \<times> 't) outcome" where
  "on_snd f st = lift_state (\<lambda>t. (fst st, t)) (f (snd st))"

section \<open>select_fifo\<close>

definition port_ready :: "functype \<Rightarrow> 'a fifo \<Rightarrow> (bool, 'a fifo) outcome" where
  "port_ready ty p =
     (case ty of
        sendtype \<Rightarrow> bind_outcome (space_avail p) (\<lambda>n p'. Returned (n > 0) p')
      | gettype \<Rightarrow> bind_outcome (fifo_size p) (\<lambda>n p'. Returned (n > 0) p'))"

text \<open>One pass of the loop over the ports.\<close>

fun roundrobin_pass :: "functype \<Rightarrow> 'a fifo list \<Rightarrow> (nat option, 'a fifo list) outcome" where
  "roundrobin_pass ty [] = Returned None []"
| "roundrobin_pass ty (p # ps) =
     (case port_ready ty p of
        Returned True p' \<Rightarrow> Returned (Some 0) (p' # ps)
      | Returned False p' \<Rightarrow>
          bind_outcome (lift_state (\<lambda>ps'. p' # ps') (roundrobin_pass ty ps))
            (\<lambda>i ps'. Returned (map_option Suc i) ps')
      | Spin p' \<Rightarrow> Spin (p' # ps)
      | Raised e p' \<Rightarrow> Raised e (p' # ps)
      | Fault x \<Rightarrow> Fault x)"

definition roundrobin_select :: "functype \<Rightarrow> 'a fifo list \<Rightarrow> (nat option, 'a fifo list) outcome" where
  "roundrobin_select ty ps =
     bind_outcome (roundrobin_pass ty ps)
       (\<lambda>i ps'. case i of None \<Rightarrow> Spin ps' | Some f \<Rightarrow> Returned (Some f) ps')"

section \<open>splitmethod\<close>

type_synonym 'a select = "functype \<Rightarrow> 'a fifo list \<Rightarrow> (nat option, 'a fifo list) outcome"

definition splitmethod_send :: "'a select \<Rightarrow> 'a \<times> signal \<Rightarrow> 'a fifo list \<Rightarrow> (bool, 'a fifo list) outcome" where
  "splitmethod_send select_fifo item outputs =
     bind_outcome (select_fifo sendtype outputs) (\<lambda>f ps.
       case f of
         Some i \<Rightarrow> bind_outcome (on_port i (push_elem item) ps) (\<lambda>_ ps'. Returned True ps')
       | None \<Rightarrow> Returned False ps)"

text \<open>send for a range: the loop from index i, with k elements to go, reading range [ i ].\<close>

fun send_loop ::
  "(nat \<Rightarrow> ('a \<times> signal, 's) outcome) \<Rightarrow> nat \<Rightarrow> nat \<Rightarrow> nat \<Rightarrow> 'a fifo list \<Rightarrow> (unit, 'a fifo list) outcome" where
  "send_loop rng f i 0 ps = Returned () ps"
| "send_loop rng f i (Suc k) ps =
     (case rng i of
        Returned e _ \<Rightarrow>
          bind_outcome (on_port f (push_elem e) ps) (\<lambda>_ ps'. send_loop rng f (i + 1) k ps')
      | Spin _ \<Rightarrow> Spin ps
      | Raised x _ \<Rightarrow> Raised x ps
      | Fault x \<Rightarrow> Fault x)"

definition splitmethod_send_range ::
  "'a select \<Rightarrow> (nat \<Rightarrow> ('a \<times> signal, 's) outcome) \<Rightarrow> u64 \<Rightarrow> 'a fifo list \<Rightarrow> (bool, 'a fifo list) outcome" where
  "splitmethod_send_range select_fifo rng range_size outputs =
     bind_outcome (select_fifo sendtype outputs) (\<lambda>f ps.
       case f of
         Some i \<Rightarrow>
           bind_outcome (on_port i space_avail ps) (\<lambda>n ps1.
             bind_outcome (send_loop rng i 0 (unat (min n range_size)) ps1) (\<lambda>_ ps2. Returned True ps2))
       | None \<Rightarrow> Returned False ps)"

definition splitmethod_get ::
  "'a select \<Rightarrow> alloc_kind \<Rightarrow> 'a fifo list \<Rightarrow> (('a \<times> signal) option, 'a fifo list) outcome" where
  "splitmethod_get select_fifo kind inputs =
     bind_outcome (select_fifo gettype inputs) (\<lambda>f ps.
       case f of
         Some i \<Rightarrow> bind_outcome (on_port i (pop_elem kind) ps) (\<lambda>e ps'. Returned (Some e) ps')
       | None \<Rightarrow> Returned None ps)"

section \<open>Ranges and the two kernels\<close>

text \<open>
  operator [] of a peeked range: n elements from the read position crp.  The queue pointer is
  the start of the store, the signal pointer the address of signal [ crp ]; the same index is
  applied to both.
\<close>

definition range_get :: "alloc_kind \<Rightarrow> nat \<Rightarrow> nat \<Rightarrow> nat \<Rightarrow> 'a fifo \<Rightarrow> ('a \<times> signal, 'a fifo) outcome" where
  "range_get kind n crp i s =
     (if i \<ge> n then Raised LengthError s
      else if capacity s = 0 then Fault DivisionByZero
      else
        (let ptr_val = (i + crp) mod unat (capacity s)
         in case read_slot kind ptr_val s of
              Inl x \<Rightarrow> Fault x
            | Inr None \<Rightarrow> Fault DeadObject
            | Inr (Some v) \<Rightarrow>
                (case read_signal (crp + ptr_val) s of
                   None \<Rightarrow> Fault OutOfRange
                 | Some sg \<Rightarrow> Returned (v, sg) s)))"

text \<open>
  split::run: the state is the input and the outputs.  The range unpeeks the input when it goes
  out of scope, after recycle or unpeek.  run always returns proceed.
\<close>

definition split_run :: "'a select \<Rightarrow> alloc_kind \<Rightarrow> 'a fifo \<times> 'a fifo list \<Rightarrow> (unit, 'a fifo \<times> 'a fifo list) outcome" where
  "split_run select_fifo kind st =
     bind_outcome (on_fst fifo_size st) (\<lambda>avail st1.
       bind_outcome (on_fst (local_peek_range avail) st1) (\<lambda>crp st2.
         bind_outcome
           (on_snd (splitmethod_send_range select_fifo
                     (\<lambda>i. range_get kind (unat avail) crp i (fst st2)) avail) st2)
           (\<lambda>sent st3.
              if sent
              then bind_outcome
                     (on_fst (\<lambda>p. lift_state snd (local_recycle kind (unat avail) p)) st3)
                     (\<lambda>_ st4. Returned () (unpeek (fst st4), snd st4))
              else Returned () (unpeek (unpeek (fst st3)), snd st3))))"

text \<open>
  join::run for elements in plain memory: the state is the inputs and the output.  The element
  is popped into the slot allocated on the output.
\<close>

definition join_run :: "'a select \<Rightarrow> 'a fifo list \<times> 'a fifo \<Rightarrow> (unit, 'a fifo list \<times> 'a fifo) outcome" where
  "join_run select_fifo st =
     bind_outcome (on_snd local_allocate st) (\<lambda>mem st1.
       bind_outcome (on_fst (splitmethod_get select_fifo Inline_nonclass) st1) (\<lambda>r st2.
         case r of
           Some (v, temp_signal) \<Rightarrow>
             (case write_slot mem (Some v) (snd st2) of
                None \<Rightarrow> Fault OutOfRange
              | Some out1 \<Rightarrow> on_snd (send temp_signal) (fst st2, out1))
         | None \<Rightarrow> on_snd (deallocate Inline_nonclass) st2))"

end
