(* ===== verification/Split_Join_Props.thy ===== *)
theory Split_Join_Props
  imports Split_Join
begin

text \<open>
  What the split and join kernels do on ring buffers: which port the roundrobin policy
  picks, that join moves one element, and what split and its ranges do to data and signals.
\<close>

section \<open>The policy\<close>

definition port_can :: "functype \<Rightarrow> 'a fifo \<Rightarrow> bool" where
  "port_can ty p = (case ty of sendtype \<Rightarrow> length (elems p) < cap p | gettype \<Rightarrow> elems p \<noteq> [])"

lemma ring_inv_parts:
  assumes "ring_inv s"
  shows "fifo_ok s" "buf_ok (buffer s)" "signals_ok (buffer s)" "\<not> resizing s" "live s"
  using assms by (simp_all add: ring_inv_def fifo_ok_def)

lemma port_ready_can:
  assumes "ring_inv p"
  shows "port_ready ty p = Returned (port_can ty p) p"
proof (cases ty)
  case sendtype
  obtain n where "space_avail p = Returned n p" "unat n = cap p - length (queue p)"
    by (rule space_avail_buf [OF ring_inv_parts(2,4) [OF assms]])
  then show ?thesis using sendtype by (simp add: port_ready_def port_can_def word_pos_iff)
next
  case gettype
  obtain n where "fifo_size p = Returned n p" "unat n = length (queue p)"
    by (rule fifo_size_buf [OF ring_inv_parts(2,4) [OF assms]])
  moreover have "(elems p \<noteq> []) = (0 < length (queue p))" by (simp add: elems_def)
  ultimately show ?thesis using gettype by (simp add: port_ready_def port_can_def word_pos_iff)
qed

fun first_port :: "functype \<Rightarrow> 'a fifo list \<Rightarrow> nat option" where
  "first_port ty [] = None"
| "first_port ty (p # ps) = (if port_can ty p then Some 0 else map_option Suc (first_port ty ps))"

lemma first_port_None: "first_port ty ps = None \<longleftrightarrow> \<not> (\<exists>p \<in> set ps. port_can ty p)"
  by (induction ps) auto

lemma first_port_Some:
  "first_port ty ps = Some i \<longleftrightarrow> i < length ps \<and> port_can ty (ps ! i) \<and> (\<forall>j < i. \<not> port_can ty (ps ! j))"
proof (induction ps arbitrary: i)
  case (Cons p ps)
  then show ?case by (cases i) (auto simp: less_Suc_eq_0_disj)
qed simp

lemma roundrobin_pass_first:
  assumes "\<forall>p \<in> set ps. ring_inv p"
  shows "roundrobin_pass ty ps = Returned (first_port ty ps) ps"
  using assms by (induction ps) (simp_all add: port_ready_can)

lemma roundrobin_select_first:
  assumes "\<forall>p \<in> set ps. ring_inv p"
  shows "roundrobin_select ty ps =
     (case first_port ty ps of None \<Rightarrow> Spin ps | Some i \<Rightarrow> Returned (Some i) ps)"
  by (simp add: roundrobin_select_def roundrobin_pass_first [OF assms] split: option.splits)

text \<open>
  The contract of a split method: a port it returns can take or give an element, and looking
  for it changes no queue.
\<close>

locale split_policy =
  fixes sel :: "'a select"
  assumes sel_ready: "\<forall>p \<in> set ps. ring_inv p \<Longrightarrow> sel ty ps = Returned (Some i) ps' \<Longrightarrow>
    ps' = ps \<and> i < length ps \<and> port_can ty (ps ! i)"
begin

lemma send_delivers:
  assumes "\<forall>p \<in> set ps. ring_inv p \<and> 0 < room p" and "sel sendtype ps = Returned (Some i) ps1"
  obtains p' where "splitmethod_send sel e ps = Returned True (ps[i := p'])"
    "i < length ps" "ring_inv p'" "elems p' = elems (ps ! i) @ [e]"
proof -
  have i: "ps1 = ps" "i < length ps" "port_can sendtype (ps ! i)"
    using sel_ready [of ps sendtype i ps1] assms by auto
  then have "ring_inv (ps ! i)" "0 < room (ps ! i)" using assms(1) nth_mem by blast+
  then obtain p' where "push_elem e (ps ! i) = Returned () p'" "ring_inv p'" "elems p' = elems (ps ! i) @ [e]"
    using push_elem_accepts [of "ps ! i" e] i(3) by (auto simp: port_can_def)
  then show thesis using that [of p'] i assms(2) by (simp add: splitmethod_send_def on_port_def)
qed

lemma get_takes:
  assumes "\<forall>p \<in> set ps. ring_inv p \<and> 0 < room p" and "sel gettype ps = Returned (Some i) ps1"
  obtains p' e q where "splitmethod_get sel kind ps = Returned (Some e) (ps[i := p'])"
    "i < length ps" "ring_inv p'" "elems (ps ! i) = e # q" "elems p' = q"
proof -
  have i: "ps1 = ps" "i < length ps" "port_can gettype (ps ! i)"
    using sel_ready [of ps gettype i ps1] assms by auto
  then have r: "ring_inv (ps ! i)" "0 < room (ps ! i)" using assms(1) nth_mem by blast+
  obtain e q where e: "elems (ps ! i) = e # q"
    using i(3) by (cases "elems (ps ! i)") (auto simp: port_can_def)
  obtain p' where "pop_elem kind (ps ! i) = Returned e p'" "ring_inv p'" "elems p' = q"
    using pop_elem_takes [OF r(1) e r(2), of kind] by blast
  then show thesis using that [of e p' q] i assms(2) e by (simp add: splitmethod_get_def on_port_def)
qed

end

interpretation rr: split_policy roundrobin_select
  by unfold_locales (auto simp: roundrobin_select_first first_port_Some split: option.splits)

text \<open>
  Fact: The roundrobin policy does not take turns: an item goes to the first port with space, the
  later ports get something only while all earlier ones are full, and with every port full send
  waits and changes nothing.
\<close>

theorem roundrobin_fills_first_port:
  assumes "\<forall>p \<in> set ps. ring_inv p \<and> 0 < room p"
  shows "if \<forall>p \<in> set ps. length (elems p) = cap p
     then splitmethod_send roundrobin_select e ps = Spin ps
     else \<exists>i p'. i < length ps \<and> length (elems (ps ! i)) < cap (ps ! i)
       \<and> (\<forall>j < i. length (elems (ps ! j)) = cap (ps ! j))
       \<and> splitmethod_send roundrobin_select e ps = Returned True (ps[i := p'])
       \<and> ring_inv p' \<and> elems p' = elems (ps ! i) @ [e]"
proof -
  have inv: "\<forall>p \<in> set ps. ring_inv p" using assms by blast
  have le: "length (elems p) \<le> cap p" if "p \<in> set ps" for p
    using that inv fifo_ok_queue_le [of p] ring_inv_parts(1) [of p] by simp
  have full: "\<not> port_can sendtype p \<longleftrightarrow> length (elems p) = cap p" if "p \<in> set ps" for p
    using le [OF that] by (auto simp: port_can_def)
  show ?thesis
  proof (cases "first_port sendtype ps")
    case None
    then have "\<forall>p \<in> set ps. length (elems p) = cap p" using full first_port_None by blast
    then show ?thesis using None by (simp add: splitmethod_send_def roundrobin_select_first [OF inv])
  next
    case (Some i)
    then have i: "i < length ps" "port_can sendtype (ps ! i)" "\<forall>j < i. \<not> port_can sendtype (ps ! j)"
      by (simp_all add: first_port_Some)
    have "roundrobin_select sendtype ps = Returned (Some i) ps"
      using Some by (simp add: roundrobin_select_first [OF inv])
    then obtain p' where "splitmethod_send roundrobin_select e ps = Returned True (ps[i := p'])"
        "ring_inv p'" "elems p' = elems (ps ! i) @ [e]"
      using rr.send_delivers [OF assms] by blast
    moreover have "\<forall>j < i. length (elems (ps ! j)) = cap (ps ! j)"
      using full i by (meson less_trans nth_mem)
    moreover have "\<not> (\<forall>p \<in> set ps. length (elems p) = cap p)" using i(1,2) full nth_mem by blast
    ultimately show ?thesis using i(1,2) by (auto simp: port_can_def)
  qed
qed

theorem roundrobin_fills_first_port_witness:
  "\<exists>i p'. splitmethod_send roundrobin_select (9, 0) [two 16, fresh 16] = Returned True ([two 16, fresh 16][i := p'])
     \<and> elems p' = elems ([two 16, fresh 16] ! i) @ [(9, 0)]"
proof -
  have "\<forall>p \<in> set [two 16, fresh 16]. ring_inv p \<and> 0 < room p"
    using two_ok [of 16] fresh_ok [of 16] by simp
  note first = roundrobin_fills_first_port [OF this, of "(9, 0)"]
  have "\<not> (\<forall>p \<in> set [two 16, fresh 16]. length (elems p) = cap p)"
    using two_ok(2,3) [of 16] by (simp del: elems_length)
  then show ?thesis using first by (simp only: if_False) blast
qed

section \<open>join\<close>

text \<open>
  C35: One run of join takes the oldest element, with its signal, of the first input that has
  one and appends it to the output; nothing else moves, so each input's elements keep their
  order.
\<close>

theorem join_moves_one_element:
  assumes "\<forall>p \<in> set ins. ring_inv p \<and> 0 < room p" and "ring_inv out" and "0 < room out"
    and "length (elems out) < cap out"
    and "i < length ins" and "elems (ins ! i) = e # q" and "\<forall>j < i. elems (ins ! j) = []"
  shows "\<exists>ins' out'. join_run roundrobin_select (ins, out) = Returned () (ins', out')
     \<and> elems out' = elems out @ [e] \<and> map elems ins' = (map elems ins)[i := q]
     \<and> ring_inv out' \<and> (\<forall>p \<in> set ins'. ring_inv p)"
proof -
  have inv: "\<forall>p \<in> set ins. ring_inv p" using assms(1) by blast
  have ok: "fifo_ok out" "\<not> resizing out" "live out" using assms(2) by (simp_all add: ring_inv_def)
  have len: "length (queue out) < cap out" using assms(4) by simp
  obtain v sg where e: "e = (v, sg)" by (cases e)
  have "first_port gettype ins = Some i"
    unfolding first_port_Some using assms(5-7) by (simp add: port_can_def)
  then have "roundrobin_select gettype ins = Returned (Some i) ins"
    by (simp add: roundrobin_select_first [OF inv])
  then obtain p' e' q' where get: "splitmethod_get roundrobin_select Inline_nonclass ins = Returned (Some e') (ins[i := p'])"
      "ring_inv p'" "elems (ins ! i) = e' # q'" "elems p' = q'"
    using rr.get_takes [OF assms(1)] by blast
  then have same: "e' = e" "q' = q" using assms(6) by simp_all
  obtain t u where tu: "fifo_allocate v out = Returned (write_index out) t"
    "send sg t = Returned () u" "wrote out (Some v) sg u"
    using fifo_allocate_send [OF ok(1,2) len, of v sg] by auto
  note w = wrote_result [OF ok(1) len assms(3) tu(3)]
  have "same_frame out u" using tu(3) by (simp add: wrote_def)
  then have u: "ring_inv u" "elems u = elems out @ [e]"
    using w ok same_frame_simps(3) by (auto simp: ring_inv_def live_def elems_def e)
  obtain t1 where t1: "local_allocate out = Returned (write_index out) t1" "write_slot (write_index out) (Some v) t1 = Some t"
    using tu(1) unfolding fifo_allocate_def
    by (cases "local_allocate out") (auto split: option.splits)
  have "join_run roundrobin_select (ins, out) = Returned () (ins[i := p'], u)"
    using t1 get(1) tu(2) by (simp add: join_run_def on_fst_def on_snd_def same e)
  moreover have "map elems (ins[i := p']) = (map elems ins)[i := q]"
    using get(4) same by (simp add: map_update)
  moreover have "\<forall>p \<in> set (ins[i := p']). ring_inv p"
    using inv get(2) set_update_subset_insert [of ins i p'] by blast
  ultimately show ?thesis using u by blast
qed

theorem join_moves_one_element_witness:
  "\<exists>ins' out'. join_run roundrobin_select ([fresh 16, two 16], fresh 16) = Returned () (ins', out')
     \<and> elems out' = [(7, sig_none)] \<and> map elems ins' = [[], [(8, sig_eof)]]"
proof -
  have "\<forall>p \<in> set [fresh 16, two 16]. ring_inv p \<and> 0 < room p"
    using two_ok [of 16] fresh_ok [of 16] by simp
  note moves = join_moves_one_element [OF this, of "fresh 16" 1 "(7, sig_none)" "[(8, sig_eof)]"]
  have "\<exists>ins' out'. join_run roundrobin_select ([fresh 16, two 16], fresh 16) = Returned () (ins', out')
     \<and> elems out' = [(7, sig_none)] \<and> map elems ins' = [[], [(8, sig_eof)]]
     \<and> ring_inv out' \<and> (\<forall>p \<in> set ins'. ring_inv p)"
    using moves two_ok [of 16] fresh_ok [of 16] by simp
  then show ?thesis by (elim exE conjE) (intro exI conjI)
qed

section \<open>Ranges\<close>

lemma peek_range_returns:
  assumes "ring_inv s" and "unat n \<le> length (elems s)"
  obtains t where "local_peek_range n s = Returned (read_index s) t" "same_queue s t"
proof -
  let ?t = "enterBuffer dm_peek s"
  have same: "same_queue s ?t" by simp
  obtain k where k: "fifo_size ?t = Returned k ?t" "unat k = length (queue ?t)"
    using size_known [of ?t] ring_inv_parts(1,4) [OF assms(1)] same_queue_simps [OF same] by auto
  have "unat n \<le> unat k" using k(2) assms(2) same_queue_simps [OF same] by simp
  then have "local_peek_range n s = Returned (read_index ?t) ?t"
    using k(1) ring_inv_parts(4) [OF assms(1)] same_queue_simps [OF same]
    by (simp add: local_peek_range_def Let_def notResizing_def word_le_nat_alt)
  moreover have "read_index ?t = read_index s" using same by (simp add: same_queue_def read_index_def)
  ultimately show thesis using that same by simp
qed

text \<open>The value and the signal a range shows at index i, on a queue that is not empty there.\<close>

lemma range_get_element:
  assumes "ring_inv s" and "i < n" and "n \<le> length (elems s)"
  shows "range_get kind n (read_index s) i s =
     (if read_index s + (i + read_index s) mod cap s < cap s
      then Returned (fst (elems s ! i), sig (signal (buffer s) ! (read_index s + (i + read_index s) mod cap s))) s
      else Fault OutOfRange)"
proof -
  note inv = ring_inv_parts [OF assms(1)]
  let ?c = "cap s" and ?r = "pointer_pos (read_pt (buffer s))"
  let ?p = "(i + read_index s) mod ?c"
  have c: "0 < ?c" "?c = unat (max_cap (buffer s))" "?c = unat (capacity s)"
    using fifo_ok_cap_pos [OF inv(1)] by (simp_all add: cap_def capacity_def)
  have len: "length (store (buffer s)) = ?c" "length (signal (buffer s)) = ?c"
    using inv(2,3) c(2) by (simp_all add: buf_ok_def signals_ok_def)
  have ix: "read_index s = ?r mod ?c"
    using buf_ok_index(3) [OF inv(2)] c(2) by (simp add: read_index_def Pointer_val_def)
  have i: "i < length (queue s)" using assms(2,3) by simp
  then have "queue s ! i = data_slot (buffer s) (?r + i)" by (simp add: queue_def contents_def)
  moreover have "(?r + i) mod ?c = ?p" unfolding ix by (simp add: mod_simps add.commute)
  ultimately have q: "fst (queue s ! i) = store (buffer s) ! ?p" by (simp add: data_slot_def c(2))
  have "fst (queue s ! i) \<noteq> None" using inv(5) i nth_mem unfolding live_def by blast
  then obtain v where v: "store (buffer s) ! ?p = Some v" using q by auto
  then have "fst (elems s ! i) = v" using q i by (simp add: elems_def case_prod_beta)
  moreover have "read_slot kind ?p s = Inr (Some v)" using v len(1) c(1) by (simp add: read_slot_def)
  moreover have "read_signal (read_index s + ?p) s =
      (if read_index s + ?p < ?c then Some (sig (signal (buffer s) ! (read_index s + ?p))) else None)"
    by (simp add: read_signal_def len(2) Signal_conv_def)
  moreover have "capacity s \<noteq> 0" using c(1,3) by auto
  ultimately show ?thesis using assms(2) c(3) by (simp add: range_get_def Let_def)
qed

lemma range_get_same:
  assumes "same_queue s t"
  shows "range_get kind n crp i t = lift_state (\<lambda>_. t) (range_get kind n crp i s)"
  using assms
  by (auto simp: range_get_def Let_def same_queue_def capacity_def read_slot_def read_signal_def
      split: option.splits sum.splits)

text \<open>
  Fact: The signals of a peeked range belong to other elements unless the range starts at index
  0: the signal pointer is already moved to the read position, and operator [] moves it
  again.  The first element of a range that starts at index r comes with the signal of slot
  2 r, and past the middle of the buffer its read is out of bounds.
\<close>

theorem range_signal_is_shifted:
  assumes "ring_inv s" and "0 < unat n" and "unat n \<le> length (elems s)"
  shows "\<exists>t. local_peek_range n s = Returned (read_index s) t
     \<and> range_get kind (unat n) (read_index s) 0 t =
        (if 2 * read_index s < cap s
         then Returned (fst (hd (elems s)), sig (signal (buffer s) ! (2 * read_index s))) t
         else Fault OutOfRange)"
proof -
  obtain t where t: "local_peek_range n s = Returned (read_index s) t" "same_queue s t"
    by (rule peek_range_returns [OF assms(1,3)])
  have "read_index s < cap s"
    using slot_bounds(2) [OF ring_inv_parts(2) [OF assms(1)]] ring_inv_parts(2) [OF assms(1)]
    by (simp add: buf_ok_def cap_def capacity_def)
  moreover have "elems s \<noteq> []" using assms(2,3) by (cases "elems s") (simp_all del: elems_length)
  ultimately have "range_get kind (unat n) (read_index s) 0 t =
      (if 2 * read_index s < cap s
       then Returned (fst (hd (elems s)), sig (signal (buffer s) ! (2 * read_index s))) t
       else Fault OutOfRange)"
    unfolding range_get_same [OF t(2)]
    using range_get_element [OF assms(1,2,3), of kind] by (simp add: hd_conv_nth mult_2)
  then show ?thesis using t(1) by blast
qed

text \<open>A queue whose second element, with its signal, is at the head.\<close>

definition second :: "nat fifo" where
  "second = (case pop_elem Inline_class (two 16) of Returned _ s \<Rightarrow> s | _ \<Rightarrow> two 16)"

lemma second_ok: "ring_inv second" "elems second = [(8, sig_eof)]" "read_index second = 1"
proof -
  obtain t where t: "pop_elem Inline_class (two 16) = Returned (7, sig_none) t" "ring_inv t"
      "elems t = [(8, sig_eof)]"
    using pop_elem_takes [of "two 16" "(7, sig_none)" "[(8, sig_eof)]" Inline_class] two_ok [of 16] by auto
  then show "ring_inv second" "elems second = [(8, sig_eof)]" by (simp_all add: second_def)
  show "read_index second = 1" by code_simp
qed

theorem range_signal_is_shifted_witness:
  "\<exists>t. local_peek_range 1 second = Returned 1 t
     \<and> range_get Inline_class 1 1 0 t =
        (if 2 < cap second then Returned (8, sig (signal (buffer second) ! 2)) t else Fault OutOfRange)"
proof -
  obtain t where "local_peek_range 1 second = Returned (read_index second) t"
      "range_get Inline_class (unat 1) (read_index second) 0 t =
        (if 2 * read_index second < cap second
         then Returned (fst (hd (elems second)), sig (signal (buffer second) ! (2 * read_index second))) t
         else Fault OutOfRange)"
    using range_signal_is_shifted [OF second_ok(1), of 1 Inline_class] second_ok(2) by auto
  then show ?thesis unfolding second_ok(2,3) by (intro exI [of _ t]) simp
qed

section \<open>split\<close>

lemma send_loop_pushes:
  assumes "f < length ps" and "ring_inv (ps ! f)" and "length es \<le> cap (ps ! f) - length (elems (ps ! f))"
    and "length es < room (ps ! f)" and "\<forall>j < length es. \<exists>s. rng (i + j) = Returned (es ! j) s"
  shows "\<exists>p'. send_loop rng f i (length es) ps = Returned () (ps[f := p'])
     \<and> ring_inv p' \<and> elems p' = elems (ps ! f) @ es"
  using assms
proof (induction es arbitrary: i ps)
  case Nil
  then show ?case by (intro exI [of _ "ps ! f"]) simp
next
  case (Cons e es)
  obtain s where s: "rng i = Returned e s" using Cons.prems(5) by force
  have "length (elems (ps ! f)) < cap (ps ! f)" "0 < room (ps ! f)" using Cons.prems(3,4) by simp_all
  then obtain p1 where p1: "push_elem e (ps ! f) = Returned () p1" "ring_inv p1"
      "elems p1 = elems (ps ! f) @ [e]" "cap p1 = cap (ps ! f)" "room p1 = room (ps ! f) - 1"
    using push_elem_accepts [OF Cons.prems(2), of e] by blast
  have len: "length (queue p1) = Suc (length (queue (ps ! f)))"
    using arg_cong [OF p1(3), of length] by simp
  have next_rng: "\<forall>j < length es. \<exists>s. rng (i + 1 + j) = Returned (es ! j) s"
  proof (intro allI impI)
    fix j assume "j < length es"
    then show "\<exists>s. rng (i + 1 + j) = Returned (es ! j) s"
      using Cons.prems(5) [rule_format, of "Suc j"] by simp
  qed
  have "\<exists>p'. send_loop rng f (i + 1) (length es) (ps[f := p1]) = Returned () ((ps[f := p1])[f := p'])
     \<and> ring_inv p' \<and> elems p' = elems ((ps[f := p1]) ! f) @ es"
    by (rule Cons.IH) (use Cons.prems p1 len next_rng in simp_all)
  then show ?case using Cons.prems(1) s p1(1,3) by (auto simp: on_port_def)
qed

lemma range_get_from_zero:
  assumes "ring_inv s" and "read_index s = 0" and "j < length (elems s)"
  shows "range_get kind (length (elems s)) 0 j s = Returned (elems s ! j) s"
proof -
  note inv = ring_inv_parts [OF assms(1)]
  let ?r = "pointer_pos (read_pt (buffer s))"
  have c: "j < cap s" using assms(3) fifo_ok_queue_le [OF inv(1)] by simp
  have r: "?r mod cap s = 0"
    using buf_ok_index(3) [OF inv(2)] assms(2) by (simp add: read_index_def Pointer_val_def cap_def capacity_def)
  have "snd (elems s ! j) = sig (signal (buffer s) ! ((?r + j) mod cap s))"
    using assms(3) by (simp add: elems_def queue_def contents_def data_slot_def cap_def capacity_def case_prod_beta)
  also have "(?r + j) mod cap s = j" using r c by (metis add.left_neutral mod_add_left_eq mod_less)
  finally have "elems s ! j = (fst (elems s ! j), sig (signal (buffer s) ! j))"
    by (simp add: prod_eq_iff)
  then show ?thesis
    using range_get_element [OF assms(1,3) order_refl, of kind] assms(2) c by simp
qed

text \<open>
  Fact: One run of split hands out only as many elements as the port it picks has space for, and
  then recycles all of them: with an input that starts at index 0 and a first port with k
  free places, the first k elements arrive in order and the others are lost, though send
  reports success.
\<close>

theorem split_drops_what_does_not_fit:
  assumes "ring_inv inp" and "0 < room inp" and "read_index inp = 0"
    and "\<forall>p \<in> set outs. ring_inv p" and "i < length outs"
    and "\<forall>j < i. length (elems (outs ! j)) = cap (outs ! j)"
    and "k = cap (outs ! i) - length (elems (outs ! i))" and "0 < k" and "k < room (outs ! i)"
  shows "\<exists>inp' outs'. split_run roundrobin_select kind (inp, outs) = Returned () (inp', outs')
     \<and> elems inp' = [] \<and> map elems outs' = (map elems outs)[i := elems (outs ! i) @ take k (elems inp)]"
proof -
  note inv = ring_inv_parts [OF assms(1)]
  obtain avail where av: "fifo_size inp = Returned avail inp" "unat avail = length (queue inp)"
    by (rule size_known [OF inv(1,4)])
  obtain t where t: "local_peek_range avail inp = Returned 0 t" "same_queue inp t"
    using peek_range_returns [OF assms(1), of avail] av(2) assms(3) by auto
  let ?rng = "\<lambda>j. range_get kind (unat avail) 0 j t"
  have rng: "\<exists>s. ?rng j = Returned (elems inp ! j) s" if "j < length (elems inp)" for j
    unfolding range_get_same [OF t(2)]
    using range_get_from_zero [OF assms(1,3) that, of kind] av(2) by simp
  have first: "first_port sendtype outs = Some i"
    unfolding first_port_Some using assms(5-8) by (simp add: port_can_def)
  have oi: "ring_inv (outs ! i)" using assms(4,5) nth_mem by blast
  obtain n where n: "space_avail (outs ! i) = Returned n (outs ! i)" "unat n = k"
    using space_avail_buf [OF ring_inv_parts(2,4) [OF oi]] assms(7) by auto
  have m: "unat (min n avail) = length (take k (elems inp))"
    using n(2) av(2) by (simp add: min_def word_le_nat_alt)
  obtain p' where p': "send_loop ?rng i 0 (unat (min n avail)) outs = Returned () (outs[i := p'])"
      "elems p' = elems (outs ! i) @ take k (elems inp)"
  proof -
    have "\<exists>p'. send_loop ?rng i 0 (length (take k (elems inp))) outs = Returned () (outs[i := p'])
       \<and> ring_inv p' \<and> elems p' = elems (outs ! i) @ take k (elems inp)"
      by (rule send_loop_pushes [OF assms(5) oi]) (use assms(7,9) rng in auto)
    then show thesis using that unfolding m by blast
  qed
  have rt: "ring_inv t" "queue t = queue inp" "room t = room inp"
    using same_queue_ring [OF t(2)] same_queue_simps [OF t(2)] assms(1) by simp_all
  obtain u where u: "local_recycle kind (unat avail) t = Returned () (0, u)" "queue u = []"
    using local_recycle_drop [of t kind "unat avail"] ring_inv_parts(1,4,5) [OF rt(1)] rt(2,3) assms(2) av(2)
    by auto
  have "split_run roundrobin_select kind (inp, outs) = Returned () (unpeek u, outs[i := p'])"
    using av(1) t(1) n(1) p'(1) u(1) assms(5) first
    by (simp add: split_run_def on_fst_def on_snd_def splitmethod_send_range_def on_port_def
        roundrobin_select_first [OF assms(4)])
  moreover have "elems (unpeek u) = []"
    using u(2) same_queue_queue [OF exitBuffer_same [where s = u and k = dm_peek]]
    by (simp add: elems_def unpeek_def)
  moreover have "map elems (outs[i := p']) = (map elems outs)[i := elems (outs ! i) @ take k (elems inp)]"
    using p'(2) by (simp add: map_update)
  ultimately show ?thesis by blast
qed

text \<open>An output of capacity four with three elements takes one of the two.\<close>

definition three :: "nat fifo" where
  "three = push_all [(1, 0), (2, 0), (3, 0)] (fresh 16)"

lemma three_ok:
  "ring_inv three" "elems three = [(1, 0), (2, 0), (3, 0)]" "cap three = 4" "room three = 2 ^ 64 * 4 - 7"
  using push_all_elems [of "fresh 16" "[(1, 0), (2, 0), (3, 0)]"] fresh_ok [of 16]
  by (simp_all add: three_def)

theorem split_drops_what_does_not_fit_witness:
  "\<exists>inp' outs'. split_run roundrobin_select Inline_class (two 16, [three, fresh 16]) = Returned () (inp', outs')
     \<and> elems inp' = [] \<and> map elems outs' = [[(1, 0), (2, 0), (3, 0), (7, sig_none)], []]"
proof -
  have r: "read_index (two 16) = 0" by code_simp
  have inv: "\<forall>p \<in> set [three, fresh 16]. ring_inv p" using three_ok(1) fresh_ok [of 16] by simp
  have s: "ring_inv (two 16)" "0 < room (two 16)" "elems (two 16) = [(7, sig_none), (8, sig_eof)]"
    using two_ok [of 16] by simp_all
  have k: "1 = cap ([three, fresh 16] ! 0) - length (elems ([three, fresh 16] ! 0))"
    "1 < room ([three, fresh 16] ! 0)"
    using three_ok by (simp_all del: elems_length)
  have "\<exists>inp' outs'. split_run roundrobin_select Inline_class (two 16, [three, fresh 16]) = Returned () (inp', outs')
     \<and> elems inp' = []
     \<and> map elems outs' =
        (map elems [three, fresh 16])[0 := elems ([three, fresh 16] ! 0) @ take 1 (elems (two 16))]"
    by (rule split_drops_what_does_not_fit [OF s(1,2) r inv _ _ k(1) _ k(2)]) simp_all
  then show ?thesis unfolding s(3) by (simp add: three_ok(2) fresh_ok(3))
qed

end
