(* ===== verification/Duplication.thy ===== *)
theory Duplication
  imports Partition_Scotch
begin

text \<open>
  raft::map::enableDuplication (src/map.cpp), the pass that was to put split and join kernels
  around kernels that can be duplicated, and whose call in raft::map::exe is commented out.
  The split and join factories of a port are parameters: the kernel they make, given its
  address; zero is the key of port zero of such a kernel.
\<close>

text \<open>A new kernel is put into the container of all kernels.\<close>

definition make_kernel ::
  "(nat \<Rightarrow> ('k, 't) kernel) \<Rightarrow> ('k, 't) map_state \<Rightarrow> nat \<times> ('k, 't) map_state" where
  "make_kernel mk g =
     (let n = next_addr g
      in (n, g\<lparr>heap := (heap g)(n \<mapsto> mk n), next_addr := n + 1, all_set := insert n (all_set g)\<rparr>))"

definition set_kernel ::
  "nat \<Rightarrow> (('k, 't) kernel \<Rightarrow> ('k, 't) kernel) \<Rightarrow> ('k, 't) map_state \<Rightarrow> (unit, ('k, 't) map_state) outcome" where
  "set_kernel a f g =
     (case heap g a of
        None \<Rightarrow> Fault UseAfterFree
      | Some K \<Rightarrow> Returned () (g\<lparr>heap := (heap g)(a \<mapsto> f K)\<rparr>))"

text \<open>A new kernel between two ports.\<close>

definition put_between ::
  "'k \<Rightarrow> (nat \<Rightarrow> ('k, 't) kernel) \<Rightarrow> nat \<Rightarrow> 'k port_ref \<Rightarrow> nat \<Rightarrow> 'k port_ref \<Rightarrow> ('k, 't) map_state \<Rightarrow>
   (unit, ('k, 't) map_state) outcome" where
  "put_between zero mk a a_out b b_in g =
     (case make_kernel mk g of (i, g1) \<Rightarrow> insert_between zero a a_out b b_in i g1)"

text \<open>front -> a becomes front -> split -> a, then a -> b becomes a -> join -> b.\<close>

definition dup_inline ::
  "'k \<Rightarrow> (nat \<Rightarrow> ('k, 't) kernel) \<Rightarrow> (nat \<Rightarrow> ('k, 't) kernel) \<Rightarrow> nat \<Rightarrow> 'k port_ref \<Rightarrow> nat \<Rightarrow> 'k port_ref \<Rightarrow>
   ('k, 't) map_state \<Rightarrow> (unit, ('k, 't) map_state) outcome" where
  "dup_inline zero split_func join_func ka a kb b g =
     (case heap g ka of
        None \<Rightarrow> Fault UseAfterFree
      | Some KA \<Rightarrow>
          if count_of (kin KA) \<noteq> 1 then Fault AssertionFailed
          else
            (case getPortInfo (kin KA) of
               Inl e \<Rightarrow> Raised e g
             | Inr port_info_front \<Rightarrow>
                 (case other_kernel port_info_front of
                    None \<Rightarrow> Fault NullDereference
                  | Some front \<Rightarrow>
                      (case heap g front of
                         None \<Rightarrow> Fault UseAfterFree
                       | Some KF \<Rightarrow>
                           (case getPortInfo (kout KF) of
                              Inl e \<Rightarrow> Raised e g
                            | Inr front_port_info \<Rightarrow>
                                bind_outcome
                                  (put_between zero split_func front (front, Out, fst (hd (portmap (kout KF))))
                                     ka (ka, In, fst (hd (portmap (kin KA)))) g)
                                  (\<lambda>_ g1.
                                     if count_of (kout KA) \<noteq> 1 then Fault AssertionFailed
                                     else
                                       bind_outcome (put_between zero join_func ka a kb b g1)
                                         (\<lambda>_ g2. set_kernel ka (\<lambda>K. K\<lparr>dup_enabled := True\<rparr>) g2)))))))"

definition dup_edge ::
  "'k \<Rightarrow> (nat \<Rightarrow> ('k, 't) kernel) \<Rightarrow> (nat \<Rightarrow> ('k, 't) kernel) \<Rightarrow> ('k, ('k, 't) map_state) edge_func" where
  "dup_edge zero split_func join_func a b g =
     (case (get_info a g, get_info b g) of
        (Some ia, Some ib) \<Rightarrow>
          if out_of_order ia \<and> out_of_order ib
          then
            (case (my_kernel ia, my_kernel ib) of
               (Some ka, Some kb) \<Rightarrow>
                 (case (heap g ka, heap g kb) of
                    (Some KA, Some KB) \<Rightarrow>
                      if count_of (kin KB) = 1 \<and> count_of (kout KB) = 1 \<and> dup_candidate KA
                      then dup_inline zero split_func join_func ka a kb b g
                      else if count_of (kin KA) = 0 \<and> count_of (kout KA) = 1
                      then bind_outcome (put_between zero join_func ka a kb b g)
                             (\<lambda>_ g1. set_kernel ka (\<lambda>K. K\<lparr>dup_enabled := True\<rparr>) g1)
                      else if count_of (kin KB) = 1 \<and> count_of (kout KB) = 0
                      then bind_outcome (put_between zero split_func ka a kb b g)
                             (\<lambda>_ g1. set_kernel kb (\<lambda>K. K\<lparr>dup_enabled := True\<rparr>) g1)
                      else if count_of (kin KB) = 1
                      then set_kernel kb (\<lambda>K. K\<lparr>dup_candidate := True\<rparr>) g
                      else Returned () g
                  | _ \<Rightarrow> Fault UseAfterFree)
             | _ \<Rightarrow> Fault NullDereference)
          else Returned () g
      | _ \<Rightarrow> Fault NullDereference)"

definition enableDuplication ::
  "'k \<Rightarrow> (nat \<Rightarrow> ('k, 't) kernel) \<Rightarrow> (nat \<Rightarrow> ('k, 't) kernel) \<Rightarrow> nat \<Rightarrow> ('k, 't) map_state \<Rightarrow>
   (unit, ('k, 't) map_state) outcome" where
  "enableDuplication zero split_func join_func fuel g =
     BFS_edges (\<lambda>g. g) (dup_edge zero split_func join_func) False fuel (source_set g) g"

section \<open>It never puts a kernel in\<close>

text \<open>
  Graphs that differ in the candidate flags only.
\<close>

definition only_flags :: "('k, 't) map_state \<Rightarrow> ('k, 't) map_state \<Rightarrow> bool" where
  "only_flags g g' \<longleftrightarrow>
     (\<exists>f. g' = g\<lparr>heap := (\<lambda>a. map_option (\<lambda>K. K\<lparr>dup_candidate := f a K\<rparr>) (heap g a))\<rparr>)"

lemma only_flags_refl: "only_flags g g"
proof -
  have "g = g\<lparr>heap := (\<lambda>a. map_option (\<lambda>K. K\<lparr>dup_candidate := dup_candidate K\<rparr>) (heap g a))\<rparr>"
    by (simp add: option.map_ident)
  then show ?thesis unfolding only_flags_def by (intro exI [of _ "\<lambda>a. dup_candidate"])
qed

lemma only_flags_trans:
  assumes "only_flags g h" and "only_flags h k"
  shows "only_flags g k"
proof -
  obtain f1 where f1: "h = g\<lparr>heap := (\<lambda>a. map_option (\<lambda>K. K\<lparr>dup_candidate := f1 a K\<rparr>) (heap g a))\<rparr>"
    using assms(1) unfolding only_flags_def by blast
  obtain f2 where f2: "k = h\<lparr>heap := (\<lambda>a. map_option (\<lambda>K. K\<lparr>dup_candidate := f2 a K\<rparr>) (heap h a))\<rparr>"
    using assms(2) unfolding only_flags_def by blast
  have "k = g\<lparr>heap := (\<lambda>a. map_option
      (\<lambda>K. K\<lparr>dup_candidate := f2 a (K\<lparr>dup_candidate := f1 a K\<rparr>)\<rparr>) (heap g a))\<rparr>"
    unfolding f2 f1 by (simp add: option.map_comp comp_def)
  then show ?thesis
    unfolding only_flags_def by (intro exI [of _ "\<lambda>a K. f2 a (K\<lparr>dup_candidate := f1 a K\<rparr>)"])
qed

lemma only_flags_info:
  assumes "only_flags g g'"
  shows "get_info r g' = get_info r g"
  using assms
  by (cases r; cases "fst (snd r)") (auto simp: only_flags_def get_info.simps split: option.splits)

lemma set_candidate_flags: "set_kernel a (\<lambda>K. K\<lparr>dup_candidate := True\<rparr>) g = Returned u g' \<Longrightarrow> only_flags g g'"
  unfolding only_flags_def
  by (rule exI [of _ "\<lambda>b K. b = a \<or> dup_candidate K"])
    (auto simp: set_kernel_def fun_eq_iff option.map_ident split: option.splits)

text \<open>insert_between never returns when the first port has another end.\<close>

lemma insert_taken:
  assumes "get_info a_out g = Some pa" and "other_kernel pa \<noteq> None"
  shows "insert_between zero a a_out b b_in i g \<noteq> Returned u g'"
  using assms by (auto simp: insert_between_def join_def split: option.splits sum.splits)

lemma put_taken:
  assumes "get_info (a, d, n) g = Some pa" and "other_kernel pa \<noteq> None" and "a \<noteq> next_addr g"
  shows "put_between zero mk x (a, d, n) b b_in g \<noteq> Returned u g'"
proof -
  have "get_info (a, d, n) (snd (make_kernel mk g)) = Some pa"
    using assms(1,3) by (simp add: make_kernel_def Let_def get_info.simps)
  then show ?thesis
    using insert_taken [OF _ assms(2)] by (simp add: put_between_def make_kernel_def Let_def)
qed

lemma dup_inline_never_returns:
  assumes "map_ok g" and "heap g ka = Some KA" and "next_addr g \<notin> dom (heap g)"
  shows "dup_inline zero mks mkj ka a kb b g \<noteq> Returned u g'"
proof
  assume ret: "dup_inline zero mks mkj ka a kb b g = Returned u g'"
  have "heap_sorted g" using assms(1) by (simp add: map_ok_def)
  obtain pf front KF pff where
    pf: "getPortInfo (kin KA) = Inr pf" "other_kernel pf = Some front" "heap g front = Some KF"
      "getPortInfo (kout KF) = Inr pff"
    and ret': "\<exists>v g1. put_between zero mks front (front, Out, fst (hd (portmap (kout KF)))) ka
       (ka, In, fst (hd (portmap (kin KA)))) g = Returned v g1"
    using ret assms(2)
    by (auto simp: dup_inline_def split: option.splits sum.splits if_splits elim!: bind_outcome.elims)
  obtain n where n: "portmap (kin KA) = [(n, pf)]"
    using pf(1) by (cases "portmap (kin KA)") (auto simp: getPortInfo_def split: if_splits)
  obtain m where m: "portmap (kout KF) = [(m, pff)]"
    using pf(4) by (cases "portmap (kout KF)") (auto simp: getPortInfo_def split: if_splits)
  have "get_info (ka, In, n) g = Some pf" using assms(2) n by (simp add: get_info.simps)
  then have "peer_ok (ka, In, n) pf g" using assms(1) unfolding map_ok_def wired_def by blast
  then obtain pj where "get_info (front, Out, other_name pf) g = Some pj" "other_kernel pj = Some ka"
    using pf(2) by (auto simp: peer_ok_def)
  then have "get_info (front, Out, m) g = Some pff" "other_kernel pff \<noteq> None"
    using pf(3) m by (auto simp: get_info.simps split: if_splits)
  moreover have "front \<noteq> next_addr g" using assms(3) pf(3) by auto
  ultimately show False using ret' put_taken [of front Out m g pff] m by auto
qed

lemma bind_Returned: "bind_outcome x k = Returned u s \<Longrightarrow> \<exists>r t. x = Returned r t \<and> k r t = Returned u s"
  by (cases x) auto

lemma dup_edge_flags:
  assumes "map_ok g" and "next_addr g \<notin> dom (heap g)"
    and "get_info a g = Some ia" and "other_kernel ia \<noteq> None"
    and "dup_edge zero mks mkj a b g = Returned u g'"
  shows "only_flags g g'"
proof -
  obtain x d n where a: "a = (x, d, n)" by (cases a)
  have "x \<in> dom (heap g)" using assms(3) unfolding a by (auto simp: get_info.simps split: option.splits)
  then have "x \<noteq> next_addr g" using assms(2) by auto
  then have taken: "put_between zero mk y a z c g \<noteq> Returned v h" for mk y z c v h
    unfolding a by (rule put_taken [OF assms(3) [unfolded a] assms(4)])
  then have bound: "bind_outcome (put_between zero mk y a z c g) k \<noteq> Returned v h" for mk y z c k and v :: unit and h
    using bind_Returned [of "put_between zero mk y a z c g" k v h] taken by blast
  obtain ib where ib: "get_info b g = Some ib"
    using assms(3,5) by (auto simp: dup_edge_def split: option.splits)
  show ?thesis
  proof (cases "out_of_order ia \<and> out_of_order ib")
    case False
    have "dup_edge zero mks mkj a b g = Returned () g"
      unfolding dup_edge_def assms(3) ib prod.case option.case if_not_P [OF False] ..
    then show ?thesis using assms(5) by (simp add: only_flags_refl)
  next
    case True
    then obtain ka kb KA KB where k: "my_kernel ia = Some ka" "my_kernel ib = Some kb" "heap g ka = Some KA" "heap g kb = Some KB"
      using assms(3,5) ib by (auto simp: dup_edge_def split: option.splits)
    show ?thesis
      using assms(3,5) ib True k bound [of mkj ka kb b] bound [of mks ka kb b]
        dup_inline_never_returns [OF assms(1) k(3) assms(2), of zero mks mkj a kb b u g']
      by (auto simp: dup_edge_def only_flags_refl dest: set_candidate_flags split: if_splits)
  qed
qed

text \<open>
  Fact: enableDuplication cannot duplicate anything: if it returns, the graph has the kernels and
  the connections it had and only candidate flags differ.  Every edge at which it would put a
  split or a join in ends it with an exception, because insert joins a port that is still
  connected.
\<close>

theorem enableDuplication_never_inserts:
  assumes "map_ok g" and "next_addr g \<notin> dom (heap g)"
    and "enableDuplication zero split_func join_func fuel g = Returned u g'"
  shows "all_set g' = all_set g \<and> dom (heap g') = dom (heap g) \<and> (\<forall>r. get_info r g' = get_info r g)"
proof -
  have "keeps_on_edges (\<lambda>g. g) (dup_edge zero split_func join_func) (only_flags g)"
    unfolding keeps_on_edges_def
  proof (intro allI impI)
    fix r q s v s' and pi :: "('a, 'b) PortInfo"
    assume s: "only_flags g s" "get_info r s = Some pi" "other_kernel pi \<noteq> None"
      "dup_edge zero split_func join_func r q s = Returned v s'"
    have f: "all_set s = all_set g" "source_set s = source_set g" "dst_set s = dst_set g"
      "internal_set s = internal_set g" "dom (heap s) = dom (heap g)" "next_addr s = next_addr g"
      using s(1) by (auto simp: only_flags_def)
    have "heap_sorted s" using s(1) assms(1) by (auto simp: only_flags_def map_ok_def heap_sorted_def)
    moreover have "named s" "wired s"
      using assms(1) unfolding map_ok_def named_def wired_def peer_ok_def only_flags_info [OF s(1)] f by simp_all
    ultimately have "map_ok s" using assms(1) by (simp add: map_ok_def f)
    then have "only_flags s s'" using dup_edge_flags [OF _ _ s(2-4)] assms(2) f by simp
    then show "only_flags g s'" by (rule only_flags_trans [OF s(1)])
  qed
  then have "only_flags g g'"
    by (rule BFS_edges_keeps [where P = "only_flags g"])
      (use assms(3) in \<open>simp_all add: enableDuplication_def only_flags_refl\<close>)
  then have "all_set g' = all_set g" "dom (heap g') = dom (heap g)" "get_info r g' = get_info r g" for r
    using only_flags_info [of g g' r] by (auto simp: only_flags_def)
  then show ?thesis by blast
qed

definition dup_split :: "nat \<Rightarrow> (nat, nat) kernel" where
  "dup_split a = diamond_kernel a [(0, fresh_info 0 8 a 0)] [(0, fresh_info 0 8 a 0)]"

definition returns :: "('r, 's) outcome \<Rightarrow> bool" where
  "returns x = (case x of Returned _ _ \<Rightarrow> True | _ \<Rightarrow> False)"

lemma diamond_duplication_returns: "returns (enableDuplication 0 dup_split dup_split 4 diamond_map)"
  by code_simp

theorem enableDuplication_never_inserts_witness:
  "\<exists>u g'. enableDuplication 0 dup_split dup_split 4 diamond_map = Returned u g'
     \<and> all_set g' = {1, 2, 3, 4} \<and> dom (heap g') = dom (heap diamond_map)"
proof -
  obtain u g' where r: "enableDuplication 0 dup_split dup_split 4 diamond_map = Returned u g'"
    using diamond_duplication_returns
    by (cases "enableDuplication 0 dup_split dup_split 4 diamond_map") (simp_all add: returns_def)
  have "next_addr diamond_map \<notin> dom (heap diamond_map)" by (simp add: diamond_map_def diamond_simps)
  from enableDuplication_never_inserts [OF diamond_map_ok this r] r show ?thesis by auto
qed

text \<open>
  Fact: An out-of-order link from a source to a sink, the simplest edge enableDuplication is
  for, makes it raise PortDoubleInitialize, with the new join kernel left unconnected among the
  kernels of the map.
\<close>

definition out_of_order_pair :: "(nat, nat) map_state" where
  "out_of_order_pair =
     (map_new
        [1 \<mapsto> diamond_kernel 1 []
           [(5, (fresh_info 0 8 1 5)\<lparr>other_kernel := Some 2, other_name := 6, out_of_order := True\<rparr>)],
         2 \<mapsto> diamond_kernel 2
           [(6, (fresh_info 0 8 2 6)\<lparr>other_kernel := Some 1, other_name := 5, out_of_order := True\<rparr>)] []] 3)
     \<lparr>source_set := {1}, dst_set := {2}, all_set := {1, 2}\<rparr>"

theorem duplication_of_a_pair_raises:
  "case enableDuplication 0 dup_split dup_split 2 out_of_order_pair of
     Raised e g \<Rightarrow> e = PortDoubleInitialize \<and> all_set g = {1, 2, 3}
       \<and> map_option other_kernel (get_info (3, In, 0) g) = Some None
   | _ \<Rightarrow> False"
  by code_simp

end
