(* ===== verification/Monitor.thy ===== *)
theory Monitor
  imports Allocate_Props
begin

text \<open>
  The parallelism monitor: src/basicparallel.cpp, with addPort and clone of src/kernel.cpp and
  raftinc/kernel.hpp and Schedule::scheduleKernel.  It looks at the kernels of the running map
  and starts a copy of one whose input streams are full and whose output streams are empty.
\<close>

record ('k, 't, 'f) monitor_state =
  m_alloc :: "('k, 't, 'f) alloc_state"
  occ_in :: "nat \<Rightarrow> 16 word"
  dup_count :: nat
  dup_list :: "nat list"
  m_threads :: "nat list"

definition mon_map :: "('k, 't, 'f) monitor_state \<Rightarrow> ('k, 't) map_state" where
  "mon_map s = a_map (m_alloc s)"

definition upd_map ::
  "(('k, 't) map_state \<Rightarrow> ('k, 't) map_state) \<Rightarrow> ('k, 't, 'f) monitor_state \<Rightarrow> ('k, 't, 'f) monitor_state" where
  "upd_map f s = s\<lparr>m_alloc := (m_alloc s)\<lparr>a_map := f (a_map (m_alloc s))\<rparr>\<rparr>"

text \<open>What the monitor asks a FIFO for.\<close>

record 'f occupancy =
  o_size :: "'f \<Rightarrow> u64"
  o_capacity :: "'f \<Rightarrow> u64"

section \<open>Looking at a kernel\<close>

text \<open>
  The one sample of streamingstat: size over capacity of the only port's FIFO.  Without ports
  there is no sample, and the mean, zero by zero, compares with nothing.
\<close>

definition port_share ::
  "'f occupancy \<Rightarrow> ('k, 't) Port \<Rightarrow> ('k, 't, 'f) monitor_state \<Rightarrow> ((nat \<times> nat) option, ('k, 't, 'f) monitor_state) outcome" where
  "port_share ops p s =
     (if \<not> hasPorts_of p then Returned None s
      else
        (case getPortInfo p of
           Inl e \<Rightarrow> Raised e s
         | Inr pi \<Rightarrow>
             (case getFIFO pi of
                None \<Rightarrow> Spin s
              | Some None \<Rightarrow> Fault NullDereference
              | Some (Some f) \<Rightarrow>
                  (case fifo_heap (m_alloc s) f of
                     None \<Rightarrow> Fault UseAfterFree
                   | Some x \<Rightarrow> Returned (Some (unat (o_size ops x), unat (o_capacity ops x))) s))))"

text \<open>The comparison of a mean of floats with .5, exact for sizes below 2^24.\<close>

fun above_half :: "(nat \<times> nat) option \<Rightarrow> bool" where
  "above_half None = False"
| "above_half (Some (n, c)) = (c < 2 * n)"

fun below_half :: "(nat \<times> nat) option \<Rightarrow> bool" where
  "below_half None = False"
| "below_half (Some (n, c)) = (2 * n < c)"

text \<open>The vertex function of the search.\<close>

definition watch :: "'f occupancy \<Rightarrow> nat \<Rightarrow> ('k, 't, 'f) monitor_state \<Rightarrow> (unit, ('k, 't, 'f) monitor_state) outcome" where
  "watch ops k s =
     (case heap (mon_map s) k of
        None \<Rightarrow> Fault UseAfterFree
      | Some K \<Rightarrow>
          if dup_enabled K
          then bind_outcome (port_share ops (kin K) s) (\<lambda>inp s1.
                 bind_outcome (port_share ops (kout K) s1) (\<lambda>outp s2.
                   let s3 = (if (count_of (kin K) = 0 \<or> above_half inp) \<and> (below_half outp \<or> count_of (kout K) = 0)
                             then s2\<lparr>occ_in := (occ_in s2)(k := occ_in s2 k + 1)\<rparr> else s2)
                   in if occ_in s3 k > 3 \<and> dup_count s3 < 2
                      then Returned ()
                        (s3\<lparr>dup_count := dup_count s3 + 1, dup_list := dup_list s3 @ [k],
                            occ_in := (occ_in s3)(k := 0)\<rparr>)
                      else Returned () s3))
          else Returned () s)"

section \<open>Starting a copy\<close>

type_synonym ('k, 't) add_port_fun = "('k, 't) kernel \<Rightarrow> nat \<times> ('k, 't) kernel"

text \<open>The virtual kernel::addPort, as the base class has it.\<close>

definition kernel_addPort :: "('k, 't) add_port_fun" where
  "kernel_addPort K = (0, K)"

definition lift_alloc ::
  "(unit, ('k, 't, 'f) alloc_state) outcome \<Rightarrow> ('k, 't, 'f) monitor_state \<Rightarrow> (unit, ('k, 't, 'f) monitor_state) outcome" where
  "lift_alloc r s =
     (case r of
        Returned _ a \<Rightarrow> Returned () (s\<lparr>m_alloc := a\<rparr>)
      | Spin a \<Rightarrow> Spin (s\<lparr>m_alloc := a\<rparr>)
      | Raised e a \<Rightarrow> Raised e (s\<lparr>m_alloc := a\<rparr>)
      | Fault f \<Rightarrow> Fault f)"

text \<open>
  The neighbour of the kernel on one side gets another port, and the allocator gives that port
  and the copy's port a FIFO.  The neighbour's port is on the other side of it.
\<close>

definition attach ::
  "('k, 't) add_port_fun \<Rightarrow> (nat \<Rightarrow> 'k) \<Rightarrow> 'f factory \<Rightarrow> u64 \<Rightarrow> port_dir \<Rightarrow> nat \<Rightarrow> nat \<Rightarrow>
   ('k, 't, 'f) monitor_state \<Rightarrow> (unit, ('k, 't, 'f) monitor_state) outcome" where
  "attach add key mk align d k c s =
     (case (heap (mon_map s) k, heap (mon_map s) c) of
        (Some K, Some C) \<Rightarrow>
          if count_of (ports_of d K) = 0 then Returned () s
          else
            (case getPortInfo (ports_of d K) of
               Inl e \<Rightarrow> Raised e s
             | Inr old_port \<Rightarrow>
                 (case other_kernel old_port of
                    None \<Rightarrow> Fault NullDereference
                  | Some o' \<Rightarrow>
                      (case heap (mon_map s) o' of
                         None \<Rightarrow> Fault UseAfterFree
                       | Some N \<Rightarrow>
                           (let (portid, N') = add N;
                                s1 = upd_map (\<lambda>g. g\<lparr>heap := (heap g)(o' \<mapsto> N')\<rparr>) s
                            in case (getPortInfoFor (key portid) (ports_of (opposite d) N'), getPortInfo (ports_of d C)) of
                                 (Inl e, _) \<Rightarrow> Raised e s1
                               | (_, Inl e) \<Rightarrow> Raised e s1
                               | (Inr _, Inr _) \<Rightarrow>
                                   (let theirs = (o', opposite d, key portid);
                                        ours = (c, d, fst (hd (portmap (ports_of d C))))
                                    in lift_alloc
                                         (if d = In then allocate mk align theirs ours (m_alloc s1)
                                          else allocate mk align ours theirs (m_alloc s1)) s1)))))
      | _ \<Rightarrow> Fault UseAfterFree)"

definition schedule_copy :: "nat \<Rightarrow> ('k, 't, 'f) monitor_state \<Rightarrow> (unit, ('k, 't, 'f) monitor_state) outcome" where
  "schedule_copy c s =
     (case heap (mon_map s) c of
        None \<Rightarrow> Fault UseAfterFree
      | Some C \<Rightarrow>
          Returned ()
            (upd_map (\<lambda>g.
               g\<lparr>source_set := (if \<not> hasPorts_of (kin C) then keeper_add c (source_set g) else source_set g),
                 dst_set := (if \<not> hasPorts_of (kout C) then keeper_add c (dst_set g) else dst_set g),
                 all_set := keeper_add c (all_set g),
                 internal_set := (if internal_alloc C then keeper_add c (internal_set g) else internal_set g)\<rparr>)
             (s\<lparr>m_threads := m_threads s @ [c]\<rparr>)))"

text \<open>clone is the user's copy constructor, or throws.\<close>

definition duplicate ::
  "(('k, 't) kernel \<Rightarrow> exn + ('k, 't) kernel) \<Rightarrow> ('k, 't) add_port_fun \<Rightarrow> (nat \<Rightarrow> 'k) \<Rightarrow> 'f factory \<Rightarrow> u64 \<Rightarrow>
   nat \<Rightarrow> ('k, 't, 'f) monitor_state \<Rightarrow> (unit, ('k, 't, 'f) monitor_state) outcome" where
  "duplicate cl add key mk align k s =
     (case heap (mon_map s) k of
        None \<Rightarrow> Fault UseAfterFree
      | Some K \<Rightarrow>
          (case cl K of
             Inl e \<Rightarrow> Raised e s
           | Inr C \<Rightarrow>
               (let c = next_addr (mon_map s);
                    s1 = upd_map (\<lambda>g. g\<lparr>heap := (heap g)(c \<mapsto> C), next_addr := c + 1\<rparr>) s
                in bind_outcome (attach add key mk align In k c s1)
                     (\<lambda>_ s2. bind_outcome (attach add key mk align Out k c s2)
                       (\<lambda>_ s3. schedule_copy c s3)))))"

fun duplicate_all ::
  "(nat \<Rightarrow> ('k, 't, 'f) monitor_state \<Rightarrow> (unit, ('k, 't, 'f) monitor_state) outcome) \<Rightarrow> nat list \<Rightarrow>
   ('k, 't, 'f) monitor_state \<Rightarrow> (unit, ('k, 't, 'f) monitor_state) outcome" where
  "duplicate_all dup [] s = Returned () s"
| "duplicate_all dup (k # ks) s = bind_outcome (dup k s) (\<lambda>_ s1. duplicate_all dup ks s1)"

text \<open>One look of the loop in start at the exit flag, and the pass after it.\<close>

definition monitor_pass ::
  "'f occupancy \<Rightarrow> (nat \<Rightarrow> ('k, 't, 'f) monitor_state \<Rightarrow> (unit, ('k, 't, 'f) monitor_state) outcome) \<Rightarrow> nat \<Rightarrow> bool \<Rightarrow>
   ('k, 't, 'f) monitor_state \<Rightarrow> (unit, ('k, 't, 'f) monitor_state) outcome" where
  "monitor_pass ops dup fuel exit_para s =
     (if exit_para then Returned () s
      else bind_outcome (BFS_vertices mon_map (watch ops) fuel (source_set (mon_map s)) (s\<lparr>dup_list := []\<rparr>))
             (\<lambda>_ s1. bind_outcome (duplicate_all dup (dup_list s1) s1)
               (\<lambda>_ s2. Spin (s2\<lparr>dup_list := []\<rparr>))))"

text \<open>
  The monitor's passes, with the steps of the other threads between them: those change the
  FIFOs and the kernels, and none of the monitor's own variables.
\<close>

inductive monitor_reaches ::
  "'f occupancy \<Rightarrow> (nat \<Rightarrow> ('k, 't, 'f) monitor_state \<Rightarrow> (unit, ('k, 't, 'f) monitor_state) outcome) \<Rightarrow> nat \<Rightarrow>
   ('k, 't, 'f) monitor_state \<Rightarrow> ('k, 't, 'f) monitor_state \<Rightarrow> bool"
  for ops dup fuel s0 where
    begins: "monitor_reaches ops dup fuel s0 s0"
  | passes: "monitor_reaches ops dup fuel s0 s \<Longrightarrow> t \<in> outcome_states (monitor_pass ops dup fuel exit_para s)
      \<Longrightarrow> monitor_reaches ops dup fuel s0 t"
  | others: "monitor_reaches ops dup fuel s0 s \<Longrightarrow> monitor_reaches ops dup fuel s0 (s\<lparr>m_alloc := a\<rparr>)"

end
