(* ===== verification/Monitor_Props.thy ===== *)
theory Monitor_Props
  imports Monitor
begin

text \<open>
  Theorems of the parallelism monitor: it does nothing to a map without kernels enabled for
  duplication, it starts two copies at most, how it attaches a copy, and that the addPort of the
  base class lets it start none.
\<close>

section \<open>What one look changes\<close>

text \<open>A look changes the monitor's own variables at most, and port_share nothing.\<close>

lemma port_share_same: "t \<in> outcome_states (port_share ops p s) \<Longrightarrow> t = s"
  by (auto simp: port_share_def split: if_splits sum.splits option.splits)

lemma port_share_returned: "port_share ops p s = Returned x s1 \<Longrightarrow> s1 = s"
  using port_share_same [of s1 ops p s] by simp

lemma bind_states_cases [consumes 1, case_names first second]:
  assumes "t \<in> outcome_states (bind_outcome m f)"
  obtains "t \<in> outcome_states m" | r s where "m = Returned r s" "t \<in> outcome_states (f r s)"
  using assms by (cases m) auto

text \<open>The step from one state to the next, as far as copies go: at most one more kernel is picked.\<close>

definition picks :: "nat \<Rightarrow> ('k, 't, 'f) monitor_state \<Rightarrow> ('k, 't, 'f) monitor_state \<Rightarrow> bool" where
  "picks k s t \<longleftrightarrow>
     m_alloc t = m_alloc s \<and> m_threads t = m_threads s
     \<and> (dup_list t = dup_list s \<and> dup_count t = dup_count s
        \<or> dup_list t = dup_list s @ [k] \<and> dup_count t = dup_count s + 1 \<and> dup_count s < 2)"

lemma picks_refl [simp]: "picks k s s"
  by (simp add: picks_def)

lemma watch_picks:
  assumes "t \<in> outcome_states (watch ops k s)"
  shows "picks k s t"
proof (cases "heap (mon_map s) k")
  case None
  then show ?thesis using assms by (simp add: watch_def)
next
  case (Some K)
  show ?thesis
  proof (cases "dup_enabled K")
    case True
    then have "t \<in> outcome_states (bind_outcome (port_share ops (kin K) s) (\<lambda>inp s1.
                 bind_outcome (port_share ops (kout K) s1) (\<lambda>outp s2.
                   let s3 = (if (count_of (kin K) = 0 \<or> above_half inp) \<and> (below_half outp \<or> count_of (kout K) = 0)
                             then s2\<lparr>occ_in := (occ_in s2)(k := occ_in s2 k + 1)\<rparr> else s2)
                   in if occ_in s3 k > 3 \<and> dup_count s3 < 2
                      then Returned ()
                        (s3\<lparr>dup_count := dup_count s3 + 1, dup_list := dup_list s3 @ [k],
                            occ_in := (occ_in s3)(k := 0)\<rparr>)
                      else Returned () s3)))"
      using assms Some by (simp add: watch_def)
    then show ?thesis
    proof (cases rule: bind_states_cases)
      case (second inp s1)
      from second(2) show ?thesis
      proof (cases rule: bind_states_cases)
        case (second outp s2)
        then show ?thesis
          using port_share_returned [OF \<open>port_share ops (kin K) s = _\<close>] port_share_returned [OF second(1)]
          by (auto simp: picks_def Let_def split: if_splits)
      qed (use port_share_returned [OF second(1)] in \<open>auto dest!: port_share_same\<close>)
    qed (auto dest!: port_share_same)
  qed (use assms Some in \<open>simp add: watch_def\<close>)
qed

section \<open>Nothing to do\<close>

lemma watch_keeps_wires: "visit_keeps_wires mon_map (watch ops)"
proof -
  have "mon_map t = mon_map s" if "watch ops k s = Returned u t" for k s t u
    using watch_picks [of t ops k s] that by (simp add: picks_def mon_map_def)
  then show ?thesis unfolding visit_keeps_wires_def by (metis same_wires_refl)
qed

lemma watch_disabled:
  "heap (mon_map s) k = Some K \<Longrightarrow> \<not> dup_enabled K \<Longrightarrow> watch ops k s = Returned () s"
  by (simp add: watch_def)

lemma watch_all_disabled:
  "\<forall>k \<in> set ks. \<exists>K. heap (mon_map s) k = Some K \<and> \<not> dup_enabled K \<Longrightarrow>
   visit_all (watch ops) ks s = Returned () s"
  by (induction ks) (auto simp: watch_disabled)

lemma mon_map_dup_list [simp]: "mon_map (s\<lparr>dup_list := l\<rparr>) = mon_map s"
  by (simp add: mon_map_def)

text \<open>
  C28: As long as no kernel of the map is enabled for duplication, a pass of the monitor ends
  and changes nothing: it goes once round the kernels and starts no copy.
\<close>

theorem monitor_idle:
  assumes "linked (mon_map s) V" and "finite V" and "source_set (mon_map s) \<subseteq> V" and "card V \<le> fuel"
    and "\<forall>k \<in> V. \<forall>K. heap (mon_map s) k = Some K \<longrightarrow> \<not> dup_enabled K"
  shows "monitor_pass ops dup fuel False s = Spin (s\<lparr>dup_list := []\<rparr>)"
proof -
  let ?s = "s\<lparr>dup_list := []\<rparr>"
  obtain ks where ks: "set ks = reachable_from (link_edges (mon_map s)) (source_set (mon_map s))"
      "BFS_vertices mon_map (watch ops) fuel (source_set (mon_map s)) ?s = visit_all (watch ops) ks ?s"
    using BFS_vertices_visits [of mon_map ?s V "source_set (mon_map s)" fuel "watch ops"] assms(1-4)
      watch_keeps_wires by auto
  have "set ks \<subseteq> V"
    unfolding ks(1) using assms(1,3) by (intro reachable_from_closed) (auto simp: linked_def)
  then have "visit_all (watch ops) ks ?s = Returned () ?s"
    using assms(1,5) by (intro watch_all_disabled) (fastforce simp: linked_def)
  then show ?thesis by (simp add: monitor_pass_def ks(2))
qed

section \<open>At most two copies\<close>

text \<open>n counts the threads started before; each count stands for a thread or a kernel yet to be copied.\<close>

definition few_copies :: "nat \<Rightarrow> nat list \<Rightarrow> ('k, 't, 'f) monitor_state \<Rightarrow> bool" where
  "few_copies n waiting s \<longleftrightarrow> dup_count s \<le> 2 \<and> length (m_threads s) + length waiting \<le> n + dup_count s"

lemma few_copies_watch:
  assumes "few_copies n (dup_list s) s" and "t \<in> outcome_states (watch ops k s)"
  shows "few_copies n (dup_list t) t"
  using watch_picks [OF assms(2)] assms(1) by (auto simp: few_copies_def picks_def)

lemma few_copies_vertices:
  assumes "few_copies n (dup_list s) s" and "t \<in> outcome_states (vertex_loop gr (watch ops) fuel q v s)"
  shows "few_copies n (dup_list t) t"
  using assms
proof (induction fuel arbitrary: q v s)
  case 0
  then show ?case by (cases q) auto
next
  case (Suc fuel)
  show ?case
  proof (cases q)
    case Nil
    then show ?thesis using Suc.prems by simp
  next
    case (Cons k q0)
    show ?thesis
      using Suc.prems(2) unfolding Cons vertex_loop.simps
    proof (cases rule: bind_states_cases)
      case first
      then show ?thesis using few_copies_watch Suc.prems(1) by blast
    next
      case (second u s1)
      have "few_copies n (dup_list s1) s1" using few_copies_watch [OF Suc.prems(1), of s1 ops k] second(1) by simp
      then show ?thesis using Suc.IH second(2) by (auto split: option.splits prod.splits)
    qed
  qed
qed

text \<open>What a copy takes with it: no variable of the monitor but the list of threads.\<close>

definition same_counts :: "('k, 't, 'f) monitor_state \<Rightarrow> ('k, 't, 'f) monitor_state \<Rightarrow> bool" where
  "same_counts s t \<longleftrightarrow> dup_count t = dup_count s \<and> dup_list t = dup_list s \<and> m_threads t = m_threads s"

lemma same_counts_simps [simp]:
  "same_counts s s" "same_counts s (upd_map f s)" "same_counts s (s\<lparr>m_alloc := a\<rparr>)"
  "same_counts s ((upd_map f s)\<lparr>m_alloc := a\<rparr>)"
  by (simp_all add: same_counts_def upd_map_def)

lemma lift_alloc_counts: "t \<in> outcome_states (lift_alloc r s) \<Longrightarrow> \<exists>a. t = s\<lparr>m_alloc := a\<rparr>"
  by (cases r) (auto simp: lift_alloc_def)

lemma attach_counts:
  assumes "t \<in> outcome_states (attach add key mk align d k c s)"
  shows "same_counts s t"
  using assms
  by (auto simp: attach_def Let_def split: option.splits if_splits sum.splits prod.splits
      dest!: lift_alloc_counts)

lemma duplicate_counts:
  assumes "t \<in> outcome_states (duplicate cl add key mk align k s)"
  shows "dup_count t = dup_count s \<and> dup_list t = dup_list s
     \<and> (m_threads t = m_threads s \<or> (\<exists>c. m_threads t = m_threads s @ [c]))"
proof -
  have start: "same_counts s t \<or> (\<exists>c t'. same_counts s t' \<and> t \<in> outcome_states (schedule_copy c t'))"
    if "t \<in> outcome_states (bind_outcome (attach add key mk align In k c s1)
         (\<lambda>_ s2. bind_outcome (attach add key mk align Out k c s2) (\<lambda>_ s3. schedule_copy c s3)))"
      "same_counts s s1" for s1 c
    using that(1)
  proof (cases rule: bind_states_cases)
    case first
    then show ?thesis using attach_counts that(2) unfolding same_counts_def by metis
  next
    case (second u s2)
    then have s2: "same_counts s s2"
      using attach_counts [of s2 add key mk align In k c s1] that(2) by (simp add: same_counts_def)
    from second(2) show ?thesis
    proof (cases rule: bind_states_cases)
      case first
      then show ?thesis using attach_counts s2 unfolding same_counts_def by metis
    next
      case (second u s3)
      then have "same_counts s s3"
        using attach_counts [of s3 add key mk align Out k c s2] s2 by (simp add: same_counts_def)
      then show ?thesis using second(2) by blast
    qed
  qed
  have "same_counts s t \<or> (\<exists>c t'. same_counts s t' \<and> t \<in> outcome_states (schedule_copy c t'))"
  proof (cases "heap (mon_map s) k")
    case (Some K)
    show ?thesis
    proof (cases "cl K")
      case (Inl e)
      then show ?thesis using assms Some by (simp add: duplicate_def)
    next
      case (Inr C)
      then show ?thesis
        using assms Some unfolding duplicate_def Let_def option.case sum.case
        by (intro start [rotated]) (simp_all only: option.case sum.case same_counts_simps)
    qed
  qed (use assms in \<open>simp add: duplicate_def\<close>)
  then show ?thesis
    by (auto simp: same_counts_def schedule_copy_def upd_map_def split: option.splits)
qed

lemma few_copies_all:
  assumes "few_copies n ks s" and "t \<in> outcome_states (duplicate_all (duplicate cl add key mk align) ks s)"
  shows "few_copies n [] t"
  using assms
proof (induction ks arbitrary: s)
  case (Cons k ks)
  from Cons.prems(2) show ?case unfolding duplicate_all.simps
  proof (cases rule: bind_states_cases)
    case first
    then show ?thesis using duplicate_counts [OF first] Cons.prems(1) by (auto simp: few_copies_def)
  next
    case (second u s1)
    then have "few_copies n ks s1"
      using duplicate_counts [of s1 cl add key mk align k s] Cons.prems(1) by (auto simp: few_copies_def)
    then show ?thesis using Cons.IH second(2) by blast
  qed
qed simp

lemma few_copies_pass:
  assumes "few_copies n [] s"
    and "t \<in> outcome_states (monitor_pass ops (duplicate cl add key mk align) fuel ex s)"
  shows "few_copies n [] t"
proof (cases ex)
  case False
  let ?s = "s\<lparr>dup_list := []\<rparr>"
  have weak: "few_copies n (dup_list t) t \<Longrightarrow> few_copies n [] t" for t :: "('k, 't, 'f) monitor_state"
    by (auto simp: few_copies_def)
  have init: "few_copies n (dup_list ?s) ?s" using assms(1) by (simp add: few_copies_def)
  have "t \<in> outcome_states
      (bind_outcome (BFS_vertices mon_map (watch ops) fuel (source_set (mon_map s)) ?s)
        (\<lambda>_ s1. bind_outcome (duplicate_all (duplicate cl add key mk align) (dup_list s1) s1)
          (\<lambda>_ s2. Spin (s2\<lparr>dup_list := []\<rparr>) :: (unit, _) outcome)))"
    using assms(2) False unfolding monitor_pass_def by (simp only: if_False)
  then show ?thesis
  proof (cases rule: bind_states_cases)
    case first
    then show ?thesis using few_copies_vertices [OF init] weak unfolding BFS_vertices_def by blast
  next
    case (second u s1)
    then have s1: "few_copies n (dup_list s1) s1"
      using few_copies_vertices [OF init, of s1] unfolding BFS_vertices_def by (metis outcome_states.simps(1) singletonI)
    from second(2) show ?thesis
    proof (cases rule: bind_states_cases)
      case first
      then show ?thesis using few_copies_all [OF s1] by blast
    next
      case (second u s2)
      then have "few_copies n [] s2" using few_copies_all [OF s1, of s2 cl add key mk align] by simp
      then show ?thesis using second(2) by (simp add: few_copies_def)
    qed
  qed
qed (use assms in \<open>simp add: monitor_pass_def\<close>)

text \<open>
  C27: However often the monitor looks and whatever the other threads do meanwhile, it never
  starts more than two copies: the counter of the search bounds the threads it adds.
\<close>

theorem at_most_two_copies:
  assumes "monitor_reaches ops (duplicate cl add key mk align) fuel s t" and "dup_count s = 0"
  shows "length (m_threads t) \<le> length (m_threads s) + 2"
proof -
  from assms(1) have "few_copies (length (m_threads s)) [] t"
  proof induction
    case begins
    then show ?case using assms(2) by (simp add: few_copies_def)
  next
    case passes
    then show ?case using few_copies_pass by blast
  next
    case others
    then show ?case by (simp add: few_copies_def)
  qed
  then show ?thesis by (simp add: few_copies_def)
qed

section \<open>Attaching a copy\<close>

lemma get_info_heap:
  "get_info (a, d, n) g = (case heap g a of None \<Rightarrow> None | Some K \<Rightarrow> smap_find (portmap (ports_of d K)) n)"
  by (simp add: get_info.simps)

lemma mon_map_upd [simp]: "mon_map (upd_map f s) = f (mon_map s)"
  by (simp add: mon_map_def upd_map_def)

text \<open>allocate gives its two ports a new FIFO when neither has one.\<close>

lemma allocate_gives:
  assumes "get_info a (a_map s) = Some pi" and "getFIFO pi = Some None"
    and "get_info b (a_map s) = Some pj" and "getFIFO pj = Some None"
  shows "\<exists>t. allocate mk align a b s = Returned () t
     \<and> a_map t = set_info b (setFIFO (next_fifo s)) (set_info a (setFIFO (next_fifo s)) (a_map s))
     \<and> fifo_heap t = (fifo_heap s)(next_fifo s \<mapsto> fifo_for mk align pi)"
  using assms by (simp add: allocate_def initialize_def Let_def)

lemma allocate_twice:
  assumes "get_info a (a_map s) = Some pi" and "getFIFO pi = Some (Some f)"
    and "get_info b (a_map s) \<noteq> None"
  shows "\<exists>t. allocate mk align a b s = Raised PortDoubleInitialize t"
  using assms by (auto simp: allocate_def initialize_def Let_def)

lemma allocate_twice_second:
  assumes "get_info a (a_map s) = Some pi" and "getFIFO pi = Some None"
    and "get_info b (a_map s) = Some pj" and "getFIFO pj = Some (Some f)"
  shows "\<exists>t. allocate mk align a b s = Raised PortDoubleInitialize t"
  using assms by (auto simp: allocate_def initialize_def Let_def)

text \<open>
  C30: When the neighbour's addPort gives it a port without a FIFO, attaching one side of a copy
  gives that port and the copy's port one new FIFO, of the size the sender's port asks for.
  Neither port learns of the other: their other_kernel and other_name stay as they were.
\<close>

theorem attach_shares_stream:
  assumes "heap (mon_map s) k = Some K" and "portmap (ports_of d K) = [(n, pi)]"
    and "other_kernel pi = Some b" and "heap (mon_map s) b = Some N" and "add N = (p, N')"
    and "smap_find (portmap (ports_of (opposite d) N')) (key p) = Some qi" and "getFIFO qi = Some None"
    and "heap (mon_map s) c = Some C" and "portmap (ports_of d C) = [(m, ci)]"
    and "getFIFO ci = Some None" and "c \<noteq> b"
  shows "\<exists>t. attach add key mk align d k c s = Returned () t
     \<and> get_info (c, d, m) (mon_map t) = Some (setFIFO (next_fifo (m_alloc s)) ci)
     \<and> get_info (b, opposite d, key p) (mon_map t) = Some (setFIFO (next_fifo (m_alloc s)) qi)
     \<and> fifo_heap (m_alloc t) (next_fifo (m_alloc s))
         = Some (fifo_for mk align (if d = In then qi else ci))"
proof -
  let ?g = "(mon_map s)\<lparr>heap := (heap (mon_map s))(b \<mapsto> N')\<rparr>"
  let ?s = "upd_map (\<lambda>g. g\<lparr>heap := (heap g)(b \<mapsto> N')\<rparr>) s"
  let ?f = "next_fifo (m_alloc s)"
  have theirs: "get_info (b, opposite d, key p) (mon_map ?s) = Some qi"
    and ours: "get_info (c, d, m) (mon_map ?s) = Some ci"
    using assms by (simp_all add: get_info_heap)
  have am: "a_map (m_alloc ?s) = mon_map ?s" "next_fifo (m_alloc ?s) = ?f"
    by (simp_all add: mon_map_def upd_map_def)
  have ports: "count_of (ports_of d K) \<noteq> 0" "getPortInfo (ports_of d K) = Inr pi"
    "getPortInfo (ports_of d C) = Inr ci" "fst (hd (portmap (ports_of d C))) = m"
    using assms by (simp_all add: count_of_def getPortInfo_def)
  have found: "getPortInfoFor (key p) (ports_of (opposite d) N') = Inr qi"
    using assms by (simp add: getPortInfoFor_def)
  have step: "attach add key mk align d k c s =
      lift_alloc (if d = In then allocate mk align (b, opposite d, key p) (c, d, m) (m_alloc ?s)
                  else allocate mk align (c, d, m) (b, opposite d, key p) (m_alloc ?s)) ?s"
    using assms ports found by (simp add: attach_def Let_def)
  show ?thesis
  proof (cases "d = In")
    case True
    obtain t where t: "allocate mk align (b, opposite d, key p) (c, d, m) (m_alloc ?s) = Returned () t"
        "a_map t = set_info (c, d, m) (setFIFO ?f) (set_info (b, opposite d, key p) (setFIFO ?f) (mon_map ?s))"
        "fifo_heap t = (fifo_heap (m_alloc ?s))(?f \<mapsto> fifo_for mk align qi)"
      using allocate_gives [of "(b, opposite d, key p)" "m_alloc ?s" qi "(c, d, m)" ci mk align]
        theirs ours assms(7,10) by (auto simp: am)
    show ?thesis
      unfolding step using True t theirs ours assms(11) by (simp add: lift_alloc_def mon_map_def)
  next
    case False
    obtain t where t: "allocate mk align (c, d, m) (b, opposite d, key p) (m_alloc ?s) = Returned () t"
        "a_map t = set_info (b, opposite d, key p) (setFIFO ?f) (set_info (c, d, m) (setFIFO ?f) (mon_map ?s))"
        "fifo_heap t = (fifo_heap (m_alloc ?s))(?f \<mapsto> fifo_for mk align ci)"
      using allocate_gives [of "(c, d, m)" "m_alloc ?s" ci "(b, opposite d, key p)" qi mk align]
        theirs ours assms(7,10) by (auto simp: am)
    show ?thesis
      unfolding step using False t theirs ours assms(11) by (simp add: lift_alloc_def mon_map_def)
  qed
qed

section \<open>The addPort of the base class\<close>

lemma getPortInfo_single:
  assumes "getPortInfo p = Inr pi"
  obtains n where "portmap p = [(n, pi)]"
  using assms by (cases "portmap p") (auto simp: getPortInfo_def split: if_splits)

text \<open>A running map: its kernels' ports lead to kernels, and every port has a FIFO.\<close>

definition running_map :: "('k, 't) map_state \<Rightarrow> bool" where
  "running_map g \<longleftrightarrow>
     (\<forall>k K d e. heap g k = Some K \<longrightarrow> e \<in> set (portmap (ports_of d K)) \<longrightarrow>
        (\<exists>b N f. other_kernel (snd e) = Some b \<and> heap g b = Some N \<and> getFIFO (snd e) = Some (Some f)))"

lemma running_map_port:
  assumes "running_map g" and "heap g k = Some K" and "(n, pi) \<in> set (portmap (ports_of d K))"
  obtains b N f where "other_kernel pi = Some b" "heap g b = Some N" "getFIFO pi = Some (Some f)"
  using assms unfolding running_map_def by (metis snd_conv)

definition no_fifos :: "('k, 't) kernel \<Rightarrow> bool" where
  "no_fifos C \<longleftrightarrow> (\<forall>d. \<forall>e \<in> set (portmap (ports_of d C)). getFIFO (snd e) = Some None)"

lemma attach_base_raises:
  assumes "running_map g" and "mon_map s = g\<lparr>heap := (heap g)(c \<mapsto> C), next_addr := i\<rparr>" and "heap g c = None"
    and "heap g k = Some K" and "count_of (ports_of d K) \<noteq> 0" and "no_fifos C"
  shows "\<exists>e t. attach kernel_addPort key mk align d k c s = Raised e t"
proof (cases "getPortInfo (ports_of d K)")
  case (Inl e)
  have "heap (mon_map s) k = Some K" "heap (mon_map s) c = Some C" using assms(2-4) by auto
  then show ?thesis using Inl assms(5) by (simp add: attach_def)
next
  case (Inr pi)
  then obtain n where n: "portmap (ports_of d K) = [(n, pi)]" by (rule getPortInfo_single)
  then have "(n, pi) \<in> set (portmap (ports_of d K))" by simp
  then obtain b N where b: "other_kernel pi = Some b" "heap g b = Some N"
    using running_map_port [OF assms(1,4)] by metis
  have at: "heap (mon_map s) k = Some K" "heap (mon_map s) c = Some C" "heap (mon_map s) b = Some N"
    using assms(2-4) b(2) by auto
  let ?s = "upd_map (\<lambda>g. g\<lparr>heap := (heap g)(b \<mapsto> N)\<rparr>) s"
  have am: "a_map (m_alloc ?s) = mon_map ?s" by (simp add: mon_map_def upd_map_def)
  have step: "attach kernel_addPort key mk align d k c s =
      (case (getPortInfoFor (key 0) (ports_of (opposite d) N), getPortInfo (ports_of d C)) of
         (Inl e, _) \<Rightarrow> Raised e ?s
       | (_, Inl e) \<Rightarrow> Raised e ?s
       | (Inr _, Inr _) \<Rightarrow>
           (let theirs = (b, opposite d, key 0); ours = (c, d, fst (hd (portmap (ports_of d C))))
            in lift_alloc
                 (if d = In then allocate mk align theirs ours (m_alloc ?s)
                  else allocate mk align ours theirs (m_alloc ?s)) ?s))"
    using assms(5) Inr b(1) at by (simp add: attach_def kernel_addPort_def Let_def)
  show ?thesis
  proof (cases "smap_find (portmap (ports_of (opposite d) N)) (key 0)")
    case (Some qi)
    then obtain f where f: "getFIFO qi = Some (Some f)"
      using running_map_port [OF assms(1) b(2) smap_find_Some_in [OF Some]] by metis
    have theirs: "get_info (b, opposite d, key 0) (mon_map ?s) = Some qi"
      using Some by (simp add: get_info_heap)
    show ?thesis
    proof (cases "getPortInfo (ports_of d C)")
      case (Inr ci)
      then obtain m where m: "portmap (ports_of d C) = [(m, ci)]" by (rule getPortInfo_single)
      have "c \<noteq> b" using assms(3) b(2) by auto
      then have ours: "get_info (c, d, m) (mon_map ?s) = Some ci"
        using m at(2) by (simp add: get_info_heap)
      have "(m, ci) \<in> set (portmap (ports_of d C))" using m by simp
      then have fresh: "getFIFO ci = Some None" using assms(6) unfolding no_fifos_def by fastforce
      have "\<exists>t. allocate mk align (b, opposite d, key 0) (c, d, m) (m_alloc ?s) = Raised PortDoubleInitialize t"
        using allocate_twice [of "(b, opposite d, key 0)" "m_alloc ?s" qi f "(c, d, m)" mk align] theirs ours f
        by (simp add: am)
      moreover have "\<exists>t. allocate mk align (c, d, m) (b, opposite d, key 0) (m_alloc ?s) = Raised PortDoubleInitialize t"
        using allocate_twice_second [of "(c, d, m)" "m_alloc ?s" ci "(b, opposite d, key 0)" qi f mk align]
          theirs ours f fresh by (simp add: am)
      ultimately show ?thesis
        unfolding step using Some Inr m by (auto simp: getPortInfoFor_def lift_alloc_def Let_def)
    qed (use Some in \<open>simp add: step getPortInfoFor_def\<close>)
  qed (simp add: step getPortInfoFor_def)
qed


section \<open>A source and a sink\<close>

text \<open>Kernel 1 sends to kernel 2, which is enabled for duplication; the stream has FIFO 0.\<close>

definition pair_port :: "nat \<Rightarrow> nat \<Rightarrow> nat \<Rightarrow> nat \<Rightarrow> nat \<times> (nat, nat) PortInfo" where
  "pair_port k n b m = (n, (fresh_info 0 8 k n)\<lparr>other_kernel := Some b, other_name := m, fifo_a := Some 0, fifo_b := Some 0\<rparr>)"

definition pair_map :: "bool \<Rightarrow> (nat, nat) map_state" where
  "pair_map enabled = (map_new
     [1 \<mapsto> diamond_kernel 1 [] [pair_port 1 11 2 21],
      2 \<mapsto> (diamond_kernel 2 [pair_port 2 21 1 11] [])\<lparr>dup_enabled := enabled\<rparr>] 3)
     \<lparr>source_set := {1}, dst_set := {2}, all_set := {1, 2}\<rparr>"

definition pair_monitor :: "bool \<Rightarrow> (nat, nat, u64) monitor_state" where
  "pair_monitor enabled =
     \<lparr>m_alloc = \<lparr>a_map = pair_map enabled, fifo_heap = [0 \<mapsto> 64], next_fifo = 1, allocated_fifo = {0}, alloc_ready = True\<rparr>,
      occ_in = (\<lambda>_. 0), dup_count = 0, dup_list = [], m_threads = [1, 2]\<rparr>"

text \<open>Streams that are always full, a clone with the sink's port, and an addPort that adds port 12.\<close>

definition all_full :: "u64 occupancy" where
  "all_full = \<lparr>o_size = id, o_capacity = id\<rparr>"

definition sink_clone :: "(nat, nat) kernel \<Rightarrow> exn + (nat, nat) kernel" where
  "sink_clone K = Inr (diamond_kernel 3 [(21, fresh_info 0 8 3 21)] [])"

definition one_more_port :: "(nat, nat) add_port_fun" where
  "one_more_port N = (12, N\<lparr>kout := (kout N)\<lparr>portmap := portmap (kout N) @ [(12, fresh_info 0 8 1 12)]\<rparr>\<rparr>)"

definition pair_factory :: "u64 factory" where
  "pair_factory n align buf = n"

lemmas pair_simps =
  pair_monitor_def pair_map_def pair_port_def mon_map_def

lemma pair_map_at:
  "heap (mon_map (pair_monitor e)) 1 = Some (diamond_kernel 1 [] [pair_port 1 11 2 21])"
  "heap (mon_map (pair_monitor e)) 2 = Some ((diamond_kernel 2 [pair_port 2 21 1 11] [])\<lparr>dup_enabled := e\<rparr>)"
  "heap (mon_map (pair_monitor e)) k \<noteq> None \<Longrightarrow> k = 1 \<or> k = 2"
  "next_addr (mon_map (pair_monitor e)) = 3" "source_set (mon_map (pair_monitor e)) = {1}"
  by (simp_all add: pair_monitor_def pair_map_def mon_map_def map_new_def split: if_splits)

lemma pair_running: "running_map (mon_map (pair_monitor e))"
  unfolding running_map_def
proof (intro allI impI)
  fix k K d x
  assume a: "heap (mon_map (pair_monitor e)) k = Some K" "x \<in> set (portmap (ports_of d K))"
  then have "k = 1 \<or> k = 2" using pair_map_at(3) by blast
  then show "\<exists>b N f. other_kernel (snd x) = Some b \<and> heap (mon_map (pair_monitor e)) b = Some N
      \<and> getFIFO (snd x) = Some (Some f)"
    using a pair_map_at(1,2) [of e]
    by (cases d) (auto simp: diamond_kernel_def pair_port_def getFIFO_def Port_new_def kernel_new_def)
qed

theorem monitor_idle_witness:
  "monitor_pass all_full (duplicate sink_clone one_more_port id pair_factory 16) 2 False (pair_monitor False) =
     Spin ((pair_monitor False)\<lparr>dup_list := []\<rparr>)"
proof -
  have links: "map head_of (link_edges (mon_map (pair_monitor False)) 1) = [2]"
    "link_edges (mon_map (pair_monitor False)) 2 = []"
    using pair_map_at(1,2) [of False]
    by (simp_all add: link_edges_def kernel_wires_def head_of_def pair_port_def diamond_kernel_def kernel_new_def Port_new_def)
  then have "head_of ` set (link_edges (mon_map (pair_monitor False)) 1) = {2}" by (simp flip: set_map)
  then have "linked (mon_map (pair_monitor False)) {1, 2}"
    using pair_map_at(1,2) [of False] links(2)
    by (auto simp: linked_def smap_ok_def diamond_kernel_def pair_port_def kernel_new_def Port_new_def)
  moreover have "\<forall>k \<in> {1, 2}. \<forall>K. heap (mon_map (pair_monitor False)) k = Some K \<longrightarrow> \<not> dup_enabled K"
    using pair_map_at(1,2) [of False] by (auto simp: diamond_kernel_def kernel_new_def)
  ultimately show ?thesis
    by (intro monitor_idle [of _ "{1, 2}"]) (simp_all add: pair_map_at)
qed

theorem attach_shares_stream_witness:
  "\<exists>t. attach one_more_port id pair_factory 16 In 2 3
        (upd_map (\<lambda>g. g\<lparr>heap := (heap g)(3 \<mapsto> diamond_kernel 3 [(21, fresh_info 0 8 3 21)] [])\<rparr>) (pair_monitor True))
        = Returned () t
     \<and> get_info (3, In, 21) (mon_map t) = Some (setFIFO 1 (fresh_info 0 8 3 21))
     \<and> get_info (1, Out, 12) (mon_map t) = Some (setFIFO 1 (fresh_info 0 8 1 12))
     \<and> fifo_heap (m_alloc t) 1 = Some 64"
proof -
  let ?s = "upd_map (\<lambda>g. g\<lparr>heap := (heap g)(3 \<mapsto> diamond_kernel 3 [(21, fresh_info 0 8 3 21)] [])\<rparr>) (pair_monitor True)"
  have f: "next_fifo (m_alloc ?s) = 1" by (simp add: upd_map_def pair_monitor_def)
  let ?N = "diamond_kernel 1 [] [pair_port 1 11 2 21]"
  let ?K = "(diamond_kernel 2 [pair_port 2 21 1 11] [])\<lparr>dup_enabled := True\<rparr>"
  let ?C = "diamond_kernel 3 [(21, fresh_info 0 8 3 21)] []"
  have heap: "heap (mon_map ?s) 2 = Some ?K" "heap (mon_map ?s) 1 = Some ?N" "heap (mon_map ?s) 3 = Some ?C"
    using pair_map_at(1,2) [of True] by simp_all
  have ports: "portmap (ports_of In ?K) = [(21, snd (pair_port 2 21 1 11))]"
    "portmap (ports_of In ?C) = [(21, fresh_info 0 8 3 21)]"
    "other_kernel (snd (pair_port 2 21 1 11)) = Some 1"
    by (simp_all add: diamond_kernel_def pair_port_def)
  have new: "smap_find (portmap (ports_of (opposite In) (snd (one_more_port ?N)))) (id 12) = Some (fresh_info 0 8 1 12)"
    by (simp add: one_more_port_def diamond_kernel_def pair_port_def)
  have add: "one_more_port ?N = (12, snd (one_more_port ?N))" by (simp add: one_more_port_def)
  have free: "getFIFO (fresh_info 0 8 a n :: (nat, nat) PortInfo) = Some None" for a n
    by (simp add: fresh_info_def PortInfo_new_def getFIFO_def)
  have mk: "fifo_for pair_factory 16 (fresh_info 0 8 1 12 :: (nat, nat) PortInfo) = 64"
    by (simp add: fifo_for_def pair_factory_def fresh_info_def PortInfo_new_def INITIAL_ALLOC_SIZE_def)
  show ?thesis
    using attach_shares_stream [where s = ?s and add = one_more_port and mk = pair_factory and align = 16 and key = id and p = 12 and d = In and m = 21, OF heap(1) ports(1,3) heap(2) add new free heap(3) ports(2) free] mk
    by (simp add: f)
qed


text \<open>Four passes over a full stream: the sink is copied, and the copy reads its own stream from kernel 1.\<close>

fun left_by :: "(unit, 's) outcome \<Rightarrow> 's option" where
  "left_by (Returned u s) = Some s"
| "left_by (Spin s) = Some s"
| "left_by (Raised e s) = Some s"
| "left_by (Fault f) = None"

lemma left_by_state: "left_by m = Some t \<Longrightarrow> t \<in> outcome_states m"
  by (cases m) auto

fun passes_of :: "nat \<Rightarrow> (nat, nat, u64) monitor_state \<Rightarrow> (nat, nat, u64) monitor_state option" where
  "passes_of 0 s = Some s"
| "passes_of (Suc n) s =
     (case left_by (monitor_pass all_full (duplicate sink_clone one_more_port id pair_factory 16) 2 False s) of
        None \<Rightarrow> None
      | Some t \<Rightarrow> passes_of n t)"

lemma passes_of_reaches:
  assumes "passes_of n s = Some t"
    and "monitor_reaches all_full (duplicate sink_clone one_more_port id pair_factory 16) 2 s0 s"
  shows "monitor_reaches all_full (duplicate sink_clone one_more_port id pair_factory 16) 2 s0 t"
  using assms
  by (induction n arbitrary: s)
    (auto split: option.splits dest: left_by_state monitor_reaches.passes)

lemma fourth_pass_copies:
  "case passes_of 4 (pair_monitor True) of
     None \<Rightarrow> False
   | Some t \<Rightarrow> m_threads t = [1, 2, 3]"
  by code_simp

theorem at_most_two_copies_witness:
  "\<exists>t. monitor_reaches all_full (duplicate sink_clone one_more_port id pair_factory 16) 2 (pair_monitor True) t
     \<and> m_threads t = [1, 2, 3] \<and> length (m_threads t) \<le> length (m_threads (pair_monitor True)) + 2"
proof -
  obtain t where t: "passes_of 4 (pair_monitor True) = Some t" "m_threads t = [1, 2, 3]"
    using fourth_pass_copies by (auto split: option.splits)
  then have "monitor_reaches all_full (duplicate sink_clone one_more_port id pair_factory 16) 2 (pair_monitor True) t"
    using passes_of_reaches monitor_reaches.begins by blast
  moreover have "dup_count (pair_monitor True) = 0" by (simp add: pair_monitor_def)
  ultimately show ?thesis using at_most_two_copies t(2) by blast
qed

end
