(* ===== verification/Spec2Isabelle.thy ===== *)
theory Spec2Isabelle
  imports Ring_Queue Ring_Props Ring_Props2 Ring_Spsc Scheduler_Props Map_Chain Exe_Whole Library_Pipeline Execution_Pass Split_Join_Props Duplication Monitor_Props
begin

text \<open>
  RaftLib: a model of the runtime of a C++ stream-processing library.  A user writes kernels
  (src/kernel.cpp, raftinc/kernel.hpp) with named input and output ports, connects them with
  operators into a raft::map, and calls exe: the map is checked, its kernels are partitioned
  over cores, an allocator gives each connection a FIFO, and a scheduler runs the kernels
  until their inputs are closed.  The FIFOs are ring buffers shared by two threads.

  How the parts are modelled.

  \<^item> Prelude: outcome, the result of a call that may return, spin once round a retry loop, raise,
    or have undefined behaviour; ordered maps; kernel keepers as sets of addresses.
  \<^item> Streams.  Signals (raftinc/signal.hpp, raftinc/blocked.hpp, raftinc/threadaccess.hpp),
    Ring_Pointer (src/pointer.cpp), Ring_Data (raftinc/bufferdata.tcc, raftinc/datamanager.tcc,
    raftinc/ringbuffer.tcc) and Ring_Fifo (raftinc/ringbufferheap*.tcc, raftinc/fifo.hpp) have
    the state of a ring buffer, field by field, with 64-bit indices and wrap counters, and one
    definition per operation.  Ring_Queue, Ring_Ranges, Ring_Contract and Ring_Resize prove that
    they implement a queue (contents is the abstraction, fifo_ok the invariant);
    Ring_Contract states it as the locales bounded_queue and closable_queue, interpreted on
    the ring.  Ring_Props and Ring_Props2 hold the theorems.  Ring_Spsc splits push and pop into
    single reads and writes of shared variables and interleaves a writer and a reader.
  \<^item> Scheduler, Scheduler_Props: src/schedule.cpp, src/simpleschedule.cpp, src/poolschedule.cpp
    and src/systemsignalhandler.cpp; run of a kernel is a parameter.
  \<^item> The graph.  Ports (src/port.cpp, src/port_info.cpp, raftinc/port.hpp, raftinc/kernel.hpp,
    raftinc/kernel_wrapper.hpp, raftinc/kernel_pair_t.hpp), Map_Base (src/mapbase.cpp,
    raftinc/mapbase.hpp and checkEdges), over a heap of kernels at addresses.  map_ok is the
    invariant: the two ends of every connection agree.  Map_Props and Map_Run hold its theorems.
  \<^item> Topologies.  Kpair (src/kpair.cpp, raftinc/kpair.hpp): the operators >>, <= and >= build linked
    pairs; Map_Ops, Map_Ops_Props, Map_Add and Map_Chain (src/map.cpp): operator += walks them
    and links the kernels, cloning those between a split and a join; clone is a parameter.
  \<^item> Graph_Tools, Graph_Props (src/graphtools.cpp): the breadth-first searches.  Allocate,
    Allocate_Props (src/allocate.cpp, src/stdalloc.cpp, src/dynalloc.cpp): FIFOs for the edges,
    and the monitor that grows them.  Duplication: enableDuplication of src/map.cpp.
  \<^item> Scotch_Tables (raftinc/graph.tcc), Partition, Partition_Props, Partition_Scotch
    (src/partition_*.cpp): the graph handed to the Scotch library and the cores assigned; the
    locale partitioner is the interface of raftinc/interface_partition.hpp and is interpreted on
    all three partitioners.  Exe: raft::map::exe up to the ready allocator.
  \<^item> Running.  Execution has the threads of simple_schedule (src/simpleschedule.cpp and kernelRun of
    src/schedule.cpp) as a step relation: one call on a stream, one stream closed or one flag set
    is a step of a thread, one look at a thread is a step of start, in any order.  The code of a
    kernel's run is a tree of pops and pushes.  Execution_Pass proves that a thread left alone
    does what kernelRun of Scheduler does; Execution_Inv and Execution_Props hold the invariant of
    all threads together (what each guarantees the others) and its theorems; Execution_Live,
    Execution_Finish, Execution_End and Execution_Done prove that a program can always be brought
    to its end; Execution_Demo has concrete programs.
  \<^item> Exe_Run joins the graph to the threads: the streams of a kernel are the FIFOs of its ports
    (src/portiterator.cpp).  Exe_Whole composes exe from the check to the return of start.
  \<^item> Monitor, Monitor_Props: the parallelism monitor (src/basicparallel.cpp); what a FIFO's
    occupancy is, addPort and clone are parameters.  Dot, Dot_Props (src/makedot.cpp,
    raftinc/makedot.hpp): the picture of the map that exe writes, and a reader for it.
  \<^item> Library_Kernels, Library_Props: the file reader (raftinc/fileio.tcc, raftinc/filechunk.tcc), the
    search (raftinc/search.tcc, raftinc/chunkiterator.tcc), for_each, read_each and print.
    Library_Pipeline runs read_each >> print from exe to the printed list.
  \<^item> Split_Join, Split_Join_Props (src/roundrobin.cpp, raftinc/splitmethod.hpp, raftinc/split.tcc,
    raftinc/join.tcc): the kernels that split and merge streams, on the ring buffers; the
    locale split_policy is the contract of a split method.

  What the theorems show.  One ring buffer, under any interleaving of one writer and one
  reader, delivers a prefix of what was sent, in order, and all of it once it is closed; each
  operation agrees with a bounded list queue.  However links are made and whichever fail, a
  graph that passes the check is consistently connected; each reachable edge gets exactly one
  FIFO of its own; a kernel that ended has drained its inputs; the tables given to Scotch are
  the graph, and each kernel gets the core computed for it.  From these: when exe has started a map
  and start returns, each edge of the graph has delivered what its sender sent, in order, and all of
  it to a receiver that did not itself stop; exe does start every checked map; and read_each >> print prints
  the list it is given.  The chunks of the file reader are the file, and search finds every match.  The picture read
  back is the graph; the parallelism monitor is idle unless a kernel is enabled for duplication, and
  starts two copies at most.  Other theorems state where the
  code does not do what it means to: they are the findings of the development.

  Bounds and fuel.  A ring pointer counts wraps in 64 bits; room is the number of elements that
  can still pass before a counter overflows, and theorems about runs ask for it.  Retry loops
  are not iterated: a definition is one pass, Spin means once more.  Searches take as fuel the
  number of kernels they may visit, and the theorems show that the number of kernels of
  the map is enough; walking the pairs of a topology takes the number of pairs as fuel.
  The step relation of the threads needs no fuel; in_lifetime says that no counter of a stream has
  overflowed yet, and a step is a whole call on a stream, which Ring_Spsc justifies for one writer
  and one reader.  Memory
  is sequentially consistent.  A failed assert is Fault AssertionFailed (the build without
  NDEBUG), exit is Fault ProcessExit.

  Not modelled: the third specialisation of the heap ring buffer (elements passed by pointer) and
  ring buffers in shared memory, whose memory is raw addresses; write_each, print with several ports
  and the kernels of the library that only call a functor; the pinning of threads and fifo_gc in a
  step of a thread; growing streams while the threads run (dynalloc's monitor and resize are modelled,
  and proved, apart from the step relation, and Exe_Whole takes the allocator stdalloc); the thread
  of a copy the parallelism monitor starts; depth-first search (no caller); floating point averages.
\<close>

end
